(* ===== verification/Exchange_Prelude.thy ===== *)
theory Exchange_Prelude
  imports Main "HOL-Library.Word"
begin

text \<open>
  What every component of the exchange shares: the integer types of
  \<^verbatim>\<open>include/Usings.h\<close> at their width, the named fact collections of the development, and
  generic lemmas on machine words, lists and maps.

  A \<^verbatim>\<open>std::int32_t\<close> is a 32-bit word that the model reads with \<^term>\<open>sint\<close> wherever the code
  compares it; the unsigned types are words read with \<^term>\<open>unat\<close>, so that \<open>+\<close> and \<open>-\<close>
  wrap around as they do in C++.
\<close>

section \<open>Types and constants of Usings.h\<close>

type_synonym Price = "32 word"
type_synonym Quantity = "32 word"
type_synonym OrderId = "64 word"
type_synonym Timestamp = "64 word"
type_synonym SessionId = "32 word"
type_synonym ClientOrderId = "64 word"
type_synonym TradeId = "64 word"
type_synonym size_t = "64 word"

definition INVALID_SESSION_ID :: SessionId where
  "INVALID_SESSION_ID = 0"

definition DUMMY_SESSION_ID :: SessionId where
  "DUMMY_SESSION_ID = 0xFFFFFFFF"

section \<open>Fact collections\<close>

named_theorems frame_simps
  \<open>which fields of a state an operation leaves unchanged\<close>

named_theorems word_nat
  \<open>reading unsigned words as natural numbers\<close>

section \<open>Words\<close>

lemma unat_min_word [word_nat]: "unat (min a b) = min (unat a) (unat b)" for a b :: "'a::len word"
  by (simp add: min_def word_le_nat_alt)

lemma unat_sub_min [word_nat]: "unat (a - min a b) = unat a - unat b" for a b :: "'a::len word"
  by (cases "a \<le> b") (auto simp: min_def unat_sub word_le_nat_alt)

lemma unat_pos_word [word_nat]: "(0 < a) = (0 < unat a)" for a :: "'a::len word"
  by (simp add: word_less_nat_alt)

lemma sint_inject [simp]: "(sint a = sint b) = (a = b)" for a b :: "'a::len word"
  by (metis word_eq_iff_signed)

lemma unat_sum_no_wrap:
  "(\<Sum>x\<leftarrow>xs. unat (f x)) < 2 ^ LENGTH('a) \<Longrightarrow> unat (\<Sum>x\<leftarrow>xs. f x) = (\<Sum>x\<leftarrow>xs. unat (f x))"
  for f :: "'b \<Rightarrow> 'a::len word"
proof (induction xs)
  case Nil
  then show ?case by simp
next
  case (Cons x xs)
  then have "unat (\<Sum>x\<leftarrow>xs. f x) = (\<Sum>x\<leftarrow>xs. unat (f x))"
    by simp
  with Cons.prems show ?case
    by (simp add: unat_word_ariths)
qed

section \<open>Lists and maps\<close>

lemma distinct_concat_member:
  "distinct (concat xss) \<Longrightarrow> xs \<in> set xss \<Longrightarrow> distinct xs"
  by (induction xss) auto

lemma map_of_in_set_unique:
  "distinct (map fst m) \<Longrightarrow> ((k, v) \<in> set m) = (map_of m k = Some v)"
  by (simp add: map_of_eq_Some_iff)

lemma finite_map_entries:
  assumes "finite (dom m)"
  shows "\<exists>es. distinct (map fst es) \<and> map_of es = m"
proof -
  obtain ks where ks: "set ks = dom m" "distinct ks" using finite_distinct_list [OF assms] by blast
  let ?es = "map (\<lambda>k. (k, the (m k))) ks"
  have "map_of ?es = m"
    by (rule ext) (auto simp: map_of_map_restrict restrict_map_def ks(1) domIff)
  moreover have "distinct (map fst ?es)" using ks(2) by (simp add: comp_def)
  ultimately show ?thesis by blast
qed

end
