(* ===== verification/Order_Object.thy ===== *)
theory Order_Object
  imports Exchange_Prelude
begin

text \<open>
  The enumerations of \<^verbatim>\<open>include/define.h\<close> and the class \<open>Order\<close> of \<^verbatim>\<open>include/Order.h\<close>.
  The record's selectors carry the names of the class's getters; a setter is the record update
  of that field. An \<open>OrderPointer\<close> (a \<^verbatim>\<open>std::shared_ptr\<close>) is an address: the objects
  themselves live in a store from addresses to orders, so that the order book and its caller see
  each other's writes.
\<close>

section \<open>Enumerations\<close>

datatype BuySell = BuySell_DEFAULT | BUY | SELL

datatype OrderType = OrderType_DEFAULT | LIMIT | IOC | MARKET | STOPLOSS

datatype OrderStatus = OrderStatus_DEFAULT | NEW | MODIFY | TRADED | CANCELLED

datatype TradeType = TradeType_DEFAULT | PARTIAL | FULL

text \<open>The underlying integers, as \<open>static_cast<uint8_t>\<close> yields them.\<close>

primrec BuySell_code :: "BuySell \<Rightarrow> 8 word" where
  "BuySell_code BuySell_DEFAULT = 0"
| "BuySell_code BUY = 1"
| "BuySell_code SELL = 2"

primrec OrderType_code :: "OrderType \<Rightarrow> 8 word" where
  "OrderType_code OrderType_DEFAULT = 0"
| "OrderType_code LIMIT = 1"
| "OrderType_code IOC = 2"
| "OrderType_code MARKET = 3"
| "OrderType_code STOPLOSS = 4"

primrec OrderStatus_code :: "OrderStatus \<Rightarrow> 8 word" where
  "OrderStatus_code OrderStatus_DEFAULT = 0"
| "OrderStatus_code NEW = 1"
| "OrderStatus_code MODIFY = 2"
| "OrderStatus_code TRADED = 3"
| "OrderStatus_code CANCELLED = 4"

section \<open>The class Order\<close>

record Order =
  getPrice :: Price
  getQuantity :: Quantity
  getTimestamp :: Timestamp
  getOrderId :: OrderId
  getOrderType :: OrderType
  getBuySell :: BuySell
  getOrderStatus :: OrderStatus
  getSessionId :: SessionId
  getClientOrderId :: ClientOrderId

type_synonym OrderPointer = nat

type_synonym Store = "OrderPointer \<rightharpoonup> Order"

definition setPrice :: "Price \<Rightarrow> Order \<Rightarrow> Order" where
  "setPrice price ord = ord\<lparr>getPrice := price\<rparr>"

definition setQuantity :: "Quantity \<Rightarrow> Order \<Rightarrow> Order" where
  "setQuantity quantity ord = ord\<lparr>getQuantity := quantity\<rparr>"

definition setOrderStatus :: "OrderStatus \<Rightarrow> Order \<Rightarrow> Order" where
  "setOrderStatus status ord = ord\<lparr>getOrderStatus := status\<rparr>"

definition setSessionId :: "SessionId \<Rightarrow> Order \<Rightarrow> Order" where
  "setSessionId sessionId ord = ord\<lparr>getSessionId := sessionId\<rparr>"

definition setClientOrderId :: "ClientOrderId \<Rightarrow> Order \<Rightarrow> Order" where
  "setClientOrderId clientOrderId ord = ord\<lparr>getClientOrderId := clientOrderId\<rparr>"

definition increaseQuantity :: "Quantity \<Rightarrow> Order \<Rightarrow> Order" where
  "increaseQuantity quantity ord = ord\<lparr>getQuantity := getQuantity ord + quantity\<rparr>"

text \<open>\<open>reduceQuantity\<close> returns the amount taken off and the order it leaves.\<close>

definition reduceQuantity :: "Quantity \<Rightarrow> Order \<Rightarrow> Quantity \<times> Order" where
  "reduceQuantity delta ord =
     (let executed = min (getQuantity ord) delta
      in (executed, ord\<lparr>getQuantity := getQuantity ord - executed\<rparr>))"

definition isFilled :: "Order \<Rightarrow> bool" where
  "isFilled ord \<longleftrightarrow> getQuantity ord = 0"

text \<open>The anonymous-namespace helper \<open>isAggressiveOrder\<close> of \<^verbatim>\<open>src/Orderbook.cpp\<close>.\<close>

definition isAggressiveOrder :: "Order \<Rightarrow> bool" where
  "isAggressiveOrder ord \<longleftrightarrow> getOrderType ord = MARKET \<or> getOrderType ord = IOC"

lemmas order_defs = setPrice_def setQuantity_def setOrderStatus_def increaseQuantity_def
  reduceQuantity_def isFilled_def isAggressiveOrder_def

section \<open>Orders that differ only in quantity and status\<close>

text \<open>
  Matching writes only the quantity and the status of a resting order: everything that decides
  its place in the book (identity, price, side, type) stays.
\<close>

definition same_terms :: "Order \<Rightarrow> Order \<Rightarrow> bool" where
  "same_terms a b \<longleftrightarrow>
     getOrderId a = getOrderId b \<and> getPrice a = getPrice b \<and> getBuySell a = getBuySell b \<and>
     getOrderType a = getOrderType b \<and> getSessionId a = getSessionId b \<and>
     getClientOrderId a = getClientOrderId b \<and> getTimestamp a = getTimestamp b"

lemma same_terms_refl [simp, intro]: "same_terms a a"
  by (simp add: same_terms_def)

lemma same_terms_trans [trans]: "same_terms a b \<Longrightarrow> same_terms b c \<Longrightarrow> same_terms a c"
  by (simp add: same_terms_def)

lemma reduceQuantity_takes [word_nat]:
  "unat (fst (reduceQuantity delta ord)) = min (unat (getQuantity ord)) (unat delta)"
  "unat (getQuantity (snd (reduceQuantity delta ord))) = unat (getQuantity ord) - unat delta"
  by (simp_all add: reduceQuantity_def Let_def unat_min_word unat_sub_min)

end
