(* ===== verification/Price_Levels.thy ===== *)
theory Price_Levels
  imports Exchange_Prelude
begin

text \<open>
  The ordered maps of the order book: \<open>BidBook\<close> and \<open>AskBook\<close> of
  \<^verbatim>\<open>include/Orderbook.h\<close> are \<^verbatim>\<open>std::map<Price, OrderPointers, Compare>\<close> with
  \<^verbatim>\<open>std::greater\<close> and \<^verbatim>\<open>std::less\<close>. A map is the list of its (key, value) pairs in
  iteration order, so that \<open>begin()\<close> is the head. The operations take the comparator, and the
  locale \<open>price_order\<close> is what they need of it; it is interpreted for both comparators.
\<close>

section \<open>Ordered maps\<close>

type_synonym 'v price_map = "(Price \<times> 'v) list"

definition std_greater :: "Price \<Rightarrow> Price \<Rightarrow> bool" where
  "std_greater a b \<longleftrightarrow> sint b < sint a"

definition std_less :: "Price \<Rightarrow> Price \<Rightarrow> bool" where
  "std_less a b \<longleftrightarrow> sint a < sint b"

fun try_emplace :: "(Price \<Rightarrow> Price \<Rightarrow> bool) \<Rightarrow> Price \<Rightarrow> 'v \<Rightarrow> 'v price_map \<Rightarrow> 'v price_map" where
  "try_emplace cmp k d [] = [(k, d)]"
| "try_emplace cmp k d ((k', v) # m) =
     (if cmp k k' then (k, d) # (k', v) # m
      else if cmp k' k then (k', v) # try_emplace cmp k d m
      else (k', v) # m)"

fun modify_at :: "Price \<Rightarrow> ('v \<Rightarrow> 'v) \<Rightarrow> 'v price_map \<Rightarrow> 'v price_map" where
  "modify_at k f [] = []"
| "modify_at k f ((k', v) # m) = (if k' = k then (k', f v) # m else (k', v) # modify_at k f m)"

fun erase_at :: "Price \<Rightarrow> 'v price_map \<Rightarrow> 'v price_map" where
  "erase_at k [] = []"
| "erase_at k ((k', v) # m) = (if k' = k then m else (k', v) # erase_at k m)"

text \<open>\<^verbatim>\<open>try_emplace(price)\<close> followed by \<open>push_back\<close> on the level it returns.\<close>

definition push_back_at ::
  "(Price \<Rightarrow> Price \<Rightarrow> bool) \<Rightarrow> Price \<Rightarrow> 'x \<Rightarrow> 'x list price_map \<Rightarrow> 'x list price_map" where
  "push_back_at cmp price x m = modify_at price (\<lambda>xs. xs @ [x]) (try_emplace cmp price [] m)"

section \<open>Views of a book side\<close>

text \<open>The elements of all levels in matching order, each with the price of its level.\<close>

definition queue_of :: "'x list price_map \<Rightarrow> (Price \<times> 'x) list" where
  "queue_of m = concat (map (\<lambda>(p, xs). map (Pair p) xs) m)"

lemma queue_of_simps [simp]:
  "queue_of [] = []"
  "queue_of ((p, xs) # m) = map (Pair p) xs @ queue_of m"
  by (simp_all add: queue_of_def)

lemma in_queue_of: "(p, x) \<in> set (queue_of m) \<longleftrightarrow> (\<exists>xs. (p, xs) \<in> set m \<and> x \<in> set xs)"
  by (auto simp: queue_of_def)

lemma queue_of_keys: "e \<in> set (queue_of m) \<Longrightarrow> fst e \<in> fst ` set m"
  by (force simp: queue_of_def)

lemma queue_of_all_keys: "\<forall>l\<in>set m. P (fst l) \<Longrightarrow> \<forall>e\<in>set (queue_of m). P (fst e)"
  by (force simp: queue_of_def)

definition sorted_keys :: "(Price \<Rightarrow> Price \<Rightarrow> bool) \<Rightarrow> 'v price_map \<Rightarrow> bool" where
  "sorted_keys cmp m \<longleftrightarrow> sorted_wrt cmp (map fst m)"

definition no_empty_level :: "'x list price_map \<Rightarrow> bool" where
  "no_empty_level m \<longleftrightarrow> (\<forall>l\<in>set m. snd l \<noteq> [])"

lemma sorted_keys_simps [simp]:
  "sorted_keys cmp []"
  "sorted_keys cmp ((p, v) # m) \<longleftrightarrow> (\<forall>l\<in>set m. cmp p (fst l)) \<and> sorted_keys cmp m"
  by (auto simp: sorted_keys_def)

lemma no_empty_level_simps [simp]:
  "no_empty_level []"
  "no_empty_level ((p, xs) # m) \<longleftrightarrow> xs \<noteq> [] \<and> no_empty_level m"
  by (auto simp: no_empty_level_def)

lemma queue_of_Nil_iff: "no_empty_level m \<Longrightarrow> queue_of m = [] \<longleftrightarrow> m = []"
  by (cases m) (auto simp: queue_of_def)

text \<open>
  The place that price-time priority gives a newcomer: behind everything that is at least as
  good, in front of everything strictly worse.
\<close>

definition insert_behind ::
  "(Price \<Rightarrow> Price \<Rightarrow> bool) \<Rightarrow> ('e \<Rightarrow> Price) \<Rightarrow> 'e \<Rightarrow> 'e list \<Rightarrow> 'e list" where
  "insert_behind cmp pr e es =
     takeWhile (\<lambda>e'. \<not> cmp (pr e) (pr e')) es @ e # dropWhile (\<lambda>e'. \<not> cmp (pr e) (pr e')) es"

lemma set_insert_behind [simp]: "set (insert_behind cmp pr e es) = insert e (set es)"
  unfolding insert_behind_def by (induction es) auto

lemma insert_behind_append:
  "\<forall>e'\<in>set es. \<not> cmp (pr e) (pr e') \<Longrightarrow>
   insert_behind cmp pr e (es @ fs) = es @ insert_behind cmp pr e fs"
  by (simp add: insert_behind_def takeWhile_append dropWhile_append)

lemma insert_behind_Cons_better:
  "cmp (pr e) (pr e') \<Longrightarrow> insert_behind cmp pr e (e' # es) = e # e' # es"
  by (simp add: insert_behind_def)

lemma insert_behind_all_worse:
  "\<forall>e'\<in>set es. cmp (pr e) (pr e') \<Longrightarrow> insert_behind cmp pr e es = e # es"
  by (cases es) (simp_all add: insert_behind_def)

lemma map_insert_behind:
  "(\<And>x. x \<in> insert e (set es) \<Longrightarrow> pr' (f x) = pr x) \<Longrightarrow>
   map f (insert_behind cmp pr e es) = insert_behind cmp pr' (f e) (map f es)"
  unfolding insert_behind_def by (induction es) auto

lemma distinct_insert_behind:
  "distinct (map f (insert_behind cmp pr e es)) \<longleftrightarrow> f e \<notin> f ` set es \<and> distinct (map f es)"
proof -
  let ?P = "\<lambda>e'. \<not> cmp (pr e) (pr e')"
  have es: "map f es = map f (takeWhile ?P es) @ map f (dropWhile ?P es)"
    by (simp flip: map_append)
  then have "f ` set es = set (map f (takeWhile ?P es)) \<union> set (map f (dropWhile ?P es))"
    by (metis list.set_map set_append)
  moreover from es have
    "distinct (map f es) = distinct (map f (takeWhile ?P es) @ map f (dropWhile ?P es))"
    by (rule arg_cong)
  ultimately show ?thesis
    by (auto simp: insert_behind_def)
qed

section \<open>What the books need of their comparator\<close>

locale price_order =
  fixes cmp :: "Price \<Rightarrow> Price \<Rightarrow> bool"
  assumes irrefl: "\<not> cmp a a"
    and trans: "cmp a b \<Longrightarrow> cmp b c \<Longrightarrow> cmp a c"
    and total: "a \<noteq> b \<Longrightarrow> cmp a b \<or> cmp b a"
begin

lemma asym: "cmp a b \<Longrightarrow> \<not> cmp b a"
  using irrefl trans by blast

lemma sorted_distinct: "sorted_keys cmp m \<Longrightarrow> distinct (map fst m)"
  by (induction m) (force simp: irrefl)+

lemma push_back_at_simps:
  "push_back_at cmp p x [] = [(p, [x])]"
  "push_back_at cmp p x ((q, xs) # m) =
     (if cmp p q then (p, [x]) # (q, xs) # m
      else if cmp q p then (q, xs) # push_back_at cmp p x m
      else (q, xs @ [x]) # m)"
  using total [of p q] by (auto simp: push_back_at_def irrefl)

lemma set_push_back_at:
  "fst ` set (push_back_at cmp p x m) = insert p (fst ` set m)"
proof (induction m)
  case (Cons l m)
  then show ?case
    using total [of p "fst l"] by (cases l) (auto simp: push_back_at_simps)
qed (simp add: push_back_at_simps)

lemma sorted_push_back_at:
  "sorted_keys cmp m \<Longrightarrow> sorted_keys cmp (push_back_at cmp p x m)"
proof (induction m)
  case (Cons l m)
  obtain q xs where l: "l = (q, xs)" by force
  have keys: "\<forall>k\<in>fst ` set (push_back_at cmp p x m). cmp q k" if "cmp q p"
    using Cons.prems that by (auto simp: l set_push_back_at)
  with Cons show ?case
    using total [of p q] by (auto simp: l push_back_at_simps intro: trans)
qed (simp add: push_back_at_simps)

lemma no_empty_push_back_at:
  "no_empty_level m \<Longrightarrow> no_empty_level (push_back_at cmp p x m)"
proof (induction m)
  case (Cons l m)
  then show ?case by (cases l) (auto simp: push_back_at_simps)
qed (simp add: push_back_at_simps)

text \<open>Booking an order puts it where price-time priority says.\<close>

lemma queue_of_push_back_at:
  "sorted_keys cmp m \<Longrightarrow>
   queue_of (push_back_at cmp p x m) = insert_behind cmp fst (p, x) (queue_of m)"
proof (induction m)
  case Nil
  then show ?case by (simp add: push_back_at_simps insert_behind_def)
next
  case (Cons l m)
  obtain q xs where l: "l = (q, xs)" by force
  have worse: "\<forall>e\<in>set (queue_of m). cmp q (fst e)"
    using Cons.prems by (intro queue_of_all_keys) (simp add: l)
  consider "cmp p q" | "cmp q p" | "p = q" using total by blast
  then show ?case
  proof cases
    case 1
    with worse have "\<forall>e\<in>set (queue_of (l # m)). cmp p (fst e)"
      by (auto simp: l intro: trans)
    with 1 show ?thesis
      by (simp add: l push_back_at_simps insert_behind_all_worse)
  next
    case 2
    then have "\<not> cmp p q" by (rule asym)
    with 2 Cons show ?thesis
      by (simp add: l push_back_at_simps insert_behind_append)
  next
    case 3
    with worse show ?thesis
      by (simp add: l push_back_at_simps irrefl insert_behind_append insert_behind_all_worse)
  qed
qed

text \<open>In a sorted side the queue runs from the best price to the worst.\<close>

lemma sorted_queue_of:
  "sorted_keys cmp m \<Longrightarrow> sorted_wrt (\<lambda>e f. \<not> cmp (fst f) (fst e)) (queue_of m)"
proof (induction m)
  case (Cons l m)
  obtain q xs where l: "l = (q, xs)" by force
  have "\<forall>e\<in>set (queue_of m). \<not> cmp (fst e) q"
    using Cons.prems by (intro queue_of_all_keys) (auto simp: l dest: asym)
  moreover have "sorted_wrt (\<lambda>e f. \<not> cmp (fst f) (fst e)) (map (Pair q) xs)"
    by (simp add: sorted_wrt_map irrefl)
  ultimately show ?case
    using Cons by (auto simp: l sorted_wrt_append)
qed simp

end

interpretation bid: price_order std_greater
  by unfold_locales (auto simp: std_greater_def linorder_neq_iff [symmetric])

interpretation ask: price_order std_less
  by unfold_locales (auto simp: std_less_def linorder_neq_iff [symmetric])

section \<open>Erasing and modifying a level\<close>

lemma set_erase_at_subset: "set (erase_at k m) \<subseteq> set m"
  by (induction k m rule: erase_at.induct) auto

lemma sorted_erase_at: "sorted_keys cmp m \<Longrightarrow> sorted_keys cmp (erase_at k m)"
  by (induction k m rule: erase_at.induct) (use set_erase_at_subset in fastforce)+

lemma no_empty_erase_at: "no_empty_level m \<Longrightarrow> no_empty_level (erase_at k m)"
  by (induction k m rule: erase_at.induct) auto

lemma fst_set_modify_at [simp]: "fst ` set (modify_at k f m) = fst ` set m"
  by (induction k f m rule: modify_at.induct) auto

lemma map_fst_modify_at [simp]: "map fst (modify_at k f m) = map fst m"
  by (induction k f m rule: modify_at.induct) auto

lemma sorted_modify_at [simp]: "sorted_keys cmp (modify_at k f m) = sorted_keys cmp m"
  by (simp add: sorted_keys_def)

end
