(* ===== verification/Orderbook_Model.thy ===== *)
theory Orderbook_Model
  imports Order_Object Price_Levels
begin

text \<open>
  The class \<open>Orderbook\<close> of \<^verbatim>\<open>include/Orderbook.h\<close> and \<^verbatim>\<open>src/Orderbook.cpp\<close>, operation
  by operation. The state record holds the class's members and the store of the \<open>Order\<close>
  objects that its pointers lead to. A null pointer is an address the store does not map.

  \<^item> \<open>execute_against\<close> is one round of the inner loop of \<open>addToBook\<close>, \<open>match_level\<close> that
    loop over one price level, \<open>match_against\<close> the lambda \<open>matchAgainst\<close> over the contra
    book, \<open>match_order\<close> the choice of that side, \<open>book_order\<close> the part that lets the rest of
    a limit order rest; \<open>addToBook\<close> is the whole function.
  \<^item> \<open>release_level\<close> is what \<open>ModifyOrder\<close> and \<open>CancelOrder\<close> both do first: take the order's
    quantity out of the level data of its price.
\<close>

section \<open>State\<close>

record LevelData =
  ld_price :: Price
  totalQuantity :: Quantity
  numberOfOrders :: size_t

record Trade =
  tr_timestamp :: Timestamp
  buyOrderId :: OrderId
  sellOrderId :: OrderId
  tr_price :: Price
  tr_quantity :: Quantity
  tradeType :: TradeType

type_synonym BidBook = "OrderPointer list price_map"
type_synonym AskBook = "OrderPointer list price_map"

record Orderbook =
  store :: Store
  price_to_leveldata :: "Price \<rightharpoonup> LevelData"
  orders :: "OrderId \<rightharpoonup> OrderPointer"
  bids :: BidBook
  asks :: AskBook
  trades :: "Trade list"

definition empty_orderbook :: Orderbook where
  "empty_orderbook =
     \<lparr>store = Map.empty, price_to_leveldata = Map.empty, orders = Map.empty,
      bids = [], asks = [], trades = []\<rparr>"

text \<open>Reading and writing through a pointer.\<close>

definition obj :: "Orderbook \<Rightarrow> OrderPointer \<Rightarrow> Order" where
  "obj b x = the (store b x)"

definition update_obj :: "OrderPointer \<Rightarrow> (Order \<Rightarrow> Order) \<Rightarrow> Orderbook \<Rightarrow> Orderbook" where
  "update_obj x f b = b\<lparr>store := (store b)(x \<mapsto> f (obj b x))\<rparr>"

section \<open>Level data and the order index\<close>

definition updateLevelOnAdd :: "Price \<Rightarrow> Quantity \<Rightarrow> Orderbook \<Rightarrow> Orderbook" where
  "updateLevelOnAdd price qty b =
     (if qty = 0 then b
      else
        let data = (case price_to_leveldata b price of
                      None \<Rightarrow> \<lparr>ld_price = 0, totalQuantity = 0, numberOfOrders = 0\<rparr>
                    | Some d \<Rightarrow> d)
        in b\<lparr>price_to_leveldata := (price_to_leveldata b)(price \<mapsto>
               \<lparr>ld_price = price, totalQuantity = totalQuantity data + qty,
                numberOfOrders = numberOfOrders data + 1\<rparr>)\<rparr>)"

definition updateLevelOnFill :: "Price \<Rightarrow> Quantity \<Rightarrow> bool \<Rightarrow> Orderbook \<Rightarrow> Orderbook" where
  "updateLevelOnFill price qty orderClosed b =
     (if qty = 0 then b
      else case price_to_leveldata b price of
        None \<Rightarrow> b
      | Some d \<Rightarrow>
          let total = (if totalQuantity d \<le> qty then 0 else totalQuantity d - qty);
              count = (if orderClosed \<and> numberOfOrders d > 0
                       then numberOfOrders d - 1 else numberOfOrders d)
          in if total = 0 \<or> count = 0
             then b\<lparr>price_to_leveldata := (price_to_leveldata b)(price := None)\<rparr>
             else b\<lparr>price_to_leveldata := (price_to_leveldata b)(price \<mapsto>
                      d\<lparr>totalQuantity := total, numberOfOrders := count\<rparr>)\<rparr>)"

definition clearOrderRecord :: "OrderId \<Rightarrow> Orderbook \<Rightarrow> Orderbook" where
  "clearOrderRecord oid b = b\<lparr>orders := (orders b)(oid := None)\<rparr>"

text \<open>The lambda \<open>eraseFromBook\<close>: the first order of the level with the same id.\<close>

fun erase_first_id :: "Orderbook \<Rightarrow> OrderId \<Rightarrow> OrderPointer list \<Rightarrow> OrderPointer list" where
  "erase_first_id b oid [] = []"
| "erase_first_id b oid (y # ys) =
     (if getOrderId (obj b y) = oid then ys else y # erase_first_id b oid ys)"

definition eraseFromBook ::
  "Orderbook \<Rightarrow> Order \<Rightarrow> OrderPointer list price_map \<Rightarrow> OrderPointer list price_map" where
  "eraseFromBook b ord book =
     (case map_of book (getPrice ord) of
        None \<Rightarrow> book
      | Some levelOrders \<Rightarrow>
          let levelOrders' = erase_first_id b (getOrderId ord) levelOrders
          in if levelOrders' = [] then erase_at (getPrice ord) book
             else modify_at (getPrice ord) (\<lambda>_. levelOrders') book)"

definition removeOrderFromBook :: "OrderPointer \<Rightarrow> Orderbook \<Rightarrow> Orderbook" where
  "removeOrderFromBook x b =
     (case store b x of
        None \<Rightarrow> b
      | Some ord \<Rightarrow>
          if getBuySell ord = BUY then b\<lparr>bids := eraseFromBook b ord (bids b)\<rparr>
          else b\<lparr>asks := eraseFromBook b ord (asks b)\<rparr>)"

text \<open>What each primitive write leaves alone.\<close>

lemma obj_update_obj [frame_simps]:
  "obj (update_obj x f b) y = (if y = x then f (obj b x) else obj b y)"
  by (simp add: obj_def update_obj_def)

lemma update_obj_frame [frame_simps]:
  "price_to_leveldata (update_obj x f b) = price_to_leveldata b"
  "orders (update_obj x f b) = orders b"
  "bids (update_obj x f b) = bids b"
  "asks (update_obj x f b) = asks b"
  "trades (update_obj x f b) = trades b"
  "store (update_obj x f b) = (store b)(x \<mapsto> f (obj b x))"
  by (simp_all add: update_obj_def)

lemma updateLevelOnFill_frame [frame_simps]:
  "store (updateLevelOnFill p q c b) = store b"
  "orders (updateLevelOnFill p q c b) = orders b"
  "bids (updateLevelOnFill p q c b) = bids b"
  "asks (updateLevelOnFill p q c b) = asks b"
  "trades (updateLevelOnFill p q c b) = trades b"
  "obj (updateLevelOnFill p q c b) = obj b"
  by (auto simp: updateLevelOnFill_def obj_def Let_def split: option.split)

lemma updateLevelOnAdd_frame [frame_simps]:
  "store (updateLevelOnAdd p q b) = store b"
  "orders (updateLevelOnAdd p q b) = orders b"
  "bids (updateLevelOnAdd p q b) = bids b"
  "asks (updateLevelOnAdd p q b) = asks b"
  "trades (updateLevelOnAdd p q b) = trades b"
  "obj (updateLevelOnAdd p q b) = obj b"
  by (auto simp: updateLevelOnAdd_def obj_def Let_def split: option.split)

lemma clearOrderRecord_frame [frame_simps]:
  "store (clearOrderRecord i b) = store b"
  "orders (clearOrderRecord i b) = (orders b)(i := None)"
  "price_to_leveldata (clearOrderRecord i b) = price_to_leveldata b"
  "bids (clearOrderRecord i b) = bids b"
  "asks (clearOrderRecord i b) = asks b"
  "trades (clearOrderRecord i b) = trades b"
  "obj (clearOrderRecord i b) = obj b"
  by (auto simp: clearOrderRecord_def obj_def)

lemma obj_field_update [frame_simps]:
  "obj (b\<lparr>trades := t\<rparr>) = obj b"
  "obj (b\<lparr>bids := m\<rparr>) = obj b"
  "obj (b\<lparr>asks := m\<rparr>) = obj b"
  "obj (b\<lparr>orders := os\<rparr>) = obj b"
  by (auto simp: obj_def)

section \<open>Matching\<close>

definition priceCrossed :: "Price \<Rightarrow> Price \<Rightarrow> BuySell \<Rightarrow> OrderType \<Rightarrow> bool" where
  "priceCrossed incomingPrice restingPrice side type =
     (if type = MARKET \<or> type = IOC then True
      else if side = BUY then sint restingPrice \<le> sint incomingPrice
      else if side = SELL then sint incomingPrice \<le> sint restingPrice
      else False)"

text \<open>
  One round of the inner loop: the incoming order \<open>ord\<close>, of which \<open>remaining\<close> is left,
  against the resting order at \<open>x\<close>. The result says what is left, whether the resting order is
  closed, and the new state; taking a closed order off its level is left to the loop.
\<close>

definition execute_against ::
  "Order \<Rightarrow> Price \<Rightarrow> OrderPointer \<Rightarrow> Quantity \<Rightarrow> Orderbook \<Rightarrow> Quantity \<times> bool \<times> Orderbook" where
  "execute_against ord restingPrice x remaining b =
     (let side = getBuySell ord;
          executed = min remaining (getQuantity (obj b x));
          remaining' = remaining - executed;
          b1 = update_obj x (\<lambda>r. snd (reduceQuantity executed r)) b;
          restingClosed = isFilled (obj b1 x);
          b2 = updateLevelOnFill restingPrice executed restingClosed b1;
          restingId = getOrderId (obj b2 x);
          trade = \<lparr>tr_timestamp = 0,
                   buyOrderId = (if side = BUY then getOrderId ord else restingId),
                   sellOrderId = (if side = SELL then getOrderId ord else restingId),
                   tr_price = restingPrice,
                   tr_quantity = executed,
                   tradeType = (if restingClosed \<and> remaining' = 0 then FULL else PARTIAL)\<rparr>;
          b3 = b2\<lparr>trades := trades b2 @ [trade]\<rparr>
      in if restingClosed
         then (remaining', True, clearOrderRecord restingId (update_obj x (setOrderStatus TRADED) b3))
         else (remaining', False, update_obj x (setOrderStatus MODIFY) b3))"

fun match_level ::
  "Order \<Rightarrow> Price \<Rightarrow> OrderPointer list \<Rightarrow> Quantity \<Rightarrow> Orderbook \<Rightarrow>
   OrderPointer list \<times> Quantity \<times> Orderbook" where
  "match_level ord restingPrice [] remaining b = ([], remaining, b)"
| "match_level ord restingPrice (x # xs) remaining b =
     (if remaining = 0 then (x # xs, remaining, b)
      else case execute_against ord restingPrice x remaining b of
        (remaining', restingClosed, b') \<Rightarrow>
          if restingClosed then match_level ord restingPrice xs remaining' b'
          else (case match_level ord restingPrice xs remaining' b' of
                  (ys, r, b'') \<Rightarrow> (x # ys, r, b'')))"

text \<open>
  Each round of the outer loop looks at \<open>begin()\<close> of the contra book. It ends because a round
  either empties the level or uses quantity up.
\<close>

lemma closes_iff:
  "q = min r q \<longleftrightarrow> q \<le> r" "min q (min r q) = min r q" for q r :: "'a::linorder"
  by (auto simp: min_def)

lemma execute_against_result:
  assumes "execute_against ord p x r b = (r', c, b')"
  defines "q \<equiv> getQuantity (obj b x)"
  shows execute_against_remaining: "r' = r - min r q" "c \<longleftrightarrow> q \<le> r"
    and execute_against_frame: "bids b' = bids b" "asks b' = asks b"
    and execute_against_orders:
      "orders b' = (if c then (orders b)(getOrderId (obj b x) := None) else orders b)"
    and execute_against_store:
      "store b' = (store b)(x \<mapsto> (obj b x)
         \<lparr>getQuantity := q - min r q, getOrderStatus := (if c then TRADED else MODIFY)\<rparr>)"
    and execute_against_trades:
      "trades b' = trades b @
         [\<lparr>tr_timestamp = 0,
           buyOrderId = (if getBuySell ord = BUY then getOrderId ord else getOrderId (obj b x)),
           sellOrderId = (if getBuySell ord = SELL then getOrderId ord else getOrderId (obj b x)),
           tr_price = p, tr_quantity = min r q,
           tradeType = (if c \<and> r' = 0 then FULL else PARTIAL)\<rparr>]"
  using assms(1) unfolding q_def
  by (auto simp: execute_against_def Let_def isFilled_def reduceQuantity_def setOrderStatus_def
      frame_simps closes_iff split: if_splits)

lemma execute_against_open_uses_up:
  "execute_against ord p x r b = (r', False, b') \<Longrightarrow> r' = 0"
  by (frule execute_against_remaining(1), drule execute_against_remaining(2)) (auto simp: min_def)

lemma match_level_progress:
  "match_level ord p xs r b = (ys, r', b') \<Longrightarrow> r \<noteq> 0 \<Longrightarrow> xs \<noteq> [] \<Longrightarrow>
   length ys \<le> length xs \<and> unat r' \<le> unat r \<and> (length ys < length xs \<or> unat r' < unat r)"
proof (induction ord p xs r b arbitrary: ys r' b' rule: match_level.induct)
  case (2 ord p x xs r b)
  obtain r1 c b1 where ex: "execute_against ord p x r b = (r1, c, b1)"
    using prod_cases3 by blast
  have r1: "unat r1 \<le> unat r" and open_0: "\<not> c \<Longrightarrow> r1 = 0"
    using execute_against_remaining [OF ex] execute_against_open_uses_up ex
    by (auto simp: unat_sub_min)
  show ?case
  proof (cases "c \<and> r1 \<noteq> 0 \<and> xs \<noteq> []")
    case True
    with 2 ex r1 show ?thesis by fastforce
  next
    case False
    then consider "\<not> c" | "c" "r1 = 0" | "c" "xs = []" by blast
    moreover have "match_level ord p xs 0 b1 = (xs, 0, b1)"
      by (cases xs) simp_all
    ultimately show ?thesis
      using 2 ex r1 open_0 by cases (auto simp: word_less_nat_alt unat_gt_0)
  qed
qed simp

function match_against ::
  "Order \<Rightarrow> OrderPointer list price_map \<Rightarrow> Quantity \<Rightarrow> Orderbook \<Rightarrow>
   OrderPointer list price_map \<times> Quantity \<times> Orderbook" where
  "match_against ord [] remaining b = ([], remaining, b)"
| "match_against ord ((restingPrice, levelOrders) # levels) remaining b =
     (if remaining = 0 \<or>
         \<not> priceCrossed (getPrice ord) restingPrice (getBuySell ord) (getOrderType ord)
      then ((restingPrice, levelOrders) # levels, remaining, b)
      else case match_level ord restingPrice levelOrders remaining b of
        (levelOrders', remaining', b') \<Rightarrow>
          if levelOrders' = [] then match_against ord levels remaining' b'
          else match_against ord ((restingPrice, levelOrders') # levels) remaining' b')"
  by pat_completeness auto
termination
proof (relation "measures [\<lambda>(ord, m, r, b). length m,
                           \<lambda>(ord, m, r, b). length (snd (hd m)) + unat r]")
  fix ord p xs m r b ys rest r' b'
  assume go: "\<not> (r = 0 \<or> \<not> priceCrossed (getPrice ord) p (getBuySell ord) (getOrderType ord))"
    and eq: "(ys, rest) = match_level ord p xs r b" "(r', b') = rest" and ys: "ys \<noteq> []"
  from eq have ml: "match_level ord p xs r b = (ys, r', b')" by simp
  with ys have "xs \<noteq> []" by auto
  with match_level_progress [OF ml] go have "length ys + unat r' < length xs + unat r" by auto
  then show "((ord, (p, ys) # m, r', b'), ord, (p, xs) # m, r, b) \<in> measures
      [\<lambda>(ord, m, r, b). length m, \<lambda>(ord, m, r, b). length (snd (hd m)) + unat r]"
    by simp
qed simp_all

section \<open>addToBook and the public operations\<close>

text \<open>The matching half of \<open>addToBook\<close>: the contra side is matched and written back.\<close>

definition match_order :: "Order \<Rightarrow> Orderbook \<Rightarrow> Quantity \<times> Orderbook" where
  "match_order ord b =
     (if getBuySell ord = BUY
      then (case match_against ord (asks b) (getQuantity ord) b of
              (levels, remaining, b') \<Rightarrow> (remaining, b'\<lparr>asks := levels\<rparr>))
      else if getBuySell ord = SELL
      then (case match_against ord (bids b) (getQuantity ord) b of
              (levels, remaining, b') \<Rightarrow> (remaining, b'\<lparr>bids := levels\<rparr>))
      else (getQuantity ord, b))"

text \<open>The booking half: the order at \<open>x\<close> goes behind its level and into the index.\<close>

definition book_order :: "OrderPointer \<Rightarrow> Orderbook \<Rightarrow> Orderbook" where
  "book_order x b =
     (let ord = obj b x;
          b1 = (if getBuySell ord = BUY
                then b\<lparr>bids := push_back_at std_greater (getPrice ord) x (bids b)\<rparr>
                else b\<lparr>asks := push_back_at std_less (getPrice ord) x (asks b)\<rparr>);
          b2 = updateLevelOnAdd (getPrice ord) (getQuantity ord) b1
      in b2\<lparr>orders := (orders b2)(getOrderId ord \<mapsto> x)\<rparr>)"

definition addToBook :: "OrderPointer \<Rightarrow> Orderbook \<Rightarrow> Orderbook" where
  "addToBook x b0 =
     (let b = b0\<lparr>trades := []\<rparr> in
      case store b x of
        None \<Rightarrow> b
      | Some ord \<Rightarrow>
          let originalQuantity = getQuantity ord;
              (remaining, b1) = match_order ord b;
              b2 = update_obj x (setQuantity remaining) b1
          in if remaining = 0 \<and> originalQuantity > 0
             then clearOrderRecord (getOrderId ord) (update_obj x (setOrderStatus TRADED) b2)
             else if isAggressiveOrder (obj b2 x)
             then update_obj x (setQuantity 0) (update_obj x (setOrderStatus CANCELLED) b2)
             else
               let b3 = (if remaining < originalQuantity
                         then update_obj x (setOrderStatus MODIFY) b2
                         else if getOrderStatus (obj b2 x) \<noteq> MODIFY
                         then update_obj x (setOrderStatus NEW) b2
                         else b2)
               in if getQuantity (obj b3 x) > 0 then book_order x b3 else b3)"

definition AddOrder :: "OrderPointer \<Rightarrow> Orderbook \<Rightarrow> Orderbook" where
  "AddOrder x b = addToBook x b"

definition release_level :: "Order \<Rightarrow> Orderbook \<Rightarrow> Orderbook" where
  "release_level ord b =
     (if getQuantity ord > 0 then updateLevelOnFill (getPrice ord) (getQuantity ord) True b else b)"

definition ModifyOrder :: "OrderId \<Rightarrow> Price \<Rightarrow> Quantity \<Rightarrow> Orderbook \<Rightarrow> Orderbook" where
  "ModifyOrder orderId newPrice newQuantity b =
     (case orders b orderId of
        None \<Rightarrow> b
      | Some x \<Rightarrow>
          (case store b x of
             None \<Rightarrow> b\<lparr>orders := (orders b)(orderId := None)\<rparr>
           | Some ord \<Rightarrow>
               if getPrice ord = newPrice \<and> getQuantity ord = newQuantity then b
               else
                 let b1 = release_level ord b;
                     b2 = removeOrderFromBook x b1;
                     b3 = update_obj x (setPrice newPrice) b2;
                     b4 = update_obj x (setQuantity newQuantity) b3;
                     b5 = update_obj x (setOrderStatus MODIFY) b4
                 in addToBook x b5))"

definition CancelOrder :: "OrderId \<Rightarrow> Orderbook \<Rightarrow> Orderbook" where
  "CancelOrder orderId b =
     (case orders b orderId of
        None \<Rightarrow> b
      | Some x \<Rightarrow>
          (case store b x of
             None \<Rightarrow> b\<lparr>orders := (orders b)(orderId := None)\<rparr>
           | Some ord \<Rightarrow>
               let b1 = release_level ord b;
                   b2 = removeOrderFromBook x b1;
                   b3 = update_obj x (setQuantity 0) b2;
                   b4 = update_obj x (setOrderStatus CANCELLED) b3
               in clearOrderRecord orderId b4))"

definition GetRecentTrades :: "Orderbook \<Rightarrow> Trade list" where
  "GetRecentTrades b = trades b"

definition ClearRecentTrades :: "Orderbook \<Rightarrow> Orderbook" where
  "ClearRecentTrades b = b\<lparr>trades := []\<rparr>"

section \<open>Best bid and ask\<close>

text \<open>The loop \<open>qty += ord->getQuantity()\<close>: the sum wraps at 32 bits.\<close>

definition level_quantity :: "Orderbook \<Rightarrow> OrderPointer list \<Rightarrow> Quantity" where
  "level_quantity b xs = foldl (\<lambda>qty x. qty + getQuantity (obj b x)) 0 xs"

definition best_of :: "Orderbook \<Rightarrow> OrderPointer list price_map \<Rightarrow> bool \<times> Price \<times> Quantity" where
  "best_of b book =
     (case book of
        [] \<Rightarrow> (False, 0, 0)
      | (price, xs) # _ \<Rightarrow>
          let qty = level_quantity b xs in (qty > 0, price, qty))"

definition GetBestBid :: "Orderbook \<Rightarrow> bool \<times> Price \<times> Quantity" where
  "GetBestBid b = best_of b (bids b)"

definition GetBestAsk :: "Orderbook \<Rightarrow> bool \<times> Price \<times> Quantity" where
  "GetBestAsk b = best_of b (asks b)"

text \<open>The result: found, bid price and quantity, ask price and quantity.\<close>

definition GetBestBidAsk ::
  "Orderbook \<Rightarrow> bool \<times> (Price \<times> Quantity) \<times> (Price \<times> Quantity)" where
  "GetBestBidAsk b =
     (let (hasBid, bidPrice, bidQty) = GetBestBid b;
          (hasAsk, askPrice, askQty) = GetBestAsk b
      in (hasBid \<or> hasAsk,
          if hasBid then (bidPrice, bidQty) else (0, 0),
          if hasAsk then (askPrice, askQty) else (0, 0)))"

end
