(* ===== verification/Book_Spec.thy ===== *)
theory Book_Spec
  imports Order_Object Price_Levels
begin

text \<open>
  What a price-time priority book promises, without pointers, levels or machine words. A side
  is the queue of its orders, best first; an incoming quantity is filled from the front of the
  contra queue for as long as the prices cross; what is left of an order that may rest goes
  behind everything that is at least as good. \<^verbatim>\<open>include/Orderbook.h\<close> states this contract in
  the comment of the class ("Matching Algorithm").
\<close>

record Entry =
  e_price :: Price
  e_id :: OrderId
  e_qty :: nat

record Fill =
  f_price :: Price
  f_id :: OrderId
  f_qty :: nat
  f_full :: bool

record Book =
  bid_queue :: "Entry list"
  ask_queue :: "Entry list"

fun spec_match :: "(Price \<Rightarrow> bool) \<Rightarrow> nat \<Rightarrow> Entry list \<Rightarrow> Fill list \<times> nat \<times> Entry list" where
  "spec_match crosses r [] = ([], r, [])"
| "spec_match crosses r (e # es) =
     (if r = 0 \<or> \<not> crosses (e_price e) then ([], r, e # es)
      else if e_qty e \<le> r
      then (case spec_match crosses (r - e_qty e) es of
              (fs, r', es') \<Rightarrow>
                (\<lparr>f_price = e_price e, f_id = e_id e, f_qty = e_qty e,
                  f_full = (e_qty e = r)\<rparr> # fs, r', es'))
      else ([\<lparr>f_price = e_price e, f_id = e_id e, f_qty = r, f_full = False\<rparr>], 0,
            e\<lparr>e_qty := e_qty e - r\<rparr> # es))"

text \<open>
  A newcomer of quantity \<open>qty\<close>: \<open>rests\<close> says whether a remainder may stay in the book.
\<close>

definition spec_add ::
  "BuySell \<Rightarrow> (Price \<Rightarrow> bool) \<Rightarrow> bool \<Rightarrow> Entry \<Rightarrow> Book \<Rightarrow> Fill list \<times> nat \<times> Book" where
  "spec_add side crosses rests e B =
     (if side = BUY
      then (case spec_match crosses (e_qty e) (ask_queue B) of
              (fs, r, as) \<Rightarrow>
                (fs, r, B\<lparr>ask_queue := as,
                          bid_queue := (if rests \<and> r > 0
                                        then insert_behind std_greater e_price (e\<lparr>e_qty := r\<rparr>) (bid_queue B)
                                        else bid_queue B)\<rparr>))
      else (case spec_match crosses (e_qty e) (bid_queue B) of
              (fs, r, bs) \<Rightarrow>
                (fs, r, B\<lparr>bid_queue := bs,
                          ask_queue := (if rests \<and> r > 0
                                        then insert_behind std_less e_price (e\<lparr>e_qty := r\<rparr>) (ask_queue B)
                                        else ask_queue B)\<rparr>)))"

definition spec_cancel :: "OrderId \<Rightarrow> Book \<Rightarrow> Book" where
  "spec_cancel i B =
     B\<lparr>bid_queue := filter (\<lambda>e. e_id e \<noteq> i) (bid_queue B),
       ask_queue := filter (\<lambda>e. e_id e \<noteq> i) (ask_queue B)\<rparr>"

section \<open>What the specification guarantees\<close>

definition filled :: "Fill list \<Rightarrow> nat" where
  "filled fs = (\<Sum>f\<leftarrow>fs. f_qty f)"

definition depth :: "Entry list \<Rightarrow> nat" where
  "depth es = (\<Sum>e\<leftarrow>es. e_qty e)"

lemma filled_simps [simp]: "filled [] = 0" "filled (f # fs) = f_qty f + filled fs"
  by (simp_all add: filled_def)

lemma depth_simps [simp]: "depth [] = 0" "depth (e # es) = e_qty e + depth es"
  by (simp_all add: depth_def)

text \<open>No quantity appears or disappears, on either side of the match.\<close>

lemma spec_match_conserves:
  "spec_match crosses r es = (fs, r', es') \<Longrightarrow>
   filled fs + r' = r \<and> filled fs + depth es' = depth es"
proof (induction crosses r es arbitrary: fs r' es' rule: spec_match.induct)
  case (2 crosses r e es)
  then show ?case
    by (fastforce split: if_splits prod.splits)
qed simp

text \<open>Every fill is at a crossing price.\<close>

lemma spec_match_prices:
  "spec_match crosses r es = (fs, r', es') \<Longrightarrow> f \<in> set fs \<Longrightarrow>
   crosses (f_price f) \<and> f_price f \<in> e_price ` set es \<and> f_id f \<in> e_id ` set es"
proof (induction crosses r es arbitrary: fs r' es' rule: spec_match.induct)
  case (2 crosses r e es)
  then show ?case
    by (fastforce split: if_splits prod.splits)
qed simp

text \<open>A remainder is left only if nothing that crosses is left at the front.\<close>

lemma spec_match_exhausts:
  "spec_match crosses r es = (fs, r', es') \<Longrightarrow> 0 < r' \<Longrightarrow>
   es' = [] \<or> \<not> crosses (e_price (hd es'))"
proof (induction crosses r es arbitrary: fs r' es' rule: spec_match.induct)
  case (2 crosses r e es)
  then show ?case
    by (fastforce split: if_splits prod.splits)
qed simp

text \<open>
  Priority: the fills name the orders of a prefix of the queue, in queue order, and all but the
  last of them are filled completely; what is not filled keeps its place.
\<close>

lemma spec_match_prefix:
  "spec_match crosses r es = (fs, r', es') \<Longrightarrow>
   map f_id fs = map e_id (take (length fs) es) \<and>
   map f_price fs = map e_price (take (length fs) es) \<and>
   (\<forall>k. Suc k < length fs \<longrightarrow> f_qty (fs ! k) = e_qty (es ! k)) \<and>
   length fs \<le> length es \<and>
   (es' = drop (length fs) es \<or>
    fs \<noteq> [] \<and> (\<exists>q. q < e_qty (es ! (length fs - 1)) \<and> 
       es' = (es ! (length fs - 1))\<lparr>e_qty := q\<rparr> # drop (length fs) es))"
proof (induction crosses r es arbitrary: fs r' es' rule: spec_match.induct)
  case (2 crosses r e es)
  consider (stop) "r = 0 \<or> \<not> crosses (e_price e)"
    | (whole) "r \<noteq> 0" "crosses (e_price e)" "e_qty e \<le> r"
    | (part) "r \<noteq> 0" "crosses (e_price e)" "\<not> e_qty e \<le> r" by blast
  then show ?case
  proof cases
    case whole
    obtain gs where rec: "spec_match crosses (r - e_qty e) es = (gs, r', es')"
      and fs: "fs = \<lparr>f_price = e_price e, f_id = e_id e, f_qty = e_qty e, f_full = (e_qty e = r)\<rparr> # gs"
      using whole "2.prems" by (auto split: prod.splits)
    note IH = "2.IH" [OF _ _ rec]
    have "f_qty (fs ! k) = e_qty ((e # es) ! k)" if "Suc k < length fs" for k
      using that IH whole by (cases k) (auto simp: fs)
    moreover have "gs \<noteq> [] \<Longrightarrow> (e # es) ! length gs = es ! (length gs - 1)"
      by (cases gs) simp_all
    ultimately show ?thesis
      using IH whole by (auto simp: fs)
  next
    case part
    with "2.prems" show ?thesis
      by (auto intro!: exI [of _ "e_qty e - r"])
  qed (use "2.prems" in auto)
qed simp

lemma spec_match_queue_subset:
  "spec_match crosses r es = (fs, r', es') \<Longrightarrow> e' \<in> set es' \<Longrightarrow>
   \<exists>e\<in>set es. e_id e' = e_id e \<and> e_price e' = e_price e"
proof (induction crosses r es arbitrary: fs r' es' rule: spec_match.induct)
  case (2 crosses r e es)
  then show ?case
    by (fastforce split: if_splits prod.splits)
qed simp

text \<open>An entry that is filled for its whole quantity is not in the queue that is left.\<close>

lemma spec_match_full_fill:
  "spec_match crosses r es = (fs, r', es') \<Longrightarrow> distinct (map e_id es) \<Longrightarrow> f \<in> set fs \<Longrightarrow> en \<in> set es \<Longrightarrow>
   e_id en = f_id f \<Longrightarrow> f_qty f = e_qty en \<Longrightarrow> e_id en \<notin> e_id ` set es'"
proof (induction crosses r es arbitrary: fs r' es' rule: spec_match.induct)
  case (2 crosses r e es)
  have rest: "r \<noteq> 0" "crosses (e_price e)" using "2.prems"(1,3) by (auto split: if_splits)
  show ?case
  proof (cases "e_qty e \<le> r")
    case True
    then obtain gs where rec: "spec_match crosses (r - e_qty e) es = (gs, r', es')"
      and fs: "fs = \<lparr>f_price = e_price e, f_id = e_id e, f_qty = e_qty e, f_full = (e_qty e = r)\<rparr> # gs"
      using rest "2.prems"(1) by (auto split: prod.splits)
    have left: "e_id ` set es' \<subseteq> e_id ` set es"
      using spec_match_queue_subset [OF rec] by force
    show ?thesis
    proof (cases "e_id en = e_id e")
      case True
      with left "2.prems"(2) show ?thesis by auto
    next
      case False
      then have "f \<in> set gs" "en \<in> set es" using "2.prems"(3-5) by (auto simp: fs)
      from "2.IH" [OF _ True rec _ this] rest "2.prems"(2,5,6) show ?thesis by simp
    qed
  next
    case False
    then have f: "f = \<lparr>f_price = e_price e, f_id = e_id e, f_qty = r, f_full = False\<rparr>"
      using rest "2.prems"(1,3) by auto
    then have "e_id en = e_id e" using "2.prems"(5) by simp
    then have "en \<notin> set es" using "2.prems"(2) by (auto simp: image_iff)
    then have "en = e" using "2.prems"(4) by simp
    then show ?thesis using False f "2.prems"(6) by simp
  qed
qed simp

end
