(* ===== verification/Orderbook_Matching.thy ===== *)
theory Orderbook_Matching
  imports Orderbook_Model Book_Spec
begin

text \<open>
  The nested loops of \<open>addToBook\<close> are equal to one loop over the whole contra side taken as a
  queue (\<open>flat_match\<close>), and that loop refines the specification's \<open>spec_match\<close>.
\<close>

section \<open>The loops as one\<close>

definition crossed :: "Order \<Rightarrow> Price \<Rightarrow> bool" where
  "crossed ord p = priceCrossed (getPrice ord) p (getBuySell ord) (getOrderType ord)"

fun flat_match ::
  "Order \<Rightarrow> (Price \<times> OrderPointer) list \<Rightarrow> Quantity \<Rightarrow> Orderbook \<Rightarrow>
   (Price \<times> OrderPointer) list \<times> Quantity \<times> Orderbook" where
  "flat_match ord [] r b = ([], r, b)"
| "flat_match ord ((p, x) # q) r b =
     (if r = 0 \<or> \<not> crossed ord p then ((p, x) # q, r, b)
      else case execute_against ord p x r b of
        (r', closed, b') \<Rightarrow>
          if closed then flat_match ord q r' b' else ((p, x) # q, r', b'))"

lemma flat_match_0 [simp]: "flat_match ord q 0 b = (q, 0, b)"
  by (cases q) auto

lemma match_level_0 [simp]: "match_level ord p xs 0 b = (xs, 0, b)"
  by (cases xs) auto

lemma match_against_0 [simp]: "match_against ord m 0 b = (m, 0, b)"
  by (cases m) auto

lemma match_level_flat:
  "crossed ord p \<Longrightarrow> match_level ord p xs r b = (ys, r', b') \<Longrightarrow>
   flat_match ord (map (Pair p) xs @ q) r b =
     (if ys = [] then flat_match ord q r' b' else (map (Pair p) ys @ q, r', b')) \<and>
   (ys \<noteq> [] \<longrightarrow> r' = 0)"
proof (induction ord p xs r b arbitrary: ys r' b' rule: match_level.induct)
  case (2 ord p x xs r b)
  obtain r1 c b1 where ex: "execute_against ord p x r b = (r1, c, b1)"
    using prod_cases3 by blast
  have open_0: "\<not> c \<Longrightarrow> r1 = 0"
    using execute_against_open_uses_up ex by (cases c) auto
  show ?case
  proof (cases "r \<noteq> 0 \<and> c")
    case True
    with "2.prems" ex have "match_level ord p xs r1 b1 = (ys, r', b')" by simp
    with True "2.IH"(1) [OF _ ex [symmetric] refl] "2.prems"(1) ex show ?thesis by simp
  qed (use "2.prems" ex open_0 in auto)
qed simp

lemma match_against_flat:
  "no_empty_level m \<Longrightarrow> match_against ord m r b = (lv, r', b') \<Longrightarrow>
   flat_match ord (queue_of m) r b = (queue_of lv, r', b') \<and> no_empty_level lv"
proof (induction ord m r b arbitrary: lv r' b' rule: match_against.induct)
  case (2 ord p xs m r b)
  obtain ys r1 b1 where ml: "match_level ord p xs r b = (ys, r1, b1)"
    using prod_cases3 by blast
  show ?case
  proof (cases "r = 0 \<or> \<not> crossed ord p")
    case True
    with "2.prems" have "(lv, r', b') = ((p, xs) # m, r, b)"
      by (auto simp: crossed_def)
    moreover obtain x xs' where "xs = x # xs'"
      using "2.prems"(1) by (cases xs) auto
    ultimately show ?thesis
      using True "2.prems"(1) by auto
  next
    case False
    note level = match_level_flat [OF _ ml, of "queue_of m"]
    show ?thesis
    proof (cases "ys = []")
      case True
      with False "2.prems" ml have "match_against ord m r1 b1 = (lv, r', b')"
        by (simp add: crossed_def)
      with True False "2.IH"(1) [OF _ ml [symmetric] refl] "2.prems"(1) level show ?thesis
        by (simp add: crossed_def)
    next
      case ys: False
      with False level have "r1 = 0" by simp
      with ys False "2.prems" ml have "(lv, r', b') = ((p, ys) # m, 0, b1)"
        by (simp add: crossed_def)
      with ys False level \<open>r1 = 0\<close> "2.prems"(1) show ?thesis by simp
    qed
  qed
qed simp

text \<open>What is left of a sorted book is sorted.\<close>

lemma match_against_keys:
  "match_against ord m r b = (lv, r', b') \<Longrightarrow> \<exists>zs. map fst m = zs @ map fst lv"
proof (induction ord m r b arbitrary: lv r' b' rule: match_against.induct)
  case (2 ord p xs m r b)
  obtain ys r1 b1 where ml: "match_level ord p xs r b = (ys, r1, b1)"
    using prod_cases3 by blast
  show ?case
  proof (cases "r = 0 \<or> \<not> priceCrossed (getPrice ord) p (getBuySell ord) (getOrderType ord)")
    case True
    with "2.prems" show ?thesis by auto
  next
    case go: False
    show ?thesis
    proof (cases "ys = []")
      case True
      with go "2.prems" ml have "match_against ord m r1 b1 = (lv, r', b')" by simp
      from "2.IH"(1) [OF go ml [symmetric] refl True this] obtain zs
        where "map fst m = zs @ map fst lv" by blast
      then show ?thesis by (auto intro: exI [of _ "p # zs"])
    next
      case False
      with go "2.prems" ml have "match_against ord ((p, ys) # m) r1 b1 = (lv, r', b')" by simp
      from "2.IH"(2) [OF go ml [symmetric] refl False this] show ?thesis by simp
    qed
  qed
qed simp

lemma match_against_sorted:
  "match_against ord m r b = (lv, r', b') \<Longrightarrow> sorted_keys cmp m \<Longrightarrow> sorted_keys cmp lv"
  by (drule match_against_keys) (auto simp: sorted_keys_def sorted_wrt_append)

section \<open>What the loop leaves alone\<close>

lemma execute_against_obj:
  assumes "execute_against ord p x r b = (r', c, b')"
  shows "y \<noteq> x \<Longrightarrow> obj b' y = obj b y"
    and "same_terms (obj b y) (obj b' y)"
    and "getQuantity (obj b' x) = getQuantity (obj b x) - min r (getQuantity (obj b x))"
  using execute_against_store [OF assms] by (auto simp: obj_def same_terms_def)

lemma same_terms_flat_match:
  "flat_match ord q r b = (q', r', b') \<Longrightarrow> same_terms (obj b x) (obj b' x)"
proof (induction ord q r b arbitrary: q' r' b' rule: flat_match.induct)
  case (2 ord p y q r b)
  obtain r1 c b1 where ex: "execute_against ord p y r b = (r1, c, b1)"
    using prod_cases3 by blast
  note st = execute_against_obj(2) [OF ex, of x]
  show ?case
    using 2 ex st by (auto split: if_splits intro: same_terms_trans)
qed simp

lemma flat_match_frame:
  "flat_match ord q r b = (q', r', b') \<Longrightarrow>
   bids b' = bids b \<and> asks b' = asks b \<and> unat r' \<le> unat r \<and>
   (\<forall>x. x \<notin> snd ` set q \<longrightarrow> store b' x = store b x) \<and>
   (\<forall>x. store b x \<noteq> None \<longrightarrow> store b' x \<noteq> None)"
proof (induction ord q r b arbitrary: q' r' b' rule: flat_match.induct)
  case (2 ord p y q r b)
  obtain r1 c b1 where ex: "execute_against ord p y r b = (r1, c, b1)"
    using prod_cases3 by blast
  note fr = execute_against_frame [OF ex] execute_against_store [OF ex]
  have le: "unat r1 \<le> unat r"
    using execute_against_remaining(1) [OF ex] by (simp add: unat_sub_min)
  show ?case
  proof (cases "r \<noteq> 0 \<and> crossed ord p \<and> c")
    case True
    with "2.prems" ex have rec: "flat_match ord q r1 b1 = (q', r', b')" by simp
    from True "2.IH" [OF _ ex [symmetric] refl _ rec] fr le show ?thesis by simp
  next
    case False
    with "2.prems" ex fr le show ?thesis by (auto split: if_splits)
  qed
qed simp

text \<open>
  The orders taken off the queue are exactly a prefix of it; they leave the index, and no other
  order does.
\<close>

lemma flat_match_prefix:
  "flat_match ord q r b = (q', r', b') \<Longrightarrow>
   \<exists>zs. q = zs @ q' \<and>
     orders b' = (\<lambda>i. if i \<in> (\<lambda>z. getOrderId (obj b (snd z))) ` set zs then None else orders b i)"
proof (induction ord q r b arbitrary: q' r' b' rule: flat_match.induct)
  case (2 ord p y q r b)
  obtain r1 c b1 where ex: "execute_against ord p y r b = (r1, c, b1)"
    using prod_cases3 by blast
  note os = execute_against_orders [OF ex]
  have ids: "getOrderId (obj b1 x) = getOrderId (obj b x)" for x
    using execute_against_obj(2) [OF ex, of x] by (simp add: same_terms_def)
  show ?case
  proof (cases "r \<noteq> 0 \<and> crossed ord p \<and> c")
    case True
    with "2.prems" ex have rec: "flat_match ord q r1 b1 = (q', r', b')" by simp
    from True "2.IH" [OF _ ex [symmetric] refl _ rec] obtain zs
      where "q = zs @ q'"
        and "orders b' = (\<lambda>i. if i \<in> (\<lambda>z. getOrderId (obj b (snd z))) ` set zs
                              then None else orders b1 i)"
      by (auto simp: ids)
    with True os show ?thesis
      by (intro exI [of _ "(p, y) # zs"]) (auto simp: fun_eq_iff)
  next
    case False
    with "2.prems" ex os show ?thesis
      by (intro exI [of _ "[]"]) (auto split: if_splits)
  qed
qed simp

text \<open>What stays in the queue still has quantity left.\<close>

lemma flat_match_quantities:
  "flat_match ord q r b = (q', r', b') \<Longrightarrow> distinct (map snd q) \<Longrightarrow>
   \<forall>z\<in>set q. 0 < getQuantity (obj b (snd z)) \<Longrightarrow>
   \<forall>z\<in>set q'. 0 < getQuantity (obj b' (snd z))"
proof (induction ord q r b arbitrary: q' r' b' rule: flat_match.induct)
  case (2 ord p y q r b)
  obtain r1 c b1 where ex: "execute_against ord p y r b = (r1, c, b1)"
    using prod_cases3 by blast
  have "obj b1 (snd z) = obj b (snd z)" if "z \<in> set q" for z
    using that "2.prems"(2) by (intro execute_against_obj(1) [OF ex]) force
  with "2.prems"(3) have others: "\<forall>z\<in>set q. 0 < getQuantity (obj b1 (snd z))" by simp
  show ?case
  proof (cases "r \<noteq> 0 \<and> crossed ord p \<and> c")
    case True
    with "2.prems" ex have rec: "flat_match ord q r1 b1 = (q', r', b')" by simp
    from True "2.IH" [OF _ ex [symmetric] refl _ rec] "2.prems" others show ?thesis by auto
  next
    case False
    have "\<not> c \<Longrightarrow> 0 < getQuantity (obj b1 y)"
      using execute_against_obj(3) [OF ex] execute_against_remaining(2) [OF ex]
      by (auto simp: min_def word_neq_0_conv [symmetric])
    with False "2.prems" ex others show ?thesis by (auto split: if_splits)
  qed
qed simp

section \<open>Refinement of the specification's matching\<close>

definition entry :: "Orderbook \<Rightarrow> OrderPointer \<Rightarrow> Entry" where
  "entry b x = \<lparr>e_price = getPrice (obj b x), e_id = getOrderId (obj b x),
                e_qty = unat (getQuantity (obj b x))\<rparr>"

definition entries :: "Orderbook \<Rightarrow> (Price \<times> OrderPointer) list \<Rightarrow> Entry list" where
  "entries b q = map (\<lambda>z. entry b (snd z)) q"

definition trade_of :: "BuySell \<Rightarrow> OrderId \<Rightarrow> Fill \<Rightarrow> Trade" where
  "trade_of side oid f =
     \<lparr>tr_timestamp = 0,
      buyOrderId = (if side = BUY then oid else f_id f),
      sellOrderId = (if side = SELL then oid else f_id f),
      tr_price = f_price f, tr_quantity = word_of_nat (f_qty f),
      tradeType = (if f_full f then FULL else PARTIAL)\<rparr>"

lemma entries_simps [simp]:
  "entries b [] = []"
  "entries b (z # q) = entry b (snd z) # entries b q"
  by (simp_all add: entries_def)

lemma entries_cong:
  "\<forall>z\<in>set q. obj b' (snd z) = obj b (snd z) \<Longrightarrow> entries b' q = entries b q"
  by (simp add: entries_def entry_def)

lemma flat_match_refines:
  "flat_match ord q r b = (q', r', b') \<Longrightarrow> distinct (map snd q) \<Longrightarrow>
   \<forall>z\<in>set q. getPrice (obj b (snd z)) = fst z \<Longrightarrow>
   \<exists>fs. spec_match (crossed ord) (unat r) (entries b q) = (fs, unat r', entries b' q') \<and>
        trades b' = trades b @ map (trade_of (getBuySell ord) (getOrderId ord)) fs"
proof (induction ord q r b arbitrary: q' r' b' rule: flat_match.induct)
  case (2 ord p y q r b)
  obtain r1 c b1 where ex: "execute_against ord p y r b = (r1, c, b1)"
    using prod_cases3 by blast
  let ?q = "getQuantity (obj b y)"
  note rem = execute_against_remaining [OF ex] and tr = execute_against_trades [OF ex]
  have p: "getPrice (obj b y) = p" using "2.prems"(3) by simp
  have others: "\<forall>z\<in>set q. obj b1 (snd z) = obj b (snd z)"
    using "2.prems"(2) by (intro ballI execute_against_obj(1) [OF ex]) force
  then have rest: "entries b1 q = entries b q" by (rule entries_cong)
  consider (stop) "r = 0 \<or> \<not> crossed ord p" | (whole) "r \<noteq> 0" "crossed ord p" "c"
    | (part) "r \<noteq> 0" "crossed ord p" "\<not> c" by blast
  then show ?case
  proof cases
    case stop
    with "2.prems" p show ?thesis by (auto simp: entry_def)
  next
    case whole
    with "2.prems" ex have rec: "flat_match ord q r1 b1 = (q', r', b')" by simp
    have "unat r1 = unat r - unat ?q"
      using rem(1) by (simp add: unat_sub_min)
    moreover have "unat ?q \<le> unat r" "min r ?q = ?q" "unat r \<noteq> 0"
      using whole rem by (auto simp: word_le_nat_alt min.absorb2 unat_eq_0)
    moreover from this rem(1) have "r1 = 0 \<longleftrightarrow> unat ?q = unat r"
      by (auto dest: word_unat_eq_iff [THEN iffD2])
    moreover have "\<forall>z\<in>set q. getPrice (obj b1 (snd z)) = fst z"
      using others "2.prems"(3) by simp
    with whole "2.IH" [OF _ ex [symmetric] refl _ rec] "2.prems"(2) obtain fs where
      "spec_match (crossed ord) (unat r1) (entries b1 q) = (fs, unat r', entries b' q')"
      "trades b' = trades b1 @ map (trade_of (getBuySell ord) (getOrderId ord)) fs"
      by auto
    ultimately show ?thesis
      using whole p rest tr by (auto simp: entry_def trade_of_def)
  next
    case part
    with "2.prems" ex have "(q', r', b') = ((p, y) # q, r1, b1)" by simp
    moreover have "unat r < unat ?q" "min r ?q = r" "r1 = 0"
      using part rem by (auto simp: word_less_nat_alt not_le min_def)
    moreover have "entry b1 y = (entry b y)\<lparr>e_qty := unat ?q - unat r\<rparr>"
      using execute_against_obj(2) [OF ex, of y] execute_against_obj(3) [OF ex] \<open>min r ?q = r\<close> \<open>unat r < unat ?q\<close>
      by (simp add: entry_def same_terms_def unat_sub word_le_nat_alt)
    ultimately show ?thesis
      using part p rest tr by (auto simp: entry_def trade_of_def unat_gt_0)
  qed
qed simp

end
