(* ===== verification/Orderbook_Invariant.thy ===== *)
theory Orderbook_Invariant
  imports Orderbook_Matching
begin

text \<open>
  The well-formedness of an \<open>Orderbook\<close> and the proof that matching and booking keep it and
  refine the specification.
\<close>

section \<open>Well-formed books\<close>

definition resting :: "Orderbook \<Rightarrow> OrderPointer set" where
  "resting b = snd ` set (queue_of (bids b)) \<union> snd ` set (queue_of (asks b))"

definition resting_ok :: "BuySell \<Rightarrow> Price \<Rightarrow> Orderbook \<Rightarrow> OrderPointer \<Rightarrow> bool" where
  "resting_ok side p b x \<longleftrightarrow>
     store b x \<noteq> None \<and> getPrice (obj b x) = p \<and> getBuySell (obj b x) = side \<and>
     0 < getQuantity (obj b x) \<and> \<not> isAggressiveOrder (obj b x) \<and>
     orders b (getOrderId (obj b x)) = Some x"

definition side_ok ::
  "(Price \<Rightarrow> Price \<Rightarrow> bool) \<Rightarrow> BuySell \<Rightarrow> Orderbook \<Rightarrow> OrderPointer list price_map \<Rightarrow> bool" where
  "side_ok cmp side b m \<longleftrightarrow>
     sorted_keys cmp m \<and> no_empty_level m \<and> distinct (map snd (queue_of m)) \<and>
     (\<forall>z\<in>set (queue_of m). resting_ok side (fst z) b (snd z))"

text \<open>
  Every indexed order is in the book; \<open>E\<close> are the pointers excepted while an operation has
  taken them off their level.
\<close>

definition index_ok :: "OrderPointer set \<Rightarrow> Orderbook \<Rightarrow> bool" where
  "index_ok E b \<longleftrightarrow>
     (\<forall>i x. orders b i = Some x \<longrightarrow>
        store b x \<noteq> None \<and> getOrderId (obj b x) = i \<and> x \<in> E \<union> resting b)"

definition uncrossed :: "Orderbook \<Rightarrow> bool" where
  "uncrossed b \<longleftrightarrow>
     (\<forall>e\<in>set (queue_of (bids b)). \<forall>f\<in>set (queue_of (asks b)). sint (fst e) < sint (fst f))"

definition book_inv :: "OrderPointer set \<Rightarrow> Orderbook \<Rightarrow> bool" where
  "book_inv E b \<longleftrightarrow>
     side_ok std_greater BUY b (bids b) \<and> side_ok std_less SELL b (asks b) \<and>
     index_ok E b \<and> uncrossed b"

definition book_abs :: "Orderbook \<Rightarrow> Book" where
  "book_abs b = \<lparr>bid_queue = entries b (queue_of (bids b)),
                 ask_queue = entries b (queue_of (asks b))\<rparr>"

lemma book_inv_empty: "book_inv {} empty_orderbook"
  by (simp add: book_inv_def empty_orderbook_def side_ok_def index_ok_def uncrossed_def)

lemma side_okD:
  assumes "side_ok cmp side b m" and "z \<in> set (queue_of m)"
  shows "getPrice (obj b (snd z)) = fst z" "getBuySell (obj b (snd z)) = side"
    "0 < getQuantity (obj b (snd z))" "orders b (getOrderId (obj b (snd z))) = Some (snd z)"
    "store b (snd z) \<noteq> None" "\<not> isAggressiveOrder (obj b (snd z))"
  using assms by (auto simp: side_ok_def resting_ok_def)

lemma index_okI:
  "(\<And>i x. orders b i = Some x \<Longrightarrow>
      store b x \<noteq> None \<and> getOrderId (obj b x) = i \<and> x \<in> E \<union> resting b) \<Longrightarrow> index_ok E b"
  by (simp add: index_ok_def)

lemma index_okD:
  "book_inv E b \<Longrightarrow> orders b i = Some x \<Longrightarrow>
   store b x \<noteq> None \<and> getOrderId (obj b x) = i \<and> x \<in> E \<union> resting b"
  by (simp add: book_inv_def index_ok_def)

lemma book_inv_sides:
  "book_inv E b \<Longrightarrow> side_ok std_greater BUY b (bids b)"
  "book_inv E b \<Longrightarrow> side_ok std_less SELL b (asks b)"
  by (simp_all add: book_inv_def)

lemma sides_disjoint:
  assumes "book_inv E b"
  shows "snd ` set (queue_of (bids b)) \<inter> snd ` set (queue_of (asks b)) = {}"
proof -
  have "getBuySell (obj b (snd z)) = BUY" if "z \<in> set (queue_of (bids b))" for z
    using side_okD(2) [OF book_inv_sides(1) [OF assms] that] .
  moreover have "getBuySell (obj b (snd z)) = SELL" if "z \<in> set (queue_of (asks b))" for z
    using side_okD(2) [OF book_inv_sides(2) [OF assms] that] .
  ultimately show ?thesis by fastforce
qed

lemma resting_indexed:
  "book_inv E b \<Longrightarrow> x \<in> resting b \<Longrightarrow> orders b (getOrderId (obj b x)) = Some x"
  unfolding resting_def
  using side_okD(4) [OF book_inv_sides(1)] side_okD(4) [OF book_inv_sides(2)] by auto

section \<open>Matching keeps both sides well formed\<close>

lemma resting_ok_matched:
  assumes ok: "resting_ok side p b x"
    and fm: "flat_match ord q r b = (q', r', b')" and q: "q = zs @ q'"
    and os: "orders b' = (\<lambda>i. if i \<in> (\<lambda>z. getOrderId (obj b (snd z))) ` set zs
                               then None else orders b i)"
    and idx: "\<forall>z\<in>set q. orders b (getOrderId (obj b (snd z))) = Some (snd z)"
    and x: "x \<notin> snd ` set zs" and pos: "0 < getQuantity (obj b' x)"
  shows "resting_ok side p b' x"
proof -
  have st: "same_terms (obj b x) (obj b' x)"
    using fm by (rule same_terms_flat_match)
  have "getOrderId (obj b x) \<notin> (\<lambda>z. getOrderId (obj b (snd z))) ` set zs"
  proof
    assume "getOrderId (obj b x) \<in> (\<lambda>z. getOrderId (obj b (snd z))) ` set zs"
    then obtain z where z: "z \<in> set zs" "getOrderId (obj b x) = getOrderId (obj b (snd z))" by blast
    with idx q ok have "snd z = x" by (auto simp: resting_ok_def)
    with z x show False by blast
  qed
  with ok os st pos flat_match_frame [OF fm] show ?thesis
    by (simp add: resting_ok_def same_terms_def isAggressiveOrder_def)
qed

lemma side_ok_matched:
  assumes ok: "side_ok cmp side b m" and ma: "match_against ord m r b = (lv, r', b')"
  shows "side_ok cmp side b' lv"
    and "flat_match ord (queue_of m) r b = (queue_of lv, r', b')"
    and "\<exists>fs. spec_match (crossed ord) (unat r) (entries b (queue_of m)) =
               (fs, unat r', entries b' (queue_of lv)) \<and>
             trades b' = trades b @ map (trade_of (getBuySell ord) (getOrderId ord)) fs"
proof -
  have fm: "flat_match ord (queue_of m) r b = (queue_of lv, r', b')"
    and ne: "no_empty_level lv"
    using match_against_flat [OF _ ma] ok by (auto simp: side_ok_def)
  have d: "distinct (map snd (queue_of m))" using ok by (simp add: side_ok_def)
  from flat_match_prefix [OF fm] obtain zs where zs: "queue_of m = zs @ queue_of lv"
    and os: "orders b' = (\<lambda>i. if i \<in> (\<lambda>z. getOrderId (obj b (snd z))) ` set zs
                               then None else orders b i)" by blast
  have pos: "\<forall>z\<in>set (queue_of lv). 0 < getQuantity (obj b' (snd z))"
    using flat_match_quantities [OF fm d] side_okD(3) [OF ok] by blast
  have "resting_ok side (fst z) b' (snd z)" if z: "z \<in> set (queue_of lv)" for z
  proof (rule resting_ok_matched [OF _ fm zs os])
    show "resting_ok side (fst z) b (snd z)" using ok z zs by (simp add: side_ok_def)
    show "snd z \<notin> snd ` set zs" using d z zs by force
  qed (use side_okD(4) [OF ok] pos z in auto)
  then show "side_ok cmp side b' lv"
    using match_against_sorted [OF ma] ok ne d zs by (simp add: side_ok_def)
  show "flat_match ord (queue_of m) r b = (queue_of lv, r', b')" by (rule fm)
  show "\<exists>fs. spec_match (crossed ord) (unat r) (entries b (queue_of m)) =
               (fs, unat r', entries b' (queue_of lv)) \<and>
             trades b' = trades b @ map (trade_of (getBuySell ord) (getOrderId ord)) fs"
    using flat_match_refines [OF fm d] side_okD(1) [OF ok] by blast
qed

text \<open>The side that is not matched.\<close>

lemma other_side_matched:
  assumes ok: "side_ok cmp side b m" and ma: "match_against ord m r b = (lv, r', b')"
    and own: "side_ok cmp' side' b n" and diff: "side' \<noteq> side"
  shows "side_ok cmp' side' b' n" and "entries b' (queue_of n) = entries b (queue_of n)"
proof -
  note fm = side_ok_matched(2) [OF ok ma]
  from flat_match_prefix [OF fm] obtain zs where zs: "queue_of m = zs @ queue_of lv"
    and os: "orders b' = (\<lambda>i. if i \<in> (\<lambda>z. getOrderId (obj b (snd z))) ` set zs
                               then None else orders b i)" by blast
  have notin: "snd z \<notin> snd ` set (queue_of m)" if "z \<in> set (queue_of n)" for z
    using side_okD(2) [OF ok] side_okD(2) [OF own that] diff by force
  then have same: "\<forall>z\<in>set (queue_of n). obj b' (snd z) = obj b (snd z)"
    using flat_match_frame [OF fm] by (simp add: obj_def)
  have "resting_ok side' (fst z) b' (snd z)" if z: "z \<in> set (queue_of n)" for z
  proof (rule resting_ok_matched [OF _ fm zs os])
    show "resting_ok side' (fst z) b (snd z)" using own z by (simp add: side_ok_def)
    show "snd z \<notin> snd ` set zs" using notin [OF z] zs by auto
    show "0 < getQuantity (obj b' (snd z))" using same side_okD(3) [OF own z] z by simp
  qed (use side_okD(4) [OF ok] in blast)
  with own show "side_ok cmp' side' b' n" by (simp add: side_ok_def)
  show "entries b' (queue_of n) = entries b (queue_of n)" using same by (rule entries_cong)
qed

lemma index_ok_matched:
  assumes idx: "index_ok E b"
    and fm: "flat_match ord q r b = (q', r', b')"
    and old: "resting b = snd ` set q \<union> N"
    and new: "resting b'' = snd ` set q' \<union> N"
    and same: "store b'' = store b'" "orders b'' = orders b'"
  shows "index_ok E b''"
proof -
  have obj: "obj b'' = obj b'" using same by (simp add: obj_def fun_eq_iff)
  from flat_match_prefix [OF fm] obtain zs where zs: "q = zs @ q'"
    and os: "orders b' = (\<lambda>i. if i \<in> (\<lambda>z. getOrderId (obj b (snd z))) ` set zs
                               then None else orders b i)" by blast
  show ?thesis
    unfolding index_ok_def
  proof (intro allI impI)
    fix i x assume "orders b'' i = Some x"
    with same os have i: "orders b i = Some x"
      and notin: "i \<notin> (\<lambda>z. getOrderId (obj b (snd z))) ` set zs" by (auto split: if_splits)
    from idx i have x: "store b x \<noteq> None" "getOrderId (obj b x) = i" "x \<in> E \<union> resting b"
      by (auto simp: index_ok_def)
    then have "x \<notin> snd ` set zs" using notin by auto
    with x zs old new have "x \<in> E \<union> resting b''" by auto
    moreover have "getOrderId (obj b'' x) = i"
      using same_terms_flat_match [OF fm, of x] x obj by (simp add: same_terms_def)
    ultimately show "store b'' x \<noteq> None \<and> getOrderId (obj b'' x) = i \<and> x \<in> E \<union> resting b''"
      using flat_match_frame [OF fm] x same by simp
  qed
qed

lemma side_ok_cong:
  assumes "store b' = store b" and "orders b' = orders b"
  shows "side_ok cmp side b' m = side_ok cmp side b m" and "entries b' q = entries b q"
  using assms by (simp_all add: side_ok_def resting_ok_def entries_def entry_def obj_def)

text \<open>What \<open>match_order\<close> does to a book, on either side.\<close>

definition refines_match :: "Order \<Rightarrow> Quantity \<Rightarrow> Orderbook \<Rightarrow> Orderbook \<Rightarrow> Fill list \<Rightarrow> bool" where
  "refines_match ord r b b1 fs \<longleftrightarrow>
     trades b1 = trades b @ map (trade_of (getBuySell ord) (getOrderId ord)) fs \<and>
     (if getBuySell ord = BUY
      then spec_match (crossed ord) (unat (getQuantity ord)) (ask_queue (book_abs b)) =
             (fs, unat r, ask_queue (book_abs b1)) \<and>
           bid_queue (book_abs b1) = bid_queue (book_abs b)
      else spec_match (crossed ord) (unat (getQuantity ord)) (bid_queue (book_abs b)) =
             (fs, unat r, bid_queue (book_abs b1)) \<and>
           ask_queue (book_abs b1) = ask_queue (book_abs b))"

definition shrinks :: "Orderbook \<Rightarrow> Orderbook \<Rightarrow> bool" where
  "shrinks b b1 \<longleftrightarrow>
     resting b1 \<subseteq> resting b \<and> (\<forall>x. x \<notin> resting b \<longrightarrow> store b1 x = store b x) \<and>
     (\<forall>i y. orders b1 i = Some y \<longrightarrow> orders b i = Some y) \<and>
     (\<forall>x. store b x \<noteq> None \<longrightarrow> store b1 x \<noteq> None) \<and>
     (\<forall>x. same_terms (obj b x) (obj b1 x))"

lemma match_order_BUY:
  assumes inv: "book_inv E b" and mo: "match_order ord b = (r, b1)" and side: "getBuySell ord = BUY"
  shows "book_inv E b1 \<and> (\<exists>fs. refines_match ord r b b1 fs) \<and> shrinks b b1"
proof -
  note B = book_inv_sides(1) [OF inv] and A = book_inv_sides(2) [OF inv]
  obtain lv b' where ma: "match_against ord (asks b) (getQuantity ord) b = (lv, r, b')"
    and b1: "b1 = b'\<lparr>asks := lv\<rparr>"
    using mo side by (auto simp: match_order_def split: prod.splits)
  note fm = side_ok_matched(2) [OF A ma]
  from flat_match_prefix [OF fm] obtain zs where zs: "queue_of (asks b) = zs @ queue_of lv"
    and os: "orders b' = (\<lambda>i. if i \<in> (\<lambda>z. getOrderId (obj b (snd z))) ` set zs
                               then None else orders b i)" by blast
  have fr: "bids b1 = bids b" "asks b1 = lv" "store b1 = store b'" "orders b1 = orders b'"
    "trades b1 = trades b'"
    using flat_match_frame [OF fm] by (simp_all add: b1)
  note cong = side_ok_cong [OF fr(3,4)]
  have "index_ok E b" using inv by (simp add: book_inv_def)
  then have "index_ok E b1"
    by (rule index_ok_matched [OF _ fm, of _ "snd ` set (queue_of (bids b))"])
      (auto simp: resting_def fr)
  moreover have "uncrossed b1" using inv zs by (simp add: book_inv_def uncrossed_def fr)
  ultimately have "book_inv E b1"
    using side_ok_matched(1) [OF A ma] other_side_matched(1) [OF A ma B]
    by (simp add: book_inv_def cong fr)
  moreover have "\<exists>fs. refines_match ord r b b1 fs"
    using side side_ok_matched(3) [OF A ma] other_side_matched(2) [OF A ma B]
    by (auto simp: refines_match_def book_abs_def cong fr)
  moreover have "obj b1 = obj b'" by (simp add: obj_def fr fun_eq_iff)
  then have "shrinks b b1"
    using flat_match_frame [OF fm] same_terms_flat_match [OF fm] zs os
    by (auto simp: shrinks_def fr resting_def)
  ultimately show ?thesis by blast
qed

lemma match_order_SELL:
  assumes inv: "book_inv E b" and mo: "match_order ord b = (r, b1)" and side: "getBuySell ord = SELL"
  shows "book_inv E b1 \<and> (\<exists>fs. refines_match ord r b b1 fs) \<and> shrinks b b1"
proof -
  note B = book_inv_sides(1) [OF inv] and A = book_inv_sides(2) [OF inv]
  obtain lv b' where ma: "match_against ord (bids b) (getQuantity ord) b = (lv, r, b')"
    and b1: "b1 = b'\<lparr>bids := lv\<rparr>"
    using mo side by (auto simp: match_order_def split: prod.splits)
  note fm = side_ok_matched(2) [OF B ma]
  from flat_match_prefix [OF fm] obtain zs where zs: "queue_of (bids b) = zs @ queue_of lv"
    and os: "orders b' = (\<lambda>i. if i \<in> (\<lambda>z. getOrderId (obj b (snd z))) ` set zs
                               then None else orders b i)" by blast
  have fr: "asks b1 = asks b" "bids b1 = lv" "store b1 = store b'" "orders b1 = orders b'"
    "trades b1 = trades b'"
    using flat_match_frame [OF fm] by (simp_all add: b1)
  note cong = side_ok_cong [OF fr(3,4)]
  have "index_ok E b" using inv by (simp add: book_inv_def)
  then have "index_ok E b1"
    by (rule index_ok_matched [OF _ fm, of _ "snd ` set (queue_of (asks b))"])
      (auto simp: resting_def fr)
  moreover have "uncrossed b1" using inv zs by (simp add: book_inv_def uncrossed_def fr)
  ultimately have "book_inv E b1"
    using side_ok_matched(1) [OF B ma] other_side_matched(1) [OF B ma A]
    by (simp add: book_inv_def cong fr)
  moreover have "\<exists>fs. refines_match ord r b b1 fs"
    using side side_ok_matched(3) [OF B ma] other_side_matched(2) [OF B ma A]
    by (auto simp: refines_match_def book_abs_def cong fr)
  moreover have "obj b1 = obj b'" by (simp add: obj_def fr fun_eq_iff)
  then have "shrinks b b1"
    using flat_match_frame [OF fm] same_terms_flat_match [OF fm] zs os
    by (auto simp: shrinks_def fr resting_def)
  ultimately show ?thesis by blast
qed

lemma match_order_keeps:
  assumes "book_inv E b" and "match_order ord b = (r, b1)"
    and "getBuySell ord = BUY \<or> getBuySell ord = SELL"
  shows "book_inv E b1" and "\<exists>fs. refines_match ord r b b1 fs" and "shrinks b b1"
  using assms match_order_BUY match_order_SELL by blast+

section \<open>Writing an order that is not in the book\<close>

lemma side_ok_cong_queue:
  assumes "\<And>z. z \<in> set (queue_of m) \<Longrightarrow>
    resting_ok side (fst z) b' (snd z) = resting_ok side (fst z) b (snd z)"
  shows "side_ok cmp side b' m = side_ok cmp side b m"
  using assms by (auto simp: side_ok_def simp del: split_paired_All)

lemma entries_update_obj:
  assumes "x \<notin> snd ` set q"
  shows "entries (update_obj x f b) q = entries b q"
proof (rule entries_cong, rule ballI)
  fix z assume "z \<in> set q"
  with assms have "snd z \<noteq> x" by blast
  then show "obj (update_obj x f b) (snd z) = obj b (snd z)" by (simp add: frame_simps)
qed

lemma book_inv_update_obj:
  assumes inv: "book_inv E b" and x: "x \<notin> resting b" "store b x \<noteq> None"
    and id: "\<And>ord. getOrderId (f ord) = getOrderId ord"
  shows "book_inv E (update_obj x f b)" and "book_abs (update_obj x f b) = book_abs b"
    and "resting (update_obj x f b) = resting b"
proof -
  have "resting_ok sd p (update_obj x f b) y = resting_ok sd p b y" if "y \<noteq> x" for sd p y
    using that by (simp add: resting_ok_def frame_simps)
  then have side: "side_ok cmp sd (update_obj x f b) m = side_ok cmp sd b m"
    if "x \<notin> snd ` set (queue_of m)" for cmp sd m
    using that by (intro side_ok_cong_queue) force
  show rest: "resting (update_obj x f b) = resting b"
    by (simp add: resting_def frame_simps)
  have "index_ok E (update_obj x f b)"
    using inv id by (auto simp: book_inv_def index_ok_def rest frame_simps obj_def)
  with inv show "book_inv E (update_obj x f b)"
    using x by (simp add: book_inv_def side uncrossed_def frame_simps resting_def)
  show "book_abs (update_obj x f b) = book_abs b"
    using x by (simp add: book_abs_def frame_simps resting_def entries_update_obj)
qed

lemma book_inv_clear:
  assumes inv: "book_inv E b" and E: "E \<subseteq> {x}" and x: "x \<notin> resting b"
    and i: "getOrderId (obj b x) = i" "orders b i = None \<or> orders b i = Some x"
  shows "book_inv {} (clearOrderRecord i b)" and "book_abs (clearOrderRecord i b) = book_abs b"
proof -
  have keep: "resting_ok side p (clearOrderRecord i b) y = resting_ok side p b y"
    if "y \<in> resting b" for side p y
  proof -
    have "getOrderId (obj b y) \<noteq> i"
      using resting_indexed [OF inv that] that i(2) x by auto
    then show ?thesis by (simp add: resting_ok_def frame_simps)
  qed
  have "side_ok cmp side (clearOrderRecord i b) m = side_ok cmp side b m"
    if "snd ` set (queue_of m) \<subseteq> resting b" for cmp side m
    using that keep by (intro side_ok_cong_queue) auto
  moreover have "index_ok {} (clearOrderRecord i b)"
  proof (rule index_okI)
    fix j y assume "orders (clearOrderRecord i b) j = Some y"
    then have "j \<noteq> i" "orders b j = Some y" by (auto simp: frame_simps split: if_splits)
    with index_okD [OF inv, of j y] E i(1)
    show "store (clearOrderRecord i b) y \<noteq> None \<and> getOrderId (obj (clearOrderRecord i b) y) = j \<and>
        y \<in> {} \<union> resting (clearOrderRecord i b)"
      by (auto simp: frame_simps resting_def)
  qed
  ultimately show "book_inv {} (clearOrderRecord i b)"
    using inv by (simp add: book_inv_def uncrossed_def frame_simps resting_def)
  show "book_abs (clearOrderRecord i b) = book_abs b"
    by (simp add: book_abs_def entries_def entry_def frame_simps)
qed

lemma book_inv_unindexed:
  "book_inv E b \<Longrightarrow> E \<subseteq> {x} \<Longrightarrow> orders b (getOrderId (obj b x)) = None \<Longrightarrow> book_inv {} b"
  by (fastforce simp: book_inv_def index_ok_def)

section \<open>Booking a remainder\<close>

context price_order
begin

lemma side_ok_push:
  assumes ok: "side_ok cmp side b m" and x: "x \<notin> snd ` set (queue_of m)"
    and new: "resting_ok side p b x"
  shows "side_ok cmp side b (push_back_at cmp p x m)"
    and "entries b (queue_of (push_back_at cmp p x m)) =
         insert_behind cmp e_price (entry b x) (entries b (queue_of m))"
proof -
  have sorted: "sorted_keys cmp m" using ok by (simp add: side_ok_def)
  note q = queue_of_push_back_at [OF sorted, of p x]
  show "side_ok cmp side b (push_back_at cmp p x m)"
    using ok x new sorted_push_back_at [OF sorted] no_empty_push_back_at
    by (auto simp: side_ok_def q distinct_insert_behind)
  have "e_price (entry b (snd z)) = fst z" if "z \<in> insert (p, x) (set (queue_of m))" for z
    using that new side_okD(1) [OF ok] by (auto simp: entry_def resting_ok_def)
  then show "entries b (queue_of (push_back_at cmp p x m)) =
      insert_behind cmp e_price (entry b x) (entries b (queue_of m))"
    unfolding entries_def q by (subst map_insert_behind [where pr' = e_price]) auto
qed

end

lemma side_ok_more_orders:
  assumes "side_ok cmp side b m" and "store b' = store b"
    and "\<forall>z\<in>set (queue_of m). orders b (getOrderId (obj b (snd z))) = Some (snd z) \<longrightarrow>
           orders b' (getOrderId (obj b (snd z))) = Some (snd z)"
  shows "side_ok cmp side b' m"
  using assms by (auto simp: side_ok_def resting_ok_def obj_def)

lemma book_order_keeps:
  assumes inv: "book_inv E b" and E: "E \<subseteq> {x}" and x: "x \<notin> resting b" "store b x \<noteq> None"
    and ord: "0 < getQuantity (obj b x)" "\<not> isAggressiveOrder (obj b x)"
    and side: "getBuySell (obj b x) = BUY \<or> getBuySell (obj b x) = SELL"
    and idx: "orders b (getOrderId (obj b x)) = None \<or> orders b (getOrderId (obj b x)) = Some x"
    and buy: "getBuySell (obj b x) = BUY \<Longrightarrow>
      \<forall>f\<in>set (queue_of (asks b)). sint (getPrice (obj b x)) < sint (fst f)"
    and sell: "getBuySell (obj b x) = SELL \<Longrightarrow>
      \<forall>e\<in>set (queue_of (bids b)). sint (fst e) < sint (getPrice (obj b x))"
  shows "book_inv {} (book_order x b)"
    and "book_abs (book_order x b) =
      (if getBuySell (obj b x) = BUY
       then (book_abs b)\<lparr>bid_queue :=
              insert_behind std_greater e_price (entry b x) (bid_queue (book_abs b))\<rparr>
       else (book_abs b)\<lparr>ask_queue :=
              insert_behind std_less e_price (entry b x) (ask_queue (book_abs b))\<rparr>)"
proof -
  let ?p = "getPrice (obj b x)" and ?i = "getOrderId (obj b x)"
  define b' where "b' = b\<lparr>orders := (orders b)(?i \<mapsto> x)\<rparr>"
  have b': "store b' = store b" "bids b' = bids b" "asks b' = asks b" "obj b' = obj b"
    by (simp_all add: b'_def frame_simps)
  have more: "side_ok cmp sd b' m" if "side_ok cmp sd b m" for cmp sd m
  proof (rule side_ok_more_orders [OF that b'(1)], intro ballI impI)
    fix z assume "orders b (getOrderId (obj b (snd z))) = Some (snd z)"
    with idx show "orders b' (getOrderId (obj b (snd z))) = Some (snd z)"
      by (cases "getOrderId (obj b (snd z)) = ?i") (simp_all add: b'_def)
  qed
  note B = more [OF book_inv_sides(1) [OF inv]] and A = more [OF book_inv_sides(2) [OF inv]]
  have ok: "resting_ok (getBuySell (obj b x)) ?p b' x"
    using x ord by (simp add: resting_ok_def b'(1,4), simp add: b'_def)
  have qs: "entries b' q = entries b q" "entry b' y = entry b y" for q y
    by (simp_all add: entries_def entry_def b')
  have final: "store (book_order x b) = store b'" "orders (book_order x b) = orders b'"
    by (simp_all add: book_order_def b'_def Let_def frame_simps)
  note cong = side_ok_cong [OF final]
  have obj: "obj (book_order x b) = obj b" using final b' by (simp add: obj_def fun_eq_iff)
  have index: "index_ok {} (book_order x b)" if "resting (book_order x b) = insert x (resting b)"
  proof (rule index_okI)
    fix i y assume "orders (book_order x b) i = Some y"
    then consider "i = ?i" "y = x" | "i \<noteq> ?i" "orders b i = Some y"
      by (auto simp: final b'_def split: if_splits)
    then show "store (book_order x b) y \<noteq> None \<and> getOrderId (obj (book_order x b) y) = i \<and>
        y \<in> {} \<union> resting (book_order x b)"
      using index_okD [OF inv, of i y] E x(2) by cases (auto simp: final b' obj that)
  qed
  have xs: "x \<notin> snd ` set (queue_of (bids b))" "x \<notin> snd ` set (queue_of (asks b))"
    using x by (auto simp: resting_def)
  have "book_inv {} (book_order x b) \<and> book_abs (book_order x b) =
      (if getBuySell (obj b x) = BUY
       then (book_abs b)\<lparr>bid_queue :=
              insert_behind std_greater e_price (entry b x) (bid_queue (book_abs b))\<rparr>
       else (book_abs b)\<lparr>ask_queue :=
              insert_behind std_less e_price (entry b x) (ask_queue (book_abs b))\<rparr>)"
  proof (cases "getBuySell (obj b x) = BUY")
    case True
    have m: "bids (book_order x b) = push_back_at std_greater ?p x (bids b)"
      "asks (book_order x b) = asks b"
      using True by (simp_all add: book_order_def Let_def frame_simps)
    have q: "queue_of (bids (book_order x b)) =
        insert_behind std_greater fst (?p, x) (queue_of (bids b))"
      using B by (simp add: m bid.queue_of_push_back_at side_ok_def)
    have "uncrossed (book_order x b)"
      using inv buy [OF True] by (simp add: uncrossed_def book_inv_def q m(2))
    moreover have "resting (book_order x b) = insert x (resting b)"
      by (auto simp: resting_def q m(2))
    ultimately show ?thesis
      using bid.side_ok_push [OF B xs(1) ok [unfolded True]] A True index
      by (simp add: book_inv_def book_abs_def m cong qs)
  next
    case False
    with side have S: "getBuySell (obj b x) = SELL" by simp
    have m: "asks (book_order x b) = push_back_at std_less ?p x (asks b)"
      "bids (book_order x b) = bids b"
      using S by (simp_all add: book_order_def Let_def frame_simps)
    have q: "queue_of (asks (book_order x b)) =
        insert_behind std_less fst (?p, x) (queue_of (asks b))"
      using A by (simp add: m ask.queue_of_push_back_at side_ok_def)
    have "uncrossed (book_order x b)"
      using inv sell [OF S] by (simp add: uncrossed_def book_inv_def q m(2))
    moreover have "resting (book_order x b) = insert x (resting b)"
      by (auto simp: resting_def q m(2))
    ultimately show ?thesis
      using ask.side_ok_push [OF A xs(2) ok [unfolded S]] B S index
      by (simp add: book_inv_def book_abs_def m cong qs)
  qed
  then show "book_inv {} (book_order x b)"
    and "book_abs (book_order x b) =
      (if getBuySell (obj b x) = BUY
       then (book_abs b)\<lparr>bid_queue :=
              insert_behind std_greater e_price (entry b x) (bid_queue (book_abs b))\<rparr>
       else (book_abs b)\<lparr>ask_queue :=
              insert_behind std_less e_price (entry b x) (ask_queue (book_abs b))\<rparr>)"
    by blast+
qed

end
