(* ===== verification/Orderbook_Operations.thy ===== *)
theory Orderbook_Operations
  imports Orderbook_Invariant
begin

text \<open>
  The public operations of the \<open>Orderbook\<close>: \<open>AddOrder\<close>, \<open>ModifyOrder\<close> and \<open>CancelOrder\<close>
  keep the book well formed and refine \<open>spec_add\<close> and \<open>spec_cancel\<close>; the best bid and ask
  are those of the abstract book as long as a level's total fits 32 bits.
\<close>

section \<open>addToBook\<close>

lemma book_fields_cong [simp]:
  "book_inv E (b\<lparr>trades := t\<rparr>) = book_inv E b"
  "book_abs (b\<lparr>trades := t\<rparr>) = book_abs b"
  "resting (b\<lparr>trades := t\<rparr>) = resting b"
  by (simp_all add: book_inv_def side_ok_def resting_ok_def index_ok_def uncrossed_def
      book_abs_def entries_def entry_def resting_def frame_simps)

text \<open>A remainder is only left when the best contra price does not cross.\<close>

lemma remainder_uncrossed:
  assumes inv: "book_inv E b1" and rm: "refines_match ord r b b1 fs" and r: "r \<noteq> 0"
    and ord: "\<not> isAggressiveOrder ord"
  shows "getBuySell ord = BUY \<Longrightarrow> \<forall>f\<in>set (queue_of (asks b1)). sint (getPrice ord) < sint (fst f)"
    and "getBuySell ord = SELL \<Longrightarrow> \<forall>e\<in>set (queue_of (bids b1)). sint (fst e) < sint (getPrice ord)"
proof -
  note B = book_inv_sides(1) [OF inv] and A = book_inv_sides(2) [OF inv]
  have pos: "0 < unat r" using r by (simp add: unat_gt_0)
  {
    assume side: "getBuySell ord = BUY"
    with rm have "spec_match (crossed ord) (unat (getQuantity ord)) (ask_queue (book_abs b)) =
        (fs, unat r, ask_queue (book_abs b1))"
      by (simp add: refines_match_def)
    note spec_match_exhausts [OF this pos]
    with side ord side_okD(1) [OF A]
    show "\<forall>f\<in>set (queue_of (asks b1)). sint (getPrice ord) < sint (fst f)"
      using ask.sorted_queue_of [of "asks b1"] A
      by (cases "queue_of (asks b1)")
        (fastforce simp: book_abs_def entry_def crossed_def priceCrossed_def isAggressiveOrder_def
          side_ok_def std_less_def)+
  next
    assume side: "getBuySell ord = SELL"
    with rm have "spec_match (crossed ord) (unat (getQuantity ord)) (bid_queue (book_abs b)) =
        (fs, unat r, bid_queue (book_abs b1))"
      by (simp add: refines_match_def)
    note spec_match_exhausts [OF this pos]
    with side ord side_okD(1) [OF B]
    show "\<forall>e\<in>set (queue_of (bids b1)). sint (fst e) < sint (getPrice ord)"
      using bid.sorted_queue_of [of "bids b1"] B
      by (cases "queue_of (bids b1)")
        (fastforce simp: book_abs_def entry_def crossed_def priceCrossed_def isAggressiveOrder_def
          side_ok_def std_greater_def)+
  }
qed

text \<open>The quantity and status that \<open>addToBook\<close> leaves in the incoming order.\<close>

definition final_order :: "Order \<Rightarrow> Quantity \<Rightarrow> Order" where
  "final_order ord remaining =
     (if remaining = 0 then ord\<lparr>getQuantity := 0, getOrderStatus := TRADED\<rparr>
      else if isAggressiveOrder ord then ord\<lparr>getQuantity := 0, getOrderStatus := CANCELLED\<rparr>
      else ord\<lparr>getQuantity := remaining,
               getOrderStatus := (if remaining < getQuantity ord \<or> getOrderStatus ord = MODIFY
                                  then MODIFY else NEW)\<rparr>)"

definition insertable :: "OrderPointer \<Rightarrow> Orderbook \<Rightarrow> bool" where
  "insertable x b \<longleftrightarrow>
     store b x \<noteq> None \<and> x \<notin> resting b \<and> 0 < getQuantity (obj b x) \<and>
     (getBuySell (obj b x) = BUY \<or> getBuySell (obj b x) = SELL) \<and>
     (orders b (getOrderId (obj b x)) = None \<or>
      \<not> isAggressiveOrder (obj b x) \<and> orders b (getOrderId (obj b x)) = Some x)"

definition refines_add :: "OrderPointer \<Rightarrow> Orderbook \<Rightarrow> Orderbook \<Rightarrow> Fill list \<Rightarrow> Quantity \<Rightarrow> bool" where
  "refines_add x b b' fs r \<longleftrightarrow>
     (let ord = obj b x in
      spec_add (getBuySell ord) (crossed ord) (\<not> isAggressiveOrder ord) (entry b x) (book_abs b) =
        (fs, unat r, book_abs b') \<and>
      trades b' = map (trade_of (getBuySell ord) (getOrderId ord)) fs \<and>
      obj b' x = final_order ord r)"

lemma update_obj_twice:
  "update_obj x g (update_obj x f b) = update_obj x (\<lambda>ord. g (f ord)) b"
  by (simp add: update_obj_def obj_def)

lemma addToBook_cases:
  assumes st: "store b x = Some ord" and mo: "match_order ord (b\<lparr>trades := []\<rparr>) = (r, b1)"
    and st1: "store b1 x = Some ord" and pos: "0 < getQuantity ord"
  obtains f where "f ord = final_order ord r" and "\<And>o'. getOrderId (f o') = getOrderId o'"
    and "addToBook x b =
      (if r = 0 then clearOrderRecord (getOrderId ord) (update_obj x f b1)
       else if isAggressiveOrder ord then update_obj x f b1
       else book_order x (update_obj x f b1))"
proof -
  have ord: "obj b1 x = ord" using st1 by (simp add: obj_def)
  note unf = addToBook_def Let_def frame_simps order_defs ord update_obj_twice st mo
  consider "r = 0" | "r \<noteq> 0" "isAggressiveOrder ord" | "r \<noteq> 0" "\<not> isAggressiveOrder ord"
    "r < getQuantity ord \<or> getOrderStatus ord \<noteq> MODIFY"
    | "r \<noteq> 0" "\<not> isAggressiveOrder ord" "\<not> r < getQuantity ord" "getOrderStatus ord = MODIFY"
    by blast
  then show thesis
  proof cases
    case 1
    then show ?thesis
      using pos by (intro that [of "\<lambda>o'. o'\<lparr>getQuantity := 0, getOrderStatus := TRADED\<rparr>"])
        (simp_all add: unf final_order_def)
  next
    case 2
    then show ?thesis
      by (intro that [of "\<lambda>o'. o'\<lparr>getOrderStatus := CANCELLED, getQuantity := 0\<rparr>"])
        (auto simp add: unf final_order_def)
  next
    case 3
    then show ?thesis
      by (intro that [of "\<lambda>o'. o'\<lparr>getQuantity := r,
            getOrderStatus := getOrderStatus (final_order ord r)\<rparr>"])
        (auto simp add: unf final_order_def word_neq_0_conv)
  next
    case 4
    then show ?thesis
      by (intro that [of "setQuantity r"])
        (auto simp add: unf final_order_def word_neq_0_conv)
  qed
qed


lemma final_order_terms [simp]:
  "same_terms ord (final_order ord r)"
  "isAggressiveOrder (final_order ord r) = isAggressiveOrder ord"
  by (simp_all add: final_order_def same_terms_def isAggressiveOrder_def)

lemma final_order_same:
  "getOrderId (final_order ord r) = getOrderId ord" "getPrice (final_order ord r) = getPrice ord"
  "getBuySell (final_order ord r) = getBuySell ord"
  using final_order_terms(1) [of ord r] by (simp_all add: same_terms_def)

text \<open>
  The three endings of \<open>addToBook\<close> over the matched book: nothing left, a remainder that may
  not rest, a remainder that is booked.
\<close>

lemma spec_add_matched:
  assumes rm: "refines_match ord r b b1 fs"
    and e: "e_qty e = unat (getQuantity ord)"
  shows "spec_add (getBuySell ord) (crossed ord) rests e (book_abs b) =
    (fs, unat r,
     if \<not> (rests \<and> r \<noteq> 0) then book_abs b1
     else if getBuySell ord = BUY
     then (book_abs b1)\<lparr>bid_queue :=
            insert_behind std_greater e_price (e\<lparr>e_qty := unat r\<rparr>) (bid_queue (book_abs b1))\<rparr>
     else (book_abs b1)\<lparr>ask_queue :=
            insert_behind std_less e_price (e\<lparr>e_qty := unat r\<rparr>) (ask_queue (book_abs b1))\<rparr>)"
proof (cases "book_abs b")
  case b: (fields bq aq)
  show ?thesis
  proof (cases "book_abs b1")
    case (fields bq1 aq1)
    with rm b show ?thesis
      by (auto simp: spec_add_def refines_match_def e unat_gt_0 unat_eq_0 split: if_splits)
  qed
qed

lemma book_order_frame:
  "obj (book_order x b) = obj b" "trades (book_order x b) = trades b"
  "store (book_order x b) = store b"
  by (simp_all add: book_order_def Let_def frame_simps)

lemma addToBook_keeps:
  assumes inv: "book_inv E b" and E: "E \<subseteq> {x}" and ins: "insertable x b"
  shows "book_inv {} (addToBook x b)" and "\<exists>fs r. refines_add x b (addToBook x b) fs r"
proof -
  obtain ord where st: "store b x = Some ord" using ins by (auto simp: insertable_def)
  then have ord: "obj b x = ord" by (simp add: obj_def)
  note ins' = ins [unfolded insertable_def ord]
  obtain r b1 where mo: "match_order ord (b\<lparr>trades := []\<rparr>) = (r, b1)" by force
  have side: "getBuySell ord = BUY \<or> getBuySell ord = SELL" using ins' by simp
  have inv': "book_inv E (b\<lparr>trades := []\<rparr>)" using inv by simp
  note inv1 = match_order_keeps(1) [OF inv' mo side]
  from match_order_keeps(2) [OF inv' mo side] obtain fs
    where rm: "refines_match ord r (b\<lparr>trades := []\<rparr>) b1 fs" by blast
  from match_order_keeps(3) [OF inv' mo side] have st1: "store b1 x = Some ord" and
    x1: "x \<notin> resting b1" and idx1: "orders b1 i = Some y \<Longrightarrow> orders b i = Some y" for i y
    using ins' st by (auto simp: shrinks_def)
  from st mo st1 obtain f where f: "f ord = final_order ord r" "\<And>o'. getOrderId (f o') = getOrderId o'"
    and out: "addToBook x b =
      (if r = 0 then clearOrderRecord (getOrderId ord) (update_obj x f b1)
       else if isAggressiveOrder ord then update_obj x f b1
       else book_order x (update_obj x f b1))"
    using ins' by (auto elim: addToBook_cases)
  define b2 where "b2 = update_obj x f b1"
  have o2: "obj b2 x = final_order ord r" "store b2 x \<noteq> None" and ids2: "orders b2 = orders b1"
    using st1 f by (simp_all add: b2_def frame_simps) (simp_all add: obj_def)
  have inv2: "book_inv E b2" "book_abs b2 = book_abs b1" "x \<notin> resting b2" and trades2: "trades b2 = trades b1"
    using book_inv_update_obj [OF inv1 x1 _ f(2)] st1 x1 by (simp_all add: b2_def frame_simps)
  note spec = spec_add_matched [OF rm, of "entry b x", unfolded book_fields_cong]
  have tr: "trades b1 = map (trade_of (getBuySell ord) (getOrderId ord)) fs"
    using rm by (simp add: refines_match_def)
  have e: "e_qty (entry b x) = unat (getQuantity ord)" by (simp add: entry_def ord)
  have idx2: "orders b2 (getOrderId ord) = None \<or> 
      \<not> isAggressiveOrder ord \<and> orders b2 (getOrderId ord) = Some x"
    using ins' idx1 ids2 by (cases "orders b2 (getOrderId ord)") auto
  have "book_inv {} (addToBook x b) \<and> refines_add x b (addToBook x b) fs r"
  proof -
    consider "r = 0" | "r \<noteq> 0" "isAggressiveOrder ord" | "r \<noteq> 0" "\<not> isAggressiveOrder ord" by blast
    then show ?thesis
    proof cases
      case 1
      with out have out: "addToBook x b = clearOrderRecord (getOrderId ord) b2" by (simp add: b2_def)
      have "getOrderId (obj b2 x) = getOrderId ord" by (simp add: o2 final_order_same)
      from book_inv_clear [OF inv2(1) E inv2(3) this] idx2 1 spec [OF e] show ?thesis
        by (auto simp: refines_add_def Let_def ord out frame_simps o2 inv2 trades2 tr)
    next
      case 2
      with out have out: "addToBook x b = b2" by (simp add: b2_def)
      have "orders b2 (getOrderId (obj b2 x)) = None" using idx2 2 by (simp add: o2 final_order_same)
      from book_inv_unindexed [OF inv2(1) E this] 2 spec [OF e] show ?thesis
        by (simp add: refines_add_def Let_def ord out o2 inv2 trades2 tr)
    next
      case 3
      with out have out: "addToBook x b = book_order x b2" by (simp add: b2_def)
      have q2: "bids b2 = bids b1" "asks b2 = asks b1" by (simp_all add: b2_def frame_simps)
      have "0 < r" using 3 by (simp add: word_neq_0_conv)
      note keeps = book_order_keeps [OF inv2(1) E inv2(3) o2(2), unfolded o2(1) q2 final_order_same]
      have "entry b2 x = (entry b x)\<lparr>e_qty := unat r\<rparr>"
        using 3 by (simp add: entry_def ord o2 final_order_def)
      moreover have "0 < getQuantity (final_order ord r)"
        using 3 \<open>0 < r\<close> by (simp add: final_order_def)
      ultimately show ?thesis
        using keeps remainder_uncrossed [OF inv1 rm 3] 3 side idx2 spec [OF e] \<open>0 < r\<close>
        by (simp add: refines_add_def Let_def ord out book_order_frame o2 inv2 trades2 tr)
    qed
  qed
  then show "book_inv {} (addToBook x b)" "\<exists>fs r. refines_add x b (addToBook x b) fs r" by blast+
qed

section \<open>Taking an order off its level\<close>

lemma book_inv_cong:
  assumes "store b' = store b" "orders b' = orders b" "bids b' = bids b" "asks b' = asks b"
  shows "book_inv E b' = book_inv E b" and "book_abs b' = book_abs b" and "resting b' = resting b"
proof -
  have "obj b' = obj b" using assms(1) by (simp add: obj_def fun_eq_iff)
  with assms show "book_inv E b' = book_inv E b" "book_abs b' = book_abs b" "resting b' = resting b"
    by (simp_all add: book_inv_def side_ok_def resting_ok_def index_ok_def uncrossed_def
        book_abs_def entries_def entry_def resting_def)
qed

lemma release_level_frame [frame_simps]:
  "store (release_level ord b) = store b" "orders (release_level ord b) = orders b"
  "bids (release_level ord b) = bids b" "asks (release_level ord b) = asks b"
  "trades (release_level ord b) = trades b" "obj (release_level ord b) = obj b"
  by (simp_all add: release_level_def frame_simps)

lemma removeOrderFromBook_frame [frame_simps]:
  "store (removeOrderFromBook x b) = store b" "orders (removeOrderFromBook x b) = orders b"
  "trades (removeOrderFromBook x b) = trades b" "obj (removeOrderFromBook x b) = obj b"
  by (auto simp: removeOrderFromBook_def frame_simps split: option.split)

lemma erase_first_id_filter:
  "distinct xs \<Longrightarrow> \<forall>y\<in>set xs. getOrderId (obj b y) = i \<longleftrightarrow> y = x \<Longrightarrow>
   erase_first_id b i xs = filter (\<lambda>y. y \<noteq> x) xs"
proof (induction xs)
  case (Cons y ys)
  then show ?case
    by (cases "y = x") (auto intro!: filter_True [symmetric])
qed simp

lemma eraseFromBook_simps:
  "eraseFromBook b ord [] = []"
  "eraseFromBook b ord ((q, xs) # m) =
     (if q = getPrice ord
      then (let ys = erase_first_id b (getOrderId ord) xs in if ys = [] then m else (q, ys) # m)
      else (q, xs) # eraseFromBook b ord m)"
  by (auto simp: eraseFromBook_def Let_def split: option.split)

lemma eraseFromBook_keys: "l \<in> set (eraseFromBook b ord m) \<Longrightarrow> \<exists>l'\<in>set m. fst l' = fst l"
proof (induction m)
  case (Cons k m)
  then show ?case
    by (cases k) (fastforce simp: eraseFromBook_simps Let_def split: if_splits)
qed (simp add: eraseFromBook_simps)

lemma eraseFromBook_sorted:
  "sorted_keys cmp m \<Longrightarrow> sorted_keys cmp (eraseFromBook b ord m)"
proof (induction m)
  case (Cons l m)
  obtain q xs where l: "l = (q, xs)" by force
  have "cmp q (fst k)" if "k \<in> set (eraseFromBook b ord m)" for k
    using Cons.prems eraseFromBook_keys [OF that] by (auto simp: l)
  with Cons show ?case
    by (auto simp: l eraseFromBook_simps Let_def)
qed (simp add: eraseFromBook_simps)

lemma eraseFromBook_no_empty:
  "no_empty_level m \<Longrightarrow> no_empty_level (eraseFromBook b ord m)"
  by (induction m) (auto simp: eraseFromBook_simps Let_def)

lemma eraseFromBook_queue:
  assumes "distinct (map fst m)" and "distinct (map snd (queue_of m))"
    and "\<forall>z\<in>set (queue_of m). getPrice (obj b (snd z)) = fst z"
    and "\<forall>z\<in>set (queue_of m). getOrderId (obj b (snd z)) = getOrderId (obj b x) \<longleftrightarrow> snd z = x"
  shows "queue_of (eraseFromBook b (obj b x) m) = filter (\<lambda>z. snd z \<noteq> x) (queue_of m)"
  using assms
proof (induction m)
  case (Cons l m)
  obtain q xs where l: "l = (q, xs)" by force
  have level: "\<forall>y\<in>set xs. getPrice (obj b y) = q"
    "\<forall>y\<in>set xs. getOrderId (obj b y) = getOrderId (obj b x) \<longleftrightarrow> y = x" "distinct xs"
    using Cons.prems(2-4) by (simp_all add: l distinct_map ball_Un)
  have IH: "queue_of (eraseFromBook b (obj b x) m) = filter (\<lambda>z. snd z \<noteq> x) (queue_of m)"
    using Cons by (simp add: l)
  show ?case
  proof (cases "q = getPrice (obj b x)")
    case True
    have "\<forall>z\<in>set (queue_of m). fst z \<noteq> q"
      using Cons.prems(1) by (intro queue_of_all_keys) (force simp: l)
    with Cons.prems(3) True have "\<forall>z\<in>set (queue_of m). snd z \<noteq> x"
      by (force simp: l)
    then have "filter (\<lambda>z. snd z \<noteq> x) (queue_of m) = queue_of m" by simp
    with True erase_first_id_filter [OF level(3,2)] show ?thesis
      by (simp add: l eraseFromBook_simps Let_def filter_map o_def)
  next
    case False
    with level have "x \<notin> set xs" by auto
    with False IH show ?thesis
      by (auto simp: l eraseFromBook_simps intro!: filter_True [symmetric])
  qed
qed (simp add: eraseFromBook_simps)

lemma resting_id_iff:
  assumes inv: "book_inv E b" and i: "orders b i = Some x" and y: "y \<in> resting b"
  shows "getOrderId (obj b y) = i \<longleftrightarrow> y = x"
  using resting_indexed [OF inv y] index_okD [OF inv i] i by (metis option.inject)

lemma removeOrderFromBook_queues:
  assumes inv: "book_inv {} b" and i: "orders b i = Some x"
  shows "queue_of (bids (removeOrderFromBook x b)) = filter (\<lambda>z. snd z \<noteq> x) (queue_of (bids b))"
    and "queue_of (asks (removeOrderFromBook x b)) = filter (\<lambda>z. snd z \<noteq> x) (queue_of (asks b))"
proof -
  note B = book_inv_sides(1) [OF inv] and A = book_inv_sides(2) [OF inv]
  from index_okD [OF inv i] obtain ord where st: "store b x = Some ord"
    and x: "x \<in> resting b" and id: "getOrderId (obj b x) = i" by auto
  then have ord: "ord = obj b x" by (simp add: obj_def)
  have ids: "\<forall>z\<in>set (queue_of (bids b)) \<union> set (queue_of (asks b)).
      getOrderId (obj b (snd z)) = getOrderId (obj b x) \<longleftrightarrow> snd z = x"
    using resting_id_iff [OF inv i] id by (auto simp: resting_def)
  have side: "getBuySell (obj b (snd z)) = BUY" if "z \<in> set (queue_of (bids b))" for z
    using side_okD(2) [OF B that] .
  have side': "getBuySell (obj b (snd z)) = SELL" if "z \<in> set (queue_of (asks b))" for z
    using side_okD(2) [OF A that] .
  have erase: "queue_of (eraseFromBook b (obj b x) (bids b)) = filter (\<lambda>z. snd z \<noteq> x) (queue_of (bids b))"
    "queue_of (eraseFromBook b (obj b x) (asks b)) = filter (\<lambda>z. snd z \<noteq> x) (queue_of (asks b))"
    using A B ids side_okD(1) [OF A] side_okD(1) [OF B]
    by (auto intro!: eraseFromBook_queue simp: side_ok_def bid.sorted_distinct ask.sorted_distinct)
  have other: "getBuySell (obj b x) = BUY \<Longrightarrow> z \<in> set (queue_of (asks b)) \<Longrightarrow> snd z \<noteq> x"
    "getBuySell (obj b x) \<noteq> BUY \<Longrightarrow> z \<in> set (queue_of (bids b)) \<Longrightarrow> snd z \<noteq> x" for z
    using side [of z] side' [of z] by auto
  show "queue_of (bids (removeOrderFromBook x b)) = filter (\<lambda>z. snd z \<noteq> x) (queue_of (bids b))"
    and "queue_of (asks (removeOrderFromBook x b)) = filter (\<lambda>z. snd z \<noteq> x) (queue_of (asks b))"
    using erase other
    by (auto simp: removeOrderFromBook_def st ord intro!: filter_True [symmetric])
qed

lemma removeOrderFromBook_keeps:
  assumes inv: "book_inv {} b" and i: "orders b i = Some x"
  shows "book_inv {x} (removeOrderFromBook x b)"
    and "resting (removeOrderFromBook x b) = resting b - {x}"
    and "book_abs (removeOrderFromBook x b) = spec_cancel i (book_abs b)"
proof -
  let ?b = "removeOrderFromBook x b"
  note q = removeOrderFromBook_queues [OF inv i]
  show rest: "resting ?b = resting b - {x}" by (auto simp: resting_def q)
  have side: "side_ok cmp sd ?b m'"
    if "side_ok cmp sd b m" "m' = m \<or> (\<exists>ord. m' = eraseFromBook b ord m)"
      "queue_of m' = filter (\<lambda>z. snd z \<noteq> x) (queue_of m)" for cmp sd m m'
    using that by (auto simp: side_ok_def resting_ok_def frame_simps eraseFromBook_sorted
        eraseFromBook_no_empty distinct_map_filter)
  have "bids ?b = bids b \<or> (\<exists>ord. bids ?b = eraseFromBook b ord (bids b))"
    "asks ?b = asks b \<or> (\<exists>ord. asks ?b = eraseFromBook b ord (asks b))"
    by (auto simp: removeOrderFromBook_def split: option.split)
  then have "side_ok std_greater BUY ?b (bids ?b)" "side_ok std_less SELL ?b (asks ?b)"
    using side q book_inv_sides [OF inv] by blast+
  moreover have "index_ok {x} ?b"
    using index_okD [OF inv] by (intro index_okI) (auto simp: frame_simps rest)
  moreover have "uncrossed ?b" using inv by (simp add: book_inv_def uncrossed_def q)
  ultimately show "book_inv {x} ?b" by (simp add: book_inv_def)
  have "filter (\<lambda>z. snd z \<noteq> x) q = filter (\<lambda>z. getOrderId (obj b (snd z)) \<noteq> i) q"
    if "snd ` set q \<subseteq> resting b" for q
    using that resting_id_iff [OF inv i] by (intro filter_cong) auto
  from this [of "queue_of (bids b)"] this [of "queue_of (asks b)"] show "book_abs ?b = spec_cancel i (book_abs b)"
    by (simp add: book_abs_def spec_cancel_def q entries_def filter_map o_def entry_def
        frame_simps resting_def)
qed

section \<open>The public operations\<close>

lemma AddOrder_keeps:
  assumes "book_inv {} b" and "insertable x b"
  shows "book_inv {} (AddOrder x b)" and "\<exists>fs r. refines_add x b (AddOrder x b) fs r"
  using addToBook_keeps [OF assms(1) _ assms(2)] by (auto simp: AddOrder_def)

lemma CancelOrder_eq:
  "orders b i = Some x \<Longrightarrow> store b x = Some ord \<Longrightarrow>
   CancelOrder i b = clearOrderRecord i
     (update_obj x (\<lambda>o'. o'\<lparr>getQuantity := 0, getOrderStatus := CANCELLED\<rparr>)
       (removeOrderFromBook x (release_level ord b)))"
  by (simp add: CancelOrder_def Let_def update_obj_twice order_defs)

lemma CancelOrder_keeps:
  assumes inv: "book_inv {} b"
  shows "book_inv {} (CancelOrder i b)"
    and "book_abs (CancelOrder i b) = spec_cancel i (book_abs b)"
proof -
  have "book_inv {} (CancelOrder i b) \<and> book_abs (CancelOrder i b) = spec_cancel i (book_abs b)"
  proof (cases "orders b i")
    case None
    have "getOrderId (obj b y) \<noteq> i" if "y \<in> resting b" for y
      using resting_indexed [OF inv that] None by auto
    then show ?thesis
      using inv None by (auto simp: CancelOrder_def spec_cancel_def book_abs_def entries_def
          entry_def resting_def intro!: filter_True [symmetric])
  next
    case (Some x)
    from index_okD [OF inv Some] obtain ord where st: "store b x = Some ord"
      and id: "getOrderId (obj b x) = i" by auto
    let ?b = "release_level ord b"
    note cong = book_inv_cong [of ?b b, unfolded frame_simps, OF refl refl refl refl]
    have inv': "book_inv {} ?b" and i': "orders ?b i = Some x"
      using inv Some by (simp_all add: cong frame_simps)
    note rem = removeOrderFromBook_keeps [OF inv' i']
    have x: "x \<notin> resting (removeOrderFromBook x ?b)" "store (removeOrderFromBook x ?b) x \<noteq> None"
      using rem(2) st by (simp_all add: frame_simps)
    let ?f = "\<lambda>o'. o'\<lparr>getQuantity := 0, getOrderStatus := CANCELLED\<rparr>"
    note upd = book_inv_update_obj [OF rem(1) x, of ?f, simplified]
    have "book_inv {} (clearOrderRecord i (update_obj x ?f (removeOrderFromBook x ?b)))"
      "book_abs (clearOrderRecord i (update_obj x ?f (removeOrderFromBook x ?b))) =
       book_abs (update_obj x ?f (removeOrderFromBook x ?b))"
      using book_inv_clear [OF upd(1), of x i] upd(3) x(1) id Some
      by (simp_all add: frame_simps)
    then show ?thesis
      using upd(2) rem(3) cong(2) by (simp add: CancelOrder_eq [OF Some st])
  qed
  then show "book_inv {} (CancelOrder i b)"
    and "book_abs (CancelOrder i b) = spec_cancel i (book_abs b)" by blast+
qed

lemma CancelOrder_index:
  assumes "book_inv {} b"
  shows "orders (CancelOrder i b) = (orders b)(i := None)"
    and "orders b i = Some x \<Longrightarrow> getQuantity (obj (CancelOrder i b) x) = 0 \<and>
      getOrderStatus (obj (CancelOrder i b) x) = CANCELLED"
    and "orders b i = None \<Longrightarrow> CancelOrder i b = b"
proof -
  show "orders b i = None \<Longrightarrow> CancelOrder i b = b" by (simp add: CancelOrder_def)
  have some: "orders (CancelOrder i b) = (orders b)(i := None) \<and>
      getQuantity (obj (CancelOrder i b) y) = 0 \<and> getOrderStatus (obj (CancelOrder i b) y) = CANCELLED"
    if y: "orders b i = Some y" for y
  proof -
    obtain ord where "store b y = Some ord" using index_okD [OF assms y] by blast
    from CancelOrder_eq [OF y this] show ?thesis by (simp add: frame_simps)
  qed
  then show "orders b i = Some x \<Longrightarrow> getQuantity (obj (CancelOrder i b) x) = 0 \<and>
      getOrderStatus (obj (CancelOrder i b) x) = CANCELLED" by blast
  show "orders (CancelOrder i b) = (orders b)(i := None)"
    using some by (cases "orders b i") (auto simp: CancelOrder_def fun_upd_idem)
qed

text \<open>The order that \<open>ModifyOrder\<close> hands to \<open>addToBook\<close>.\<close>

definition modified_order :: "Price \<Rightarrow> Quantity \<Rightarrow> Order \<Rightarrow> Order" where
  "modified_order newPrice newQuantity ord =
     ord\<lparr>getPrice := newPrice, getQuantity := newQuantity, getOrderStatus := MODIFY\<rparr>"

lemma ModifyOrder_eq:
  "orders b i = Some x \<Longrightarrow> store b x = Some ord \<Longrightarrow>
   \<not> (getPrice ord = np \<and> getQuantity ord = nq) \<Longrightarrow>
   ModifyOrder i np nq b = addToBook x
     (update_obj x (modified_order np nq) (removeOrderFromBook x (release_level ord b)))"
  by (auto simp: ModifyOrder_def Let_def update_obj_twice order_defs modified_order_def [abs_def])

lemma ModifyOrder_noop:
  "orders b i = None \<Longrightarrow> ModifyOrder i np nq b = b"
  "orders b i = Some x \<Longrightarrow> store b x = Some ord \<Longrightarrow> getPrice ord = np \<Longrightarrow> getQuantity ord = nq \<Longrightarrow>
   ModifyOrder i np nq b = b"
  by (simp_all add: ModifyOrder_def)

lemma book_inv_obj_indexed:
  assumes inv: "book_inv {} b" and i: "orders b i = Some x"
  shows "store b x = Some (obj b x)" "getOrderId (obj b x) = i" "x \<in> resting b"
    "\<not> isAggressiveOrder (obj b x)" "getBuySell (obj b x) = BUY \<or> getBuySell (obj b x) = SELL"
    "0 < getQuantity (obj b x)"
proof -
  from index_okD [OF inv i] show "store b x = Some (obj b x)" "getOrderId (obj b x) = i"
    and x: "x \<in> resting b" by (auto simp: obj_def)
  then show "\<not> isAggressiveOrder (obj b x)" "getBuySell (obj b x) = BUY \<or> getBuySell (obj b x) = SELL"
    "0 < getQuantity (obj b x)"
    using side_okD [OF book_inv_sides(1) [OF inv]] side_okD [OF book_inv_sides(2) [OF inv]]
    by (auto simp: resting_def)
qed

text \<open>The state in which \<open>ModifyOrder\<close> calls \<open>addToBook\<close>: the order is off its level.\<close>

lemma modify_prepared:
  fixes np :: Price
  assumes inv: "book_inv {} b" and i: "orders b i = Some x" and nq: "0 < nq"
  defines "b3 \<equiv> update_obj x (modified_order np nq)
    (removeOrderFromBook x (release_level (obj b x) b))"
  shows "book_inv {x} b3" and "book_abs b3 = spec_cancel i (book_abs b)" and "insertable x b3"
    and "obj b3 x = modified_order np nq (obj b x)" and "orders b3 = orders b"
proof -
  note x = book_inv_obj_indexed [OF inv i]
  let ?b1 = "release_level (obj b x) b"
  let ?b2 = "removeOrderFromBook x ?b1"
  note cong = book_inv_cong [of ?b1 b, unfolded frame_simps, OF refl refl refl refl]
  have inv1: "book_inv {} ?b1" "orders ?b1 i = Some x"
    using inv i by (simp_all add: cong frame_simps)
  note rem = removeOrderFromBook_keeps [OF inv1]
  have out: "x \<notin> resting ?b2" "store ?b2 x \<noteq> None"
    using rem(2) x(1) by (simp_all add: frame_simps)
  have "getOrderId (modified_order np nq o') = getOrderId o'" for o'
    by (simp add: modified_order_def)
  note upd = book_inv_update_obj [OF rem(1) out this]
  show "book_inv {x} b3" unfolding b3_def by (rule upd(1))
  show "book_abs b3 = spec_cancel i (book_abs b)" by (simp add: b3_def upd(2) rem(3) cong(2))
  show ord: "obj b3 x = modified_order np nq (obj b x)" and os: "orders b3 = orders b"
    by (simp_all add: b3_def frame_simps)
  have "store b3 x \<noteq> None" by (simp add: b3_def frame_simps)
  moreover have "resting b3 = resting ?b2" by (simp add: b3_def upd(3))
  ultimately show "insertable x b3"
    using out(1) x i nq unfolding insertable_def ord os
    by (simp add: modified_order_def isAggressiveOrder_def)
qed

lemma ModifyOrder_changes:
  assumes inv: "book_inv {} b" and i: "orders b i = Some x" and nq: "0 < nq"
    and change: "\<not> (getPrice (obj b x) = np \<and> getQuantity (obj b x) = nq)"
  defines "ord \<equiv> modified_order np nq (obj b x)"
  shows "book_inv {} (ModifyOrder i np nq b)"
    and "\<exists>fs r. spec_add (getBuySell ord) (crossed ord) True
             \<lparr>e_price = np, e_id = i, e_qty = unat nq\<rparr> (spec_cancel i (book_abs b)) =
             (fs, unat r, book_abs (ModifyOrder i np nq b)) \<and>
           trades (ModifyOrder i np nq b) = map (trade_of (getBuySell ord) i) fs \<and>
           obj (ModifyOrder i np nq b) x = final_order ord r"
proof -
  let ?b3 = "update_obj x (modified_order np nq) (removeOrderFromBook x (release_level (obj b x) b))"
  note x = book_inv_obj_indexed [OF inv i]
  note pre = modify_prepared [OF inv i nq, of np]
  have terms: "getOrderId ord = i" "getPrice ord = np" "getQuantity ord = nq"
    "\<not> isAggressiveOrder ord"
    using x by (simp_all add: ord_def modified_order_def isAggressiveOrder_def)
  note add = addToBook_keeps [OF pre(1) _ pre(3)]
  have eq: "ModifyOrder i np nq b = addToBook x ?b3"
    using ModifyOrder_eq [OF i x(1) change] .
  show "book_inv {} (ModifyOrder i np nq b)" using add(1) by (simp add: eq)
  have "entry ?b3 x = \<lparr>e_price = np, e_id = i, e_qty = unat nq\<rparr>"
    using terms by (simp add: entry_def pre(4) ord_def)
  with add(2) terms show "\<exists>fs r. spec_add (getBuySell ord) (crossed ord) True
             \<lparr>e_price = np, e_id = i, e_qty = unat nq\<rparr> (spec_cancel i (book_abs b)) =
             (fs, unat r, book_abs (ModifyOrder i np nq b)) \<and>
           trades (ModifyOrder i np nq b) = map (trade_of (getBuySell ord) i) fs \<and>
           obj (ModifyOrder i np nq b) x = final_order ord r"
    by (simp add: eq refines_add_def Let_def pre(2,4) ord_def)
qed

lemma ModifyOrder_keeps:
  assumes inv: "book_inv {} b" and nq: "0 < nq"
  shows "book_inv {} (ModifyOrder i np nq b)"
proof (cases "orders b i")
  case None
  then show ?thesis using inv by (simp add: ModifyOrder_noop)
next
  case (Some x)
  show ?thesis
  proof (cases "getPrice (obj b x) = np \<and> getQuantity (obj b x) = nq")
    case True
    with inv Some book_inv_obj_indexed(1) [OF inv Some] show ?thesis
      by (simp add: ModifyOrder_noop(2))
  next
    case False
    show ?thesis using ModifyOrder_changes(1) [OF inv Some nq False] .
  qed
qed

section \<open>Best bid and ask\<close>

lemma foldl_plus_sum_list:
  "foldl (\<lambda>a x. a + f x) a xs = a + (\<Sum>x\<leftarrow>xs. f x)" for a :: "'a::comm_monoid_add"
  by (induction xs arbitrary: a) (simp_all add: add.assoc)

definition best_depth :: "Entry list \<Rightarrow> nat" where
  "best_depth es = depth (filter (\<lambda>e. e_price e = e_price (hd es)) es)"

lemma level_quantity_depth:
  "unat (level_quantity b xs) = depth (map (entry b) xs) mod 2 ^ 32"
proof -
  have "unat (foldl (\<lambda>q x. q + getQuantity (obj b x)) a xs) =
      (unat a + depth (map (entry b) xs)) mod 2 ^ 32" for a
  proof (induction xs arbitrary: a)
    case Nil
    have "unat a < 2 ^ LENGTH(32)" by (rule unsigned_less)
    then show ?case by simp
  qed (simp add: unat_word_ariths entry_def mod_simps add.assoc)
  then show ?thesis by (simp add: level_quantity_def)
qed

context price_order
begin

lemma best_level:
  assumes ok: "side_ok cmp side b ((p, xs) # m)"
  shows "filter (\<lambda>e. e_price e = p) (entries b (queue_of ((p, xs) # m))) = map (entry b) xs"
proof -
  have "\<forall>z\<in>set (queue_of m). fst z \<noteq> p"
    using ok irrefl by (intro queue_of_all_keys) (auto simp: side_ok_def)
  then have "filter (\<lambda>e. e_price e = p) (entries b (queue_of m)) = []"
    using side_okD(1) [OF ok] by (auto simp: entries_def entry_def filter_empty_conv)
  moreover have "filter (\<lambda>e. e_price e = p) (map (entry b) xs) = map (entry b) xs"
    using side_okD(1) [OF ok] by (auto simp: entry_def)
  ultimately show ?thesis by (simp add: entries_def o_def)
qed

lemma best_of_abs:
  assumes ok: "side_ok cmp side b m"
  shows "best_of b m =
    (case entries b (queue_of m) of
       [] \<Rightarrow> (False, 0, 0)
     | e # es \<Rightarrow> (let T = word_of_nat (best_depth (e # es)) in (T > 0, e_price e, T)))"
proof (cases m)
  case (Cons l m')
  obtain p xs where l: "l = (p, xs)" by force
  with ok Cons obtain x xs' where xs: "xs = x # xs'"
    by (cases xs) (auto simp: side_ok_def)
  have "e_price (entry b x) = p"
    using side_okD(1) [OF ok, of "(p, x)"] by (simp add: Cons l xs entry_def)
  then have "best_depth (entries b (queue_of m)) = depth (map (entry b) xs)"
    using best_level [OF ok [unfolded Cons l]] by (simp add: best_depth_def Cons l xs)
  then have "word_of_nat (best_depth (entries b (queue_of m))) = level_quantity b xs"
    by (intro word_unat_eq_iff [THEN iffD2]) (simp add: level_quantity_depth unat_of_nat)
  with \<open>e_price (entry b x) = p\<close> show ?thesis
    by (simp add: best_of_def Cons l xs Let_def)
qed (simp add: best_of_def)

end

lemma best_bid_abs:
  "book_inv E b \<Longrightarrow> GetBestBid b =
    (case bid_queue (book_abs b) of
       [] \<Rightarrow> (False, 0, 0)
     | e # es \<Rightarrow> (let T = word_of_nat (best_depth (e # es)) in (T > 0, e_price e, T)))"
  using bid.best_of_abs [OF book_inv_sides(1)] by (simp add: GetBestBid_def book_abs_def)

lemma best_ask_abs:
  "book_inv E b \<Longrightarrow> GetBestAsk b =
    (case ask_queue (book_abs b) of
       [] \<Rightarrow> (False, 0, 0)
     | e # es \<Rightarrow> (let T = word_of_nat (best_depth (e # es)) in (T > 0, e_price e, T)))"
  using ask.best_of_abs [OF book_inv_sides(2)] by (simp add: GetBestAsk_def book_abs_def)

lemma abs_positive:
  assumes "book_inv E b" and "e \<in> set (bid_queue (book_abs b)) \<union> set (ask_queue (book_abs b))"
  shows "0 < e_qty e"
proof -
  from assms(2) obtain z where "z \<in> set (queue_of (bids b)) \<union> set (queue_of (asks b))"
    and e: "e = entry b (snd z)" by (auto simp: book_abs_def entries_def)
  then have "0 < getQuantity (obj b (snd z))"
    using side_okD(3) [OF book_inv_sides(1) [OF assms(1)]]
      side_okD(3) [OF book_inv_sides(2) [OF assms(1)]] by blast
  then show ?thesis by (simp add: e entry_def unat_pos_word)
qed

definition best_quote :: "Entry list \<Rightarrow> Price \<times> Quantity" where
  "best_quote es = (if es = [] then (0, 0) else (e_price (hd es), word_of_nat (best_depth es)))"

lemma GetBestBidAsk_quotes:
  assumes "book_inv E b"
    and "best_depth (bid_queue (book_abs b)) < 2 ^ 32"
    and "best_depth (ask_queue (book_abs b)) < 2 ^ 32"
  shows "GetBestBidAsk b = (bid_queue (book_abs b) \<noteq> [] \<or> ask_queue (book_abs b) \<noteq> [],
      best_quote (bid_queue (book_abs b)), best_quote (ask_queue (book_abs b)))"
proof -
  have pos: "(0::Quantity) < word_of_nat (best_depth (e # es))"
    if "0 < e_qty e" "best_depth (e # es) < 2 ^ 32" for e es
  proof -
    have "0 < best_depth (e # es)" using that(1) by (simp add: best_depth_def)
    with that(2) have "0 < unat (word_of_nat (best_depth (e # es)) :: Quantity)"
      by (simp add: unat_of_nat)
    then show ?thesis by (simp add: unat_pos_word)
  qed
  have B: "GetBestBid b = (bid_queue (book_abs b) \<noteq> [], best_quote (bid_queue (book_abs b)))"
  proof (cases "bid_queue (book_abs b)")
    case (Cons e es)
    with abs_positive [OF assms(1), of e] pos [of e es] assms(2) show ?thesis
      by (simp add: best_bid_abs [OF assms(1)] best_quote_def Let_def)
  qed (simp add: best_bid_abs [OF assms(1)] best_quote_def)
  have A: "GetBestAsk b = (ask_queue (book_abs b) \<noteq> [], best_quote (ask_queue (book_abs b)))"
  proof (cases "ask_queue (book_abs b)")
    case (Cons e es)
    with abs_positive [OF assms(1), of e] pos [of e es] assms(3) show ?thesis
      by (simp add: best_ask_abs [OF assms(1)] best_quote_def Let_def)
  qed (simp add: best_ask_abs [OF assms(1)] best_quote_def)
  show ?thesis
    by (auto simp: GetBestBidAsk_def A B best_quote_def split: prod.split)
qed

section \<open>What the invariant says of the abstract book\<close>

lemma abs_uncrossed:
  assumes "book_inv E b" and "e \<in> set (bid_queue (book_abs b))" and "f \<in> set (ask_queue (book_abs b))"
  shows "sint (e_price e) < sint (e_price f)"
proof -
  from assms(2,3) obtain y z where "y \<in> set (queue_of (bids b))" "z \<in> set (queue_of (asks b))"
    and "e = entry b (snd y)" "f = entry b (snd z)" by (auto simp: book_abs_def entries_def)
  with side_okD(1) [OF book_inv_sides(1) [OF assms(1)]] side_okD(1) [OF book_inv_sides(2) [OF assms(1)]]
    assms(1)
  show ?thesis by (simp add: book_inv_def uncrossed_def entry_def)
qed

context price_order
begin

lemma entries_sorted:
  assumes "side_ok cmp side b m"
  shows "sorted_wrt (\<lambda>e f. \<not> cmp (e_price f) (e_price e)) (entries b (queue_of m))"
proof -
  have "sorted_wrt (\<lambda>p q. \<not> cmp q p) (map fst (queue_of m))"
    unfolding sorted_wrt_map by (rule sorted_queue_of) (use assms in \<open>simp add: side_ok_def\<close>)
  moreover have "map e_price (entries b (queue_of m)) = map fst (queue_of m)"
    using side_okD(1) [OF assms] by (auto simp: entries_def entry_def)
  ultimately have "sorted_wrt (\<lambda>p q. \<not> cmp q p) (map e_price (entries b (queue_of m)))" by argo
  then show ?thesis unfolding sorted_wrt_map .
qed

end

lemma abs_sorted:
  assumes "book_inv E b"
  shows "sorted_wrt (\<lambda>e f. sint (e_price f) \<le> sint (e_price e)) (bid_queue (book_abs b))"
    and "sorted_wrt (\<lambda>e f. sint (e_price e) \<le> sint (e_price f)) (ask_queue (book_abs b))"
  using bid.entries_sorted [OF book_inv_sides(1) [OF assms]]
    ask.entries_sorted [OF book_inv_sides(2) [OF assms]]
  by (simp_all add: book_abs_def std_less_def std_greater_def not_less)

lemma best_quote_extreme:
  assumes "book_inv E b"
  shows "e \<in> set (bid_queue (book_abs b)) \<Longrightarrow>
      sint (e_price e) \<le> sint (fst (best_quote (bid_queue (book_abs b))))"
    and "e \<in> set (ask_queue (book_abs b)) \<Longrightarrow>
      sint (fst (best_quote (ask_queue (book_abs b)))) \<le> sint (e_price e)"
proof -
  show "sint (e_price e) \<le> sint (fst (best_quote (bid_queue (book_abs b))))"
    if "e \<in> set (bid_queue (book_abs b))"
    using abs_sorted(1) [OF assms] that by (cases "bid_queue (book_abs b)") (auto simp: best_quote_def)
  show "sint (fst (best_quote (ask_queue (book_abs b)))) \<le> sint (e_price e)"
    if "e \<in> set (ask_queue (book_abs b))"
    using abs_sorted(2) [OF assms] that by (cases "ask_queue (book_abs b)") (auto simp: best_quote_def)
qed

lemma abs_ids_distinct:
  assumes "book_inv E b"
  shows "distinct (map e_id (bid_queue (book_abs b) @ ask_queue (book_abs b)))"
proof -
  let ?xs = "map snd (queue_of (bids b) @ queue_of (asks b))"
  have rest: "set ?xs = resting b" by (simp add: resting_def image_Un)
  have "distinct ?xs"
    using book_inv_sides [OF assms] sides_disjoint [OF assms] by (simp add: side_ok_def)
  moreover have "inj_on (\<lambda>x. getOrderId (obj b x)) (set ?xs)"
    unfolding rest
  proof (rule inj_onI)
    fix x y assume x: "x \<in> resting b" and y: "y \<in> resting b"
      and eq: "getOrderId (obj b x) = getOrderId (obj b y)"
    have "Some x = Some y"
      using resting_indexed [OF assms x] resting_indexed [OF assms y] unfolding eq by (rule trans [OF sym])
    then show "x = y" by simp
  qed
  ultimately have "distinct (map (\<lambda>x. getOrderId (obj b x)) ?xs)"
    unfolding distinct_map by blast
  then show ?thesis by (simp add: book_abs_def entries_def entry_def o_def)
qed

end
