(* ===== verification/Book_Interface.thy ===== *)
theory Book_Interface
  imports Orderbook_Operations
begin

text \<open>
  The contract between the order book and its callers: a state with an abstract book, an
  operation that adds an order and one that cancels an order. What callers rely on (quantity is
  conserved, executions respect limit and priority, cancelling removes exactly one order) is
  proved once against the contract; the interpretation \<open>ob\<close> discharges it for \<open>Orderbook\<close>.
\<close>

section \<open>The contract\<close>

type_synonym Execution = "Price \<times> OrderId \<times> nat"

definition execution :: "Fill \<Rightarrow> Execution" where
  "execution f = (f_price f, f_id f, f_qty f)"

definition own_queue :: "BuySell \<Rightarrow> Book \<Rightarrow> Entry list" where
  "own_queue side B = (if side = BUY then bid_queue B else ask_queue B)"

definition contra_queue :: "BuySell \<Rightarrow> Book \<Rightarrow> Entry list" where
  "contra_queue side B = (if side = BUY then ask_queue B else bid_queue B)"

definition executed_total :: "Execution list \<Rightarrow> nat" where
  "executed_total xs = (\<Sum>x\<leftarrow>xs. snd (snd x))"

lemma executed_total_execution [simp]: "executed_total (map execution fs) = filled fs"
  by (induction fs) (simp_all add: executed_total_def execution_def)

text \<open>What adding an order of quantity \<open>e_qty e\<close> does to the two sides.\<close>

lemma depth_insert_behind:
  "depth (insert_behind cmp e_price e es) = e_qty e + depth es"
  by (induction es) (simp_all add: insert_behind_def depth_def)

lemma spec_add_queues:
  assumes "spec_add side crosses rests e B = (fs, r, B')"
  shows "spec_match crosses (e_qty e) (contra_queue side B) = (fs, r, contra_queue side B')"
    and "own_queue side B' =
      (if rests \<and> 0 < r
       then insert_behind (if side = BUY then std_greater else std_less) e_price
              (e\<lparr>e_qty := r\<rparr>) (own_queue side B)
       else own_queue side B)"
  using assms by (auto simp: spec_add_def own_queue_def contra_queue_def split: prod.splits if_splits)

lemma spec_add_conserves:
  assumes "spec_add side crosses rests e B = (fs, r, B')"
  shows "filled fs + r = e_qty e"
    and "filled fs + depth (contra_queue side B') = depth (contra_queue side B)"
    and "depth (own_queue side B') = depth (own_queue side B) + (if rests then r else 0)"
  using spec_match_conserves [OF spec_add_queues(1) [OF assms]] spec_add_queues(2) [OF assms]
  by (auto simp: depth_insert_behind)

locale price_time_book =
  fixes inv :: "'b \<Rightarrow> bool"
    and abs_book :: "'b \<Rightarrow> Book"
    and add :: "'x \<Rightarrow> 'b \<Rightarrow> 'b"
    and cancel :: "OrderId \<Rightarrow> 'b \<Rightarrow> 'b"
    and accepts :: "'x \<Rightarrow> 'b \<Rightarrow> bool"
    and side_of :: "'x \<Rightarrow> 'b \<Rightarrow> BuySell"
    and crosses :: "'x \<Rightarrow> 'b \<Rightarrow> Price \<Rightarrow> bool"
    and rests :: "'x \<Rightarrow> 'b \<Rightarrow> bool"
    and newcomer :: "'x \<Rightarrow> 'b \<Rightarrow> Entry"
    and executions :: "BuySell \<Rightarrow> 'b \<Rightarrow> Execution list"
  assumes add_inv: "inv b \<Longrightarrow> accepts x b \<Longrightarrow> inv (add x b)"
    and add_spec: "inv b \<Longrightarrow> accepts x b \<Longrightarrow>
      \<exists>fs r. spec_add (side_of x b) (crosses x b) (rests x b) (newcomer x b) (abs_book b) =
               (fs, r, abs_book (add x b)) \<and>
             executions (side_of x b) (add x b) = map execution fs"
    and cancel_inv: "inv b \<Longrightarrow> inv (cancel i b)"
    and cancel_spec: "inv b \<Longrightarrow> abs_book (cancel i b) = spec_cancel i (abs_book b)"
begin

lemma add_conserves:
  assumes "inv b" and "accepts x b"
  defines "s \<equiv> side_of x b" and "b' \<equiv> add x b"
  shows "executed_total (executions s b') + depth (contra_queue s (abs_book b')) =
      depth (contra_queue s (abs_book b))"
    and "executed_total (executions s b') \<le> e_qty (newcomer x b)"
    and "depth (own_queue s (abs_book b')) =
      depth (own_queue s (abs_book b)) +
        (if rests x b then e_qty (newcomer x b) - executed_total (executions s b') else 0)"
proof -
  obtain fs r where spec: "spec_add s (crosses x b) (rests x b) (newcomer x b) (abs_book b) =
      (fs, r, abs_book b')" and ex: "executions s b' = map execution fs"
    using add_spec [OF assms(1,2)] by (auto simp: s_def b'_def)
  note cons = spec_add_conserves [OF spec]
  then show "executed_total (executions s b') + depth (contra_queue s (abs_book b')) =
      depth (contra_queue s (abs_book b))"
    and "executed_total (executions s b') \<le> e_qty (newcomer x b)"
    and "depth (own_queue s (abs_book b')) =
      depth (own_queue s (abs_book b)) +
        (if rests x b then e_qty (newcomer x b) - executed_total (executions s b') else 0)"
    by (auto simp: ex)
qed

text \<open>
  Price-time priority of the executions: they name a prefix of the contra queue in queue order,
  at those orders' own prices, each of which crosses; only the last may be partial.
\<close>

lemma add_priority:
  assumes "inv b" and "accepts x b"
  defines "xs \<equiv> executions (side_of x b) (add x b)"
    and "es \<equiv> contra_queue (side_of x b) (abs_book b)"
  shows "map (\<lambda>(p, i, q). (p, i)) xs = map (\<lambda>e. (e_price e, e_id e)) (take (length xs) es)"
    and "\<forall>k. Suc k < length xs \<longrightarrow> snd (snd (xs ! k)) = e_qty (es ! k)"
    and "\<forall>(p, i, q) \<in> set xs. crosses x b p"
proof -
  obtain fs r B where sm: "spec_match (crosses x b) (e_qty (newcomer x b)) es = (fs, r, B)"
    and ex: "xs = map execution fs"
    using add_spec [OF assms(1,2)] spec_add_queues(1) unfolding es_def xs_def by blast
  note pre = spec_match_prefix [OF sm] and prices = spec_match_prices [OF sm]
  from pre have "zip (map f_price fs) (map f_id fs) =
      zip (map e_price (take (length fs) es)) (map e_id (take (length fs) es))" by simp
  then show "map (\<lambda>(p, i, q). (p, i)) xs = map (\<lambda>e. (e_price e, e_id e)) (take (length xs) es)"
    by (simp add: ex execution_def zip_map_map zip_same_conv_map o_def)
  show "\<forall>k. Suc k < length xs \<longrightarrow> snd (snd (xs ! k)) = e_qty (es ! k)"
    using pre by (simp add: ex execution_def)
  show "\<forall>(p, i, q) \<in> set xs. crosses x b p"
    using prices by (auto simp: ex execution_def)
qed

text \<open>After the order is handled nothing it may still trade with is at the front.\<close>

lemma add_exhausts:
  assumes "inv b" and "accepts x b"
    and "executed_total (executions (side_of x b) (add x b)) < e_qty (newcomer x b)"
  defines "es \<equiv> contra_queue (side_of x b) (abs_book (add x b))"
  shows "es = [] \<or> \<not> crosses x b (e_price (hd es))"
proof -
  obtain fs r where spec: "spec_add (side_of x b) (crosses x b) (rests x b) (newcomer x b)
      (abs_book b) = (fs, r, abs_book (add x b))"
    and ex: "executions (side_of x b) (add x b) = map execution fs"
    using add_spec [OF assms(1,2)] by blast
  from spec_add_conserves(1) [OF spec] assms(3) have "0 < r" by (simp add: ex)
  from spec_match_exhausts [OF spec_add_queues(1) [OF spec] this] show ?thesis
    by (simp add: es_def)
qed

lemma cancel_removes:
  assumes "inv b"
  shows "own_queue s (abs_book (cancel i b)) =
    filter (\<lambda>e. e_id e \<noteq> i) (own_queue s (abs_book b))"
  by (simp add: cancel_spec [OF assms] spec_cancel_def own_queue_def)

end

section \<open>The order book meets the contract\<close>

definition resting_side_id :: "BuySell \<Rightarrow> Trade \<Rightarrow> OrderId" where
  "resting_side_id side t = (if side = BUY then sellOrderId t else buyOrderId t)"

definition book_executions :: "BuySell \<Rightarrow> Orderbook \<Rightarrow> Execution list" where
  "book_executions side b =
     map (\<lambda>t. (tr_price t, resting_side_id side t, unat (tr_quantity t))) (trades b)"

lemma fill_le_filled: "f \<in> set fs \<Longrightarrow> f_qty f \<le> filled fs"
  by (induction fs) auto

lemma executions_trade_of:
  assumes "side = BUY \<or> side = SELL" and "filled fs < 2 ^ 32"
  shows "map (\<lambda>t. (tr_price t, resting_side_id side t, unat (tr_quantity t)))
      (map (trade_of side oid) fs) = map execution fs"
proof -
  have "unat (word_of_nat (f_qty f) :: 32 word) = f_qty f" if "f \<in> set fs" for f
    using fill_le_filled [OF that] assms(2) by (simp add: unat_of_nat)
  with assms(1) show ?thesis
    by (auto simp: trade_of_def execution_def resting_side_id_def)
qed

interpretation ob: price_time_book
  "book_inv {}" book_abs AddOrder CancelOrder insertable
  "\<lambda>x b. getBuySell (obj b x)" "\<lambda>x b. crossed (obj b x)"
  "\<lambda>x b. \<not> isAggressiveOrder (obj b x)" "\<lambda>x b. entry b x" book_executions
proof
  fix b x i
  assume inv: "book_inv {} b"
  show "book_inv {} (CancelOrder i b)" "book_abs (CancelOrder i b) = spec_cancel i (book_abs b)"
    using CancelOrder_keeps [OF inv] by blast+
  assume ins: "insertable x b"
  show "book_inv {} (AddOrder x b)" using AddOrder_keeps(1) [OF inv ins] .
  let ?ord = "obj b x"
  obtain fs r where ref: "refines_add x b (AddOrder x b) fs r"
    using AddOrder_keeps(2) [OF inv ins] by blast
  then have spec: "spec_add (getBuySell ?ord) (crossed ?ord) (\<not> isAggressiveOrder ?ord) (entry b x)
      (book_abs b) = (fs, unat r, book_abs (AddOrder x b))"
    and tr: "trades (AddOrder x b) = map (trade_of (getBuySell ?ord) (getOrderId ?ord)) fs"
    by (simp_all add: refines_add_def Let_def)
  have "unat (getQuantity ?ord) < 2 ^ LENGTH(32)" by (rule unsigned_less)
  with spec_add_conserves(1) [OF spec] have "filled fs < 2 ^ 32" by (simp add: entry_def)
  then have "book_executions (getBuySell ?ord) (AddOrder x b) = map execution fs"
    unfolding book_executions_def tr using ins
    by (intro executions_trade_of) (simp_all add: insertable_def)
  with spec show "\<exists>fs r. spec_add (getBuySell ?ord) (crossed ?ord) (\<not> isAggressiveOrder ?ord)
      (entry b x) (book_abs b) = (fs, r, book_abs (AddOrder x b)) \<and>
      book_executions (getBuySell ?ord) (AddOrder x b) = map execution fs"
    by blast
qed

section \<open>Reachable books\<close>

text \<open>
  A caller makes an \<open>Order\<close> object at a fresh address and hands it over. \<open>book_reachable\<close>
  are the states that such callers can bring about: order ids not in the index, positive
  quantities, and a side that is \<open>BUY\<close> or \<open>SELL\<close>, which is what the matching engine checks
  before it calls the book.
\<close>

definition new_order :: "OrderPointer \<Rightarrow> Order \<Rightarrow> Orderbook \<Rightarrow> Orderbook" where
  "new_order x ord b = b\<lparr>store := (store b)(x \<mapsto> ord)\<rparr>"

lemma new_order_frame [frame_simps]:
  "store (new_order x ord b) = (store b)(x \<mapsto> ord)" "orders (new_order x ord b) = orders b"
  "bids (new_order x ord b) = bids b" "asks (new_order x ord b) = asks b"
  "trades (new_order x ord b) = trades b" "resting (new_order x ord b) = resting b"
  "obj (new_order x ord b) y = (if y = x then ord else obj b y)"
  by (simp_all add: new_order_def resting_def obj_def)

lemma resting_stored: "book_inv E b \<Longrightarrow> x \<in> resting b \<Longrightarrow> store b x \<noteq> None"
  using side_okD(5) [OF book_inv_sides(1)] side_okD(5) [OF book_inv_sides(2)]
  unfolding resting_def by blast

lemma book_inv_new_order:
  assumes inv: "book_inv {} b" and fresh: "store b x = None"
  shows "book_inv {} (new_order x ord b)" and "book_abs (new_order x ord b) = book_abs b"
proof -
  have ne: "snd z \<noteq> x" if "z \<in> set (queue_of (bids b)) \<union> set (queue_of (asks b))" for z
    using resting_stored [OF inv, of "snd z"] that fresh by (auto simp: resting_def)
  then have "side_ok std_greater BUY (new_order x ord b) (bids b)"
    "side_ok std_less SELL (new_order x ord b) (asks b)"
    using book_inv_sides [OF inv]
    by (auto simp: side_ok_def resting_ok_def frame_simps)
  moreover have "index_ok {} (new_order x ord b)"
    using index_okD [OF inv] fresh by (intro index_okI) (fastforce simp: frame_simps)
  ultimately show "book_inv {} (new_order x ord b)"
    using inv by (simp add: book_inv_def uncrossed_def frame_simps)
  show "book_abs (new_order x ord b) = book_abs b"
    using ne by (force simp: book_abs_def frame_simps intro!: entries_cong)
qed

lemma insertable_new_order:
  assumes "book_inv {} b" and "store b x = None" and "orders b (getOrderId ord) = None"
    and "0 < getQuantity ord" and "getBuySell ord = BUY \<or> getBuySell ord = SELL"
  shows "insertable x (new_order x ord b)"
proof -
  have "x \<notin> resting b" using resting_stored [OF assms(1)] assms(2) by blast
  with assms(3-5) show ?thesis by (auto simp: insertable_def frame_simps)
qed

inductive book_reachable :: "Orderbook \<Rightarrow> bool" where
  reachable_empty: "book_reachable empty_orderbook"
| reachable_add: "book_reachable b \<Longrightarrow> store b x = None \<Longrightarrow> orders b (getOrderId ord) = None \<Longrightarrow>
    0 < getQuantity ord \<Longrightarrow> getBuySell ord = BUY \<or> getBuySell ord = SELL \<Longrightarrow>
    book_reachable (AddOrder x (new_order x ord b))"
| reachable_cancel: "book_reachable b \<Longrightarrow> book_reachable (CancelOrder i b)"
| reachable_modify: "book_reachable b \<Longrightarrow> 0 < nq \<Longrightarrow> book_reachable (ModifyOrder i np nq b)"
| reachable_clear: "book_reachable b \<Longrightarrow> book_reachable (ClearRecentTrades b)"

lemma reachable_book_inv: "book_reachable b \<Longrightarrow> book_inv {} b"
proof (induction rule: book_reachable.induct)
  case (reachable_add b x ord)
  then show ?case
    by (intro ob.add_inv book_inv_new_order insertable_new_order)
qed (simp_all add: book_inv_empty ob.cancel_inv ModifyOrder_keeps ClearRecentTrades_def)

end
