(* ===== verification/Book_Properties.thy ===== *)
theory Book_Properties
  imports Book_Interface
begin

text \<open>
  The properties of the \<open>Orderbook\<close>: what callers of the class rely on, stated over its own
  operations. The proofs apply the refinement lemmas of \<open>Orderbook_Operations\<close> and the client
  lemmas of the contract \<open>price_time_book\<close>. The example book has two sell orders at one price,
  the two-sided one a buy order below them.
\<close>

section \<open>A concrete book\<close>

definition example_order :: "BuySell \<Rightarrow> OrderType \<Rightarrow> Price \<Rightarrow> Quantity \<Rightarrow> OrderId \<Rightarrow> Order" where
  "example_order side type price qty oid =
     \<lparr>getPrice = price, getQuantity = qty, getTimestamp = 0, getOrderId = oid,
      getOrderType = type, getBuySell = side, getOrderStatus = NEW, getSessionId = 1,
      getClientOrderId = oid\<rparr>"

definition example_add ::
  "OrderPointer \<Rightarrow> BuySell \<Rightarrow> OrderType \<Rightarrow> Price \<Rightarrow> Quantity \<Rightarrow> Orderbook \<Rightarrow> Orderbook" where
  "example_add x side type price qty b =
     AddOrder x (new_order x (example_order side type price qty (word_of_nat x)) b)"

definition example_book :: Orderbook where
  "example_book = example_add 1 SELL LIMIT 101 5 (example_add 0 SELL LIMIT 101 3 empty_orderbook)"

lemmas example_simps = example_book_def example_add_def example_order_def new_order_def
  empty_orderbook_def AddOrder_def addToBook_def match_order_def book_order_def
  updateLevelOnAdd_def update_obj_def obj_def push_back_at_def order_defs
  std_less_def std_greater_def Let_def

lemma example_book_fields:
  "store example_book 2 = None" "orders example_book 2 = None"
  "asks example_book = [(101, [0, 1])]" "bids example_book = []"
  by (simp_all add: example_simps)

lemma example_book_index:
  "orders example_book 0 = Some 0" "orders example_book 7 = None"
  "getPrice (obj example_book 0) = 101" "getQuantity (obj example_book 0) = 3"
  "getBuySell (obj example_book 0) = SELL"
  by (simp_all add: example_simps)

lemma example_reachable: "book_reachable example_book"
  unfolding example_book_def example_add_def
  by (intro reachable_add reachable_empty) (simp_all add: example_simps)

lemmas example_book_inv = reachable_book_inv [OF example_reachable]

lemma example_insertable:
  assumes "0 < qty" and "side = BUY \<or> side = SELL"
  shows "insertable 2 (new_order 2 (example_order side type price qty 2) example_book)"
    and "book_inv {} (new_order 2 (example_order side type price qty 2) example_book)"
  using insertable_new_order [OF example_book_inv] book_inv_new_order [OF example_book_inv] assms
  by (simp_all add: example_book_fields example_order_def)

lemmas example_match_simps = priceCrossed_def execute_against_def updateLevelOnFill_def
  clearOrderRecord_def

section \<open>Price-time priority\<close>

text \<open>
  Property C1. \<open>AddOrder\<close> implements the price-time priority specification: the abstract book,
  the trades and the quantity and status left in the order are those of \<open>spec_add\<close>, for every
  well-formed book and every order type, and the book stays well formed.
\<close>

theorem AddOrder_price_time_priority:
  assumes "book_inv {} b" and "insertable x b"
  shows "\<exists>fs r.
    spec_add (getBuySell (obj b x)) (crossed (obj b x)) (\<not> isAggressiveOrder (obj b x))
      (entry b x) (book_abs b) = (fs, unat r, book_abs (AddOrder x b)) \<and>
    trades (AddOrder x b) = map (trade_of (getBuySell (obj b x)) (getOrderId (obj b x))) fs \<and>
    obj (AddOrder x b) x = final_order (obj b x) r \<and>
    book_inv {} (AddOrder x b)"
  using AddOrder_keeps [OF assms] by (auto simp: refines_add_def Let_def)

text \<open>A buy of 6 at 102 against sell orders of 3 and 5 at 101.\<close>

theorem AddOrder_price_time_priority_witness:
  "let b = new_order 2 (example_order BUY LIMIT 102 6 2) example_book in
   \<exists>fs r. spec_add (getBuySell (obj b 2)) (crossed (obj b 2)) (\<not> isAggressiveOrder (obj b 2))
      (entry b 2) (book_abs b) = (fs, unat r, book_abs (AddOrder 2 b)) \<and>
    trades (AddOrder 2 b) = map (trade_of (getBuySell (obj b 2)) (getOrderId (obj b 2))) fs \<and>
    obj (AddOrder 2 b) 2 = final_order (obj b 2) r \<and> book_inv {} (AddOrder 2 b)"
  unfolding Let_def
  by (rule AddOrder_price_time_priority) (simp_all add: example_insertable)

text \<open>
  Property C3. In every reachable state the book is sorted and never crossed: every bid is below
  every ask, the best price is in front on both sides, no order has quantity 0 and no order id
  occurs twice.
\<close>

theorem reachable_book_never_crossed:
  assumes "book_reachable b"
  shows "(\<forall>e\<in>set (bid_queue (book_abs b)). \<forall>f\<in>set (ask_queue (book_abs b)).
            sint (e_price e) < sint (e_price f)) \<and>
    sorted_wrt (\<lambda>e f. sint (e_price f) \<le> sint (e_price e)) (bid_queue (book_abs b)) \<and>
    sorted_wrt (\<lambda>e f. sint (e_price e) \<le> sint (e_price f)) (ask_queue (book_abs b)) \<and>
    (\<forall>e\<in>set (bid_queue (book_abs b) @ ask_queue (book_abs b)). 0 < e_qty e) \<and>
    distinct (map e_id (bid_queue (book_abs b) @ ask_queue (book_abs b)))"
  using reachable_book_inv [OF assms] abs_uncrossed abs_sorted abs_positive abs_ids_distinct
  by (simp add: ball_Un)

text \<open>A buy of 6 at 100 rests below the two sell orders at 101.\<close>

definition example_two_sided :: Orderbook where
  "example_two_sided = example_add 2 BUY LIMIT 100 6 example_book"

lemma example_two_sided_reachable: "book_reachable example_two_sided"
  unfolding example_two_sided_def example_add_def
  by (rule reachable_add [OF example_reachable]) (simp_all add: example_simps)

theorem reachable_book_never_crossed_witness:
  "map e_id (bid_queue (book_abs example_two_sided)) = [2] \<and>
   map e_id (ask_queue (book_abs example_two_sided)) = [0, 1] \<and>
   sint (e_price (hd (bid_queue (book_abs example_two_sided)))) <
     sint (e_price (hd (ask_queue (book_abs example_two_sided)))) \<and>
   sorted_wrt (\<lambda>e f. sint (e_price e) \<le> sint (e_price f)) (ask_queue (book_abs example_two_sided)) \<and>
   distinct (map e_id (bid_queue (book_abs example_two_sided) @ ask_queue (book_abs example_two_sided)))"
proof -
  have ids: "map e_id (bid_queue (book_abs example_two_sided)) = [2]"
    "map e_id (ask_queue (book_abs example_two_sided)) = [0, 1]"
    by (simp_all add: example_two_sided_def example_simps book_abs_def entry_def example_match_simps)
  then have "bid_queue (book_abs example_two_sided) \<noteq> []" "ask_queue (book_abs example_two_sided) \<noteq> []"
    by auto
  with reachable_book_never_crossed [OF example_two_sided_reachable] ids show ?thesis
    by simp
qed

text \<open>
  Property C7. Executions respect price-time priority: they name a prefix of the contra side in
  queue order, each at the resting order's own price, every one but the last for the whole
  resting quantity, and each at a price the incoming order accepts.
\<close>

theorem AddOrder_executions_priority:
  assumes "book_inv {} b" and "insertable x b"
  shows "let side = getBuySell (obj b x);
             xs = book_executions side (AddOrder x b);
             es = contra_queue side (book_abs b) in
    map (\<lambda>(p, i, q). (p, i)) xs = map (\<lambda>e. (e_price e, e_id e)) (take (length xs) es) \<and>
    (\<forall>k. Suc k < length xs \<longrightarrow> snd (snd (xs ! k)) = e_qty (es ! k)) \<and>
    (\<forall>(p, i, q) \<in> set xs. priceCrossed (getPrice (obj b x)) p side (getOrderType (obj b x)))"
  using ob.add_priority [OF assms] by (simp add: Let_def crossed_def)

theorem AddOrder_executions_priority_witness:
  "let b = new_order 2 (example_order BUY LIMIT 102 6 2) example_book;
       xs = book_executions BUY (AddOrder 2 b);
       es = contra_queue BUY (book_abs b) in
    xs = [(101, 0, 3), (101, 1, 3)] \<and>
    map (\<lambda>e. (e_price e, e_id e)) (take (length xs) es) = [(101, 0), (101, 1)] \<and>
    e_qty (es ! 0) = 3 \<and> priceCrossed 102 101 BUY LIMIT"
proof -
  let ?b = "new_order 2 (example_order BUY LIMIT 102 6 2) example_book"
  have xs: "book_executions BUY (AddOrder 2 ?b) = [(101, 0, 3), (101, 1, 3)]"
    by (simp add: example_simps example_match_simps book_executions_def resting_side_id_def)
  show ?thesis
    using AddOrder_executions_priority [OF example_insertable(2, 1), of 6 BUY LIMIT 102]
    by (simp add: Let_def frame_simps example_order_def xs [unfolded example_order_def]) 
qed

text \<open>
  Property C8. Quantity is conserved: what trades leaves the contra side, never exceeds the
  incoming order, and the rest of a limit order joins its own side; a MARKET or IOC order adds
  nothing to it.
\<close>

theorem AddOrder_conserves_quantity:
  assumes "book_inv {} b" and "insertable x b"
  shows "let side = getBuySell (obj b x);
             q = unat (getQuantity (obj b x));
             traded = executed_total (book_executions side (AddOrder x b)) in
    traded \<le> q \<and>
    traded + depth (contra_queue side (book_abs (AddOrder x b))) =
      depth (contra_queue side (book_abs b)) \<and>
    depth (own_queue side (book_abs (AddOrder x b))) =
      depth (own_queue side (book_abs b)) +
        (if isAggressiveOrder (obj b x) then 0 else q - traded)"
  using ob.add_conserves [OF assms] by (simp add: Let_def entry_def)

theorem AddOrder_conserves_quantity_witness:
  "let b = new_order 2 (example_order BUY IOC 1 9 2) example_book;
       traded = executed_total (book_executions BUY (AddOrder 2 b)) in
    traded \<le> 9 \<and>
    traded + depth (contra_queue BUY (book_abs (AddOrder 2 b))) = depth (contra_queue BUY (book_abs b)) \<and>
    depth (own_queue BUY (book_abs (AddOrder 2 b))) = depth (own_queue BUY (book_abs b))"
  using AddOrder_conserves_quantity [OF example_insertable(2, 1), of 9 BUY IOC 1]
  by (simp add: Let_def frame_simps example_order_def isAggressiveOrder_def)

text \<open>
  Property C9. An order that is left with quantity has nothing to trade with: the contra side is
  empty or its best price does not cross. For a MARKET or IOC order this means that it is left
  unfilled only by an empty contra side.
\<close>

theorem AddOrder_trades_all_it_can:
  assumes "book_inv {} b" and "insertable x b"
    and "executed_total (book_executions (getBuySell (obj b x)) (AddOrder x b)) <
         unat (getQuantity (obj b x))"
  shows "let es = contra_queue (getBuySell (obj b x)) (book_abs (AddOrder x b)) in
    es = [] \<or> \<not> isAggressiveOrder (obj b x) \<and>
      \<not> priceCrossed (getPrice (obj b x)) (e_price (hd es)) (getBuySell (obj b x))
          (getOrderType (obj b x))"
  using ob.add_exhausts [OF assms(1,2)] assms(3)
  by (auto simp: Let_def entry_def crossed_def priceCrossed_def isAggressiveOrder_def)

theorem AddOrder_trades_all_it_can_witness:
  "let b = new_order 2 (example_order BUY LIMIT 100 6 2) example_book;
       es = contra_queue BUY (book_abs (AddOrder 2 b)) in
    es = [] \<or> \<not> priceCrossed 100 (e_price (hd es)) BUY LIMIT"
proof -
  let ?b = "new_order 2 (example_order BUY LIMIT 100 6 2) example_book"
  have "executed_total (book_executions (getBuySell (obj ?b 2)) (AddOrder 2 ?b)) <
      unat (getQuantity (obj ?b 2))"
    by (simp add: example_simps book_executions_def executed_total_def priceCrossed_def)
  from AddOrder_trades_all_it_can [OF example_insertable(2, 1) this]
  have "let es = contra_queue BUY (book_abs (AddOrder 2 ?b)) in
      es = [] \<or> \<not> isAggressiveOrder (obj ?b 2) \<and> \<not> priceCrossed 100 (e_price (hd es)) BUY LIMIT"
    by (simp add: frame_simps example_order_def)
  then show ?thesis unfolding Let_def by blast
qed

section \<open>Cancelling and modifying\<close>

text \<open>
  Property C15. \<open>CancelOrder\<close> takes exactly the named order out: the abstract book loses that
  entry and nothing else, the id is no longer indexed, every other id keeps its order, the order
  object is marked cancelled with quantity 0, and an unknown id changes nothing at all.
\<close>

theorem CancelOrder_removes_exactly:
  assumes "book_inv {} b"
  shows "book_inv {} (CancelOrder i b) \<and>
    book_abs (CancelOrder i b) = spec_cancel i (book_abs b) \<and>
    orders (CancelOrder i b) = (orders b)(i := None) \<and>
    (\<forall>x. orders b i = Some x \<longrightarrow> getQuantity (obj (CancelOrder i b) x) = 0 \<and>
      getOrderStatus (obj (CancelOrder i b) x) = CANCELLED) \<and>
    (orders b i = None \<longrightarrow> CancelOrder i b = b)"
  using CancelOrder_keeps [OF assms] CancelOrder_index [OF assms] by simp

theorem CancelOrder_removes_exactly_witness:
  "book_abs (CancelOrder 0 example_book) = spec_cancel 0 (book_abs example_book) \<and>
   getOrderStatus (obj (CancelOrder 0 example_book) 0) = CANCELLED \<and>
   CancelOrder 7 example_book = example_book"
  using CancelOrder_removes_exactly [OF example_book_inv, of 0]
    CancelOrder_removes_exactly [OF example_book_inv, of 7]
  by (simp add: example_book_index)

text \<open>
  Property C16. \<open>ModifyOrder\<close> to a new price or quantity is a cancel followed by adding the order
  again with the new terms: it may trade at once, and it loses its time priority. The trades
  listed afterwards are those of this operation alone.
\<close>

theorem ModifyOrder_is_cancel_and_add:
  assumes "book_inv {} b" and "orders b i = Some x" and "0 < nq"
    and "\<not> (getPrice (obj b x) = np \<and> getQuantity (obj b x) = nq)"
  shows "\<exists>fs r.
    spec_add (getBuySell (obj b x)) (crossed (modified_order np nq (obj b x))) True
      \<lparr>e_price = np, e_id = i, e_qty = unat nq\<rparr> (spec_cancel i (book_abs b)) =
      (fs, unat r, book_abs (ModifyOrder i np nq b)) \<and>
    trades (ModifyOrder i np nq b) = map (trade_of (getBuySell (obj b x)) i) fs \<and>
    obj (ModifyOrder i np nq b) x = final_order (modified_order np nq (obj b x)) r \<and>
    book_inv {} (ModifyOrder i np nq b)"
  using ModifyOrder_changes [OF assms] by (auto simp: modified_order_def)

theorem ModifyOrder_is_cancel_and_add_witness:
  "\<exists>fs r.
    spec_add SELL (crossed (modified_order 101 4 (obj example_book 0))) True
      \<lparr>e_price = 101, e_id = 0, e_qty = unat (4 :: Quantity)\<rparr> (spec_cancel 0 (book_abs example_book)) =
      (fs, unat r, book_abs (ModifyOrder 0 101 4 example_book)) \<and>
    trades (ModifyOrder 0 101 4 example_book) = map (trade_of SELL 0) fs \<and>
    obj (ModifyOrder 0 101 4 example_book) 0 = final_order (modified_order 101 4 (obj example_book 0)) r \<and>
    book_inv {} (ModifyOrder 0 101 4 example_book)"
  using ModifyOrder_is_cancel_and_add [OF example_book_inv, of 0 0 4 101]
  by (simp add: example_book_index)

text \<open>
  The early returns of \<open>ModifyOrder\<close> (unknown id, or the terms the order already
  has) leave the whole state alone, the list of recent trades included: what \<open>GetRecentTrades\<close>
  then returns is what the previous operation left there.
\<close>

theorem ModifyOrder_early_return_keeps_trades:
  assumes "book_inv {} b"
    and "\<forall>x. orders b i = Some x \<longrightarrow> getPrice (obj b x) = np \<and> getQuantity (obj b x) = nq"
  shows "ModifyOrder i np nq b = b \<and> GetRecentTrades (ModifyOrder i np nq b) = GetRecentTrades b"
  using assms book_inv_obj_indexed(1) [OF assms(1)]
  by (cases "orders b i") (simp_all add: ModifyOrder_noop)

text \<open>Order 1 has 2 left after a buy of 6; modifying it to what it is shows two trades again.\<close>

theorem ModifyOrder_early_return_keeps_trades_witness:
  "let b = AddOrder 2 (new_order 2 (example_order BUY LIMIT 102 6 2) example_book) in
   ModifyOrder 1 101 2 b = b \<and> length (GetRecentTrades (ModifyOrder 1 101 2 b)) = 2"
proof -
  let ?b = "AddOrder 2 (new_order 2 (example_order BUY LIMIT 102 6 2) example_book)"
  have inv: "book_inv {} ?b"
    using ob.add_inv [OF example_insertable(2, 1)] by simp
  have fields: "orders ?b 1 = Some (Suc 0)" "getPrice (obj ?b (Suc 0)) = 101"
    "getQuantity (obj ?b (Suc 0)) = 2"
    "length (trades ?b) = 2"
    by (simp_all add: example_simps example_match_simps)
  have "ModifyOrder 1 101 2 ?b = ?b \<and> GetRecentTrades (ModifyOrder 1 101 2 ?b) = GetRecentTrades ?b"
    by (rule ModifyOrder_early_return_keeps_trades [OF inv]) (simp add: fields)
  with fields show ?thesis by (simp add: GetRecentTrades_def)
qed

section \<open>The best prices\<close>

text \<open>
  Property C22. As long as the quantities at the best prices fit 32 bits, \<open>GetBestBidAsk\<close> reports
  the highest bid and the lowest ask of the abstract book with the total quantity at that price,
  (0, 0) for an empty side, and whether either side has an order.
\<close>

theorem GetBestBidAsk_correct:
  assumes "book_inv {} b"
    and "best_depth (bid_queue (book_abs b)) < 2 ^ 32"
    and "best_depth (ask_queue (book_abs b)) < 2 ^ 32"
  shows "GetBestBidAsk b = (bid_queue (book_abs b) \<noteq> [] \<or> ask_queue (book_abs b) \<noteq> [],
      best_quote (bid_queue (book_abs b)), best_quote (ask_queue (book_abs b))) \<and>
    (\<forall>e\<in>set (bid_queue (book_abs b)).
      sint (e_price e) \<le> sint (fst (best_quote (bid_queue (book_abs b))))) \<and>
    (\<forall>e\<in>set (ask_queue (book_abs b)).
      sint (fst (best_quote (ask_queue (book_abs b)))) \<le> sint (e_price e))"
  using GetBestBidAsk_quotes [OF assms] best_quote_extreme [OF assms(1)] by blast

theorem GetBestBidAsk_correct_witness:
  "GetBestBidAsk example_book = (True, (0, 0), (101, 8))"
proof -
  have "bid_queue (book_abs example_book) = []"
    "map e_price (ask_queue (book_abs example_book)) = [101, 101]"
    "map e_qty (ask_queue (book_abs example_book)) = [3, 5]"
    by (simp_all add: example_simps book_abs_def entries_def entry_def)
  then have "best_quote (ask_queue (book_abs example_book)) = (101, 8)"
    "best_quote (bid_queue (book_abs example_book)) = (0, 0)"
    "best_depth (ask_queue (book_abs example_book)) = 8"
    "best_depth (bid_queue (book_abs example_book)) = 0"
    "ask_queue (book_abs example_book) \<noteq> []"
    by (auto simp: best_quote_def best_depth_def depth_def map_eq_Cons_conv)
  then show ?thesis
    using GetBestBidAsk_correct [OF example_book_inv] \<open>bid_queue (book_abs example_book) = []\<close>
    by simp
qed

text \<open>
  The bound is needed: the loop adds 32-bit quantities, so a reachable book whose
  only bid level holds two orders of 2147483648 reports no bid at all.
\<close>

theorem GetBestBidAsk_wraps:
  "\<exists>b. book_reachable b \<and> length (bid_queue (book_abs b)) = 2 \<and>
       GetBestBidAsk b = (False, (0, 0), (0, 0))"
proof -
  let ?b = "example_add 1 BUY LIMIT 100 0x80000000 (example_add 0 BUY LIMIT 100 0x80000000 empty_orderbook)"
  have "book_reachable ?b"
    unfolding example_add_def
    by (intro reachable_add reachable_empty) (simp_all add: example_simps)
  moreover have "length (bid_queue (book_abs ?b)) = 2"
    by (simp add: example_simps book_abs_def)
  moreover have "GetBestBidAsk ?b = (False, (0, 0), (0, 0))"
    by (simp add: example_simps GetBestBidAsk_def GetBestBid_def GetBestAsk_def best_of_def
        level_quantity_def)
  ultimately show ?thesis by blast
qed

section \<open>The matching loops\<close>

text \<open>
  The nested loops of \<open>addToBook\<close> over price levels and over the orders of a level
  do what one loop over all resting orders in queue order does: same orders left, same remaining
  quantity, same state. No level is left empty.
\<close>

theorem match_against_is_one_loop:
  assumes "no_empty_level m" and "match_against ord m r b = (m', r', b')"
  shows "flat_match ord (queue_of m) r b = (queue_of m', r', b') \<and> no_empty_level m'"
  using match_against_flat [OF assms] by blast

theorem match_against_is_one_loop_witness:
  "let (m', r', b') = match_against (example_order BUY LIMIT 102 6 2) (asks example_book) 6 example_book in
   flat_match (example_order BUY LIMIT 102 6 2) (queue_of (asks example_book)) 6 example_book =
     (queue_of m', r', b') \<and> no_empty_level m'"
proof -
  obtain m' r' b' where eq:
    "match_against (example_order BUY LIMIT 102 6 2) (asks example_book) 6 example_book = (m', r', b')"
    using prod_cases3 by blast
  have "no_empty_level (asks example_book)" by (simp add: example_book_fields)
  from match_against_is_one_loop [OF this eq] show ?thesis by (simp only: eq prod.case Let_def)
qed

end
