(* ===== verification/Book_Levels.thy ===== *)
theory Book_Levels
  imports Book_Properties "HOL-Library.Multiset"
begin

text \<open>
  The level data of the book: for every price, \<open>price_to_leveldata\<close> carries the number of the
  resting orders and their total quantity, as long as no total reaches \<open>2 ^ 32\<close>. The resting
  orders are taken as a multiset of entries: neither their order nor their side matters here.
\<close>

section \<open>Level data and a multiset of entries\<close>

definition at_price :: "Price \<Rightarrow> Entry multiset \<Rightarrow> Entry multiset" where
  "at_price p M = filter_mset (\<lambda>e. e_price e = p) M"

definition depth_at :: "Entry multiset \<Rightarrow> Price \<Rightarrow> nat" where
  "depth_at M p = (\<Sum>e\<in>#at_price p M. e_qty e)"

definition count_at :: "Entry multiset \<Rightarrow> Price \<Rightarrow> nat" where
  "count_at M p = size (at_price p M)"

definition level_is :: "LevelData option \<Rightarrow> Price \<Rightarrow> nat \<Rightarrow> nat \<Rightarrow> bool" where
  "level_is l p amount number \<longleftrightarrow>
     (case l of
        None \<Rightarrow> number = 0
      | Some d \<Rightarrow> 0 < number \<and> ld_price d = p \<and> unat (totalQuantity d) = amount \<and>
          unat (numberOfOrders d) = number)"

definition agrees :: "(Price \<rightharpoonup> LevelData) \<Rightarrow> Entry multiset \<Rightarrow> bool" where
  "agrees levels M \<longleftrightarrow> (\<forall>p. level_is (levels p) p (depth_at M p) (count_at M p))"

definition all_positive :: "Entry multiset \<Rightarrow> bool" where
  "all_positive M \<longleftrightarrow> (\<forall>e\<in>#M. 0 < e_qty e)"

lemma at_add [simp]:
  "depth_at (add_mset e M) p = (if e_price e = p then e_qty e else 0) + depth_at M p"
  "count_at (add_mset e M) p = (if e_price e = p then 1 else 0) + count_at M p"
  by (simp_all add: depth_at_def count_at_def at_price_def)

lemma count_zero_iff: "all_positive M \<Longrightarrow> (depth_at M p = 0) = (count_at M p = 0)"
  by (induction M) (auto simp: all_positive_def depth_at_def count_at_def at_price_def)

lemma count_le_depth: "all_positive M \<Longrightarrow> count_at M p \<le> depth_at M p"
  by (induction M) (auto simp: all_positive_def depth_at_def count_at_def at_price_def)

text \<open>An order closes, is reduced, or is added.\<close>

lemma unat_minus_if: "unat (if a \<le> q then 0 else a - q) = unat a - unat q" for a q :: "'a::len word"
  by (auto simp: unat_sub word_le_nat_alt)

lemma unat_pred: "0 < n \<Longrightarrow> unat (n - 1) = unat n - 1" for n :: "'a::len word"
  by (simp add: unat_sub word_le_nat_alt unat_gt_0 Suc_le_eq)

lemma level_closes:
  assumes "agrees (price_to_leveldata b) (add_mset e M)" and "all_positive (add_mset e M)"
    and "unat q = e_qty e"
  shows "agrees (price_to_leveldata (updateLevelOnFill (e_price e) q True b)) M"
proof -
  have pos: "all_positive M" "q \<noteq> 0" using assms(2,3) by (auto simp: all_positive_def)
  let ?p = "e_price e"
  have "level_is (price_to_leveldata b ?p) ?p (e_qty e + depth_at M ?p) (1 + count_at M ?p)"
    using assms(1) unfolding agrees_def by (metis at_add)
  then obtain d where d: "price_to_leveldata b ?p = Some d" "ld_price d = ?p"
    "unat (totalQuantity d) = e_qty e + depth_at M ?p" "unat (numberOfOrders d) = 1 + count_at M ?p"
    by (auto simp: level_is_def split: option.splits)
  define amount where "amount = (if totalQuantity d \<le> q then 0 else totalQuantity d - q)"
  have n: "0 < numberOfOrders d" using d(4) by (simp add: unat_gt_0 [symmetric] word_neq_0_conv [symmetric])
  have t: "unat amount = depth_at M ?p" using d(3) assms(3) by (simp add: amount_def unat_minus_if)
  have c: "unat (numberOfOrders d - 1) = count_at M ?p" using unat_pred [OF n] d(4) by simp
  have zero: "amount = 0 \<longleftrightarrow> count_at M ?p = 0" "numberOfOrders d - 1 = 0 \<longleftrightarrow> count_at M ?p = 0"
    using count_zero_iff [OF pos(1), of ?p] t c by (metis unat_eq_zero)+
  have levels: "price_to_leveldata (updateLevelOnFill ?p q True b) = (price_to_leveldata b)
      (?p := (if count_at M ?p = 0 then None
              else Some (d\<lparr>totalQuantity := amount, numberOfOrders := numberOfOrders d - 1\<rparr>)))"
    using pos(2) d(1) n zero by (auto simp: updateLevelOnFill_def Let_def amount_def [symmetric])
  show ?thesis
    unfolding agrees_def levels
  proof
    fix p
    show "level_is (((price_to_leveldata b)(?p := (if count_at M ?p = 0 then None
              else Some (d\<lparr>totalQuantity := amount, numberOfOrders := numberOfOrders d - 1\<rparr>)))) p) p
          (depth_at M p) (count_at M p)"
    proof (cases "p = ?p")
      case True
      then show ?thesis using t c d(2) by (simp add: level_is_def)
    next
      case False
      with assms(1) [unfolded agrees_def, rule_format, of p] show ?thesis by simp
    qed
  qed
qed

text \<open>Every other price keeps its level.\<close>

lemma agrees_at:
  assumes "agrees levels M" and "\<And>p. p \<noteq> r \<Longrightarrow> depth_at N p = depth_at M p \<and> count_at N p = count_at M p"
    and "level_is l r (depth_at N r) (count_at N r)"
  shows "agrees (levels(r := l)) N"
  using assms by (simp add: agrees_def)

lemma level_reduced:
  assumes "agrees (price_to_leveldata b) (add_mset e M)" and "all_positive M"
    and "0 < unat q" and "unat q < e_qty e"
  shows "agrees (price_to_leveldata (updateLevelOnFill (e_price e) q False b))
    (add_mset (e\<lparr>e_qty := e_qty e - unat q\<rparr>) M)"
proof -
  let ?p = "e_price e"
  have "level_is (price_to_leveldata b ?p) ?p (e_qty e + depth_at M ?p) (1 + count_at M ?p)"
    using assms(1) unfolding agrees_def by (metis at_add)
  then obtain d where d: "price_to_leveldata b ?p = Some d" "ld_price d = ?p"
    "unat (totalQuantity d) = e_qty e + depth_at M ?p" "unat (numberOfOrders d) = 1 + count_at M ?p"
    by (auto simp: level_is_def split: option.splits)
  define amount where "amount = (if totalQuantity d \<le> q then 0 else totalQuantity d - q)"
  have t: "unat amount = e_qty e - unat q + depth_at M ?p"
    using d(3) assms(4) by (simp add: amount_def unat_minus_if)
  then have "amount \<noteq> 0" "numberOfOrders d \<noteq> 0" using assms(4) d(4) by auto
  then have levels: "price_to_leveldata (updateLevelOnFill ?p q False b) = (price_to_leveldata b)
      (?p := Some (d\<lparr>totalQuantity := amount, numberOfOrders := numberOfOrders d\<rparr>))"
    using assms(3) d(1) by (auto simp: updateLevelOnFill_def Let_def amount_def [symmetric])
  show ?thesis
    unfolding levels
    by (rule agrees_at [OF assms(1)]) (use t d in \<open>auto simp: level_is_def\<close>)
qed

lemma level_added:
  assumes "agrees (price_to_leveldata b) M" and "all_positive (add_mset e M)"
    and "unat q = e_qty e" and "depth_at (add_mset e M) (e_price e) < 2 ^ 32"
  shows "agrees (price_to_leveldata (updateLevelOnAdd (e_price e) q b)) (add_mset e M)"
proof -
  let ?p = "e_price e"
  have pos: "all_positive M" "q \<noteq> 0" using assms(2,3) by (auto simp: all_positive_def)
  have small: "depth_at M ?p + unat q < 2 ^ 32" "count_at M ?p + 1 < 2 ^ 64"
    using assms(3,4) count_le_depth [OF pos(1), of ?p] by simp_all
  define d where "d = (case price_to_leveldata b ?p of
      None \<Rightarrow> \<lparr>ld_price = 0, totalQuantity = 0, numberOfOrders = 0\<rparr> | Some d \<Rightarrow> d)"
  have d: "unat (totalQuantity d) = depth_at M ?p" "unat (numberOfOrders d) = count_at M ?p"
    using assms(1) [unfolded agrees_def, rule_format, of ?p] count_zero_iff [OF pos(1), of ?p]
    by (auto simp: level_is_def d_def split: option.splits)
  have sum: "unat (totalQuantity d + q) = depth_at M ?p + unat q" "unat (numberOfOrders d + 1) = count_at M ?p + 1"
    using small d unat_add_lem [of "totalQuantity d" q] unat_add_lem [of "numberOfOrders d" 1] by simp_all
  have levels: "price_to_leveldata (updateLevelOnAdd ?p q b) = (price_to_leveldata b)
      (?p := Some \<lparr>ld_price = ?p, totalQuantity = totalQuantity d + q, numberOfOrders = numberOfOrders d + 1\<rparr>)"
    using pos(2) by (simp add: updateLevelOnAdd_def Let_def d_def)
  show ?thesis
    unfolding levels
    by (rule agrees_at [OF assms(1)]) (use sum assms(3) in \<open>simp_all add: level_is_def\<close>)
qed

section \<open>Matching\<close>

lemma execute_against_levels:
  assumes "execute_against ord p x r b = (r', c, b')"
  shows "price_to_leveldata b' =
    price_to_leveldata (updateLevelOnFill p (min r (getQuantity (obj b x))) c b)"
proof -
  have "price_to_leveldata (updateLevelOnFill p q c (update_obj x f b)) =
      price_to_leveldata (updateLevelOnFill p q c b)" for q c f
    by (auto simp: updateLevelOnFill_def frame_simps Let_def update_obj_def split: option.split)
  then show ?thesis
    using assms by (auto simp: execute_against_def Let_def frame_simps split: if_splits)
qed

lemma positive_entries:
  "all_positive (mset (entries b q)) \<longleftrightarrow> (\<forall>z\<in>set q. 0 < getQuantity (obj b (snd z)))"
  by (auto simp: all_positive_def entries_def entry_def unat_gt_0 word_neq_0_conv)

lemma positive_add [simp]:
  "all_positive (add_mset e M) \<longleftrightarrow> 0 < e_qty e \<and> all_positive M"
  "all_positive (M + N) \<longleftrightarrow> all_positive M \<and> all_positive N"
  by (auto simp: all_positive_def)

lemma flat_match_levels:
  "flat_match ord q r b = (q', r', b') \<Longrightarrow> distinct (map snd q) \<Longrightarrow>
   \<forall>z\<in>set q. getPrice (obj b (snd z)) = fst z \<Longrightarrow>
   all_positive (mset (entries b q) + R) \<Longrightarrow>
   agrees (price_to_leveldata b) (mset (entries b q) + R) \<Longrightarrow>
   agrees (price_to_leveldata b') (mset (entries b' q') + R)"
proof (induction ord q r b arbitrary: q' r' b' rule: flat_match.induct)
  case (2 ord p y q r b)
  obtain r1 c b1 where ex: "execute_against ord p y r b = (r1, c, b1)"
    using prod_cases3 by blast
  let ?q = "getQuantity (obj b y)"
  note rem = execute_against_remaining [OF ex] and levels = execute_against_levels [OF ex]
  have p: "e_price (entry b y) = p" "e_qty (entry b y) = unat ?q"
    using "2.prems"(3) by (simp_all add: entry_def)
  have others: "\<forall>z\<in>set q. obj b1 (snd z) = obj b (snd z)"
    using "2.prems"(2) by (intro ballI execute_against_obj(1) [OF ex]) force
  then have rest: "entries b1 q = entries b q" by (rule entries_cong)
  have agree: "agrees (price_to_leveldata b) (add_mset (entry b y) (mset (entries b q) + R))"
    and pos: "all_positive (add_mset (entry b y) (mset (entries b q) + R))"
    using "2.prems"(4,5) by simp_all
  consider (stop) "r = 0 \<or> \<not> crossed ord p" | (whole) "r \<noteq> 0" "crossed ord p" "c"
    | (part) "r \<noteq> 0" "crossed ord p" "\<not> c" by blast
  then show ?case
  proof cases
    case stop
    with "2.prems" show ?thesis by auto
  next
    case whole
    with "2.prems" ex have rec: "flat_match ord q r1 b1 = (q', r', b')" by simp
    have "min r ?q = ?q" using whole rem(2) by (simp add: min.absorb2)
    then have "agrees (price_to_leveldata b1) (mset (entries b1 q) + R)"
      using level_closes [OF agree pos, of ?q] whole p levels rest by simp
    with whole "2.IH" [OF _ ex [symmetric] refl _ rec] "2.prems"(2,3) pos others rest show ?thesis
      by simp
  next
    case part
    with "2.prems" ex have out: "(q', r', b') = ((p, y) # q, r1, b1)" by simp
    have less: "unat r < unat ?q" "min r ?q = r"
      using part rem by (auto simp: word_less_nat_alt not_le min_def)
    have "entry b1 y = (entry b y)\<lparr>e_qty := e_qty (entry b y) - unat r\<rparr>"
      using execute_against_obj(2) [OF ex, of y] execute_against_obj(3) [OF ex] less
      by (simp add: entry_def same_terms_def unat_sub word_le_nat_alt)
    moreover have "0 < unat r" using part by (simp add: unat_gt_0)
    ultimately show ?thesis
      using level_reduced [OF agree, of r] pos less p levels rest out part by simp
  qed
qed simp

section \<open>The operations\<close>

definition resting_entries :: "Orderbook \<Rightarrow> Entry multiset" where
  "resting_entries b = mset (bid_queue (book_abs b)) + mset (ask_queue (book_abs b))"

definition levels_exact :: "Orderbook \<Rightarrow> bool" where
  "levels_exact b \<longleftrightarrow> agrees (price_to_leveldata b) (resting_entries b)"

lemma levels_exact_cong:
  "price_to_leveldata b' = price_to_leveldata b \<Longrightarrow> book_abs b' = book_abs b \<Longrightarrow>
   levels_exact b' = levels_exact b"
  by (simp add: levels_exact_def resting_entries_def)

lemma resting_positive: "book_inv E b \<Longrightarrow> all_positive (resting_entries b)"
  using side_okD(3) [OF book_inv_sides(1)] side_okD(3) [OF book_inv_sides(2)]
  by (simp add: resting_entries_def book_abs_def positive_entries)

lemma side_levels:
  assumes ok: "side_ok cmp side b m" and ma: "match_against ord m r b = (lv, r', b')"
    and R: "all_positive R" and agree: "agrees (price_to_leveldata b) (mset (entries b (queue_of m)) + R)"
  shows "agrees (price_to_leveldata b') (mset (entries b' (queue_of lv)) + R)"
proof (rule flat_match_levels [OF side_ok_matched(2) [OF ok ma]])
  show "distinct (map snd (queue_of m))" using ok by (simp add: side_ok_def)
  show "\<forall>z\<in>set (queue_of m). getPrice (obj b (snd z)) = fst z" using side_okD(1) [OF ok] by blast
  show "all_positive (mset (entries b (queue_of m)) + R)"
    using side_okD(3) [OF ok] R by (simp add: positive_entries)
qed (rule agree)

lemma match_order_levels:
  assumes inv: "book_inv E b" and mo: "match_order ord b = (r, b1)"
    and side: "getBuySell ord = BUY \<or> getBuySell ord = SELL" and exact: "levels_exact b"
  shows "levels_exact b1"
proof (cases "getBuySell ord = BUY")
  case True
  then obtain lv b' where ma: "match_against ord (asks b) (getQuantity ord) b = (lv, r, b')"
    and b1: "b1 = b'\<lparr>asks := lv\<rparr>"
    using mo by (auto simp: match_order_def split: prod.splits)
  have bids: "bids b' = bids b" using flat_match_frame [OF side_ok_matched(2) [OF book_inv_sides(2) [OF inv] ma]] by simp
  have own: "entries b1 (queue_of (bids b)) = entries b (queue_of (bids b))"
    using match_order_keeps(2) [OF inv mo side] True bids by (auto simp: refines_match_def book_abs_def b1)
  have eq: "entries b1 q = entries b' q" for q by (simp add: entries_def entry_def b1 frame_simps)
  have "agrees (price_to_leveldata b') (mset (entries b' (queue_of lv)) + mset (entries b (queue_of (bids b))))"
    using side_levels [OF book_inv_sides(2) [OF inv] ma, of "mset (entries b (queue_of (bids b)))"]
      exact side_okD(3) [OF book_inv_sides(1) [OF inv]]
    by (simp add: positive_entries levels_exact_def resting_entries_def book_abs_def add.commute)
  then show ?thesis
    using own by (simp add: levels_exact_def resting_entries_def book_abs_def b1 bids eq [unfolded b1] add.commute)
next
  case False
  with side have S: "getBuySell ord = SELL" by simp
  then obtain lv b' where ma: "match_against ord (bids b) (getQuantity ord) b = (lv, r, b')"
    and b1: "b1 = b'\<lparr>bids := lv\<rparr>"
    using mo by (auto simp: match_order_def split: prod.splits)
  have asks: "asks b' = asks b" using flat_match_frame [OF side_ok_matched(2) [OF book_inv_sides(1) [OF inv] ma]] by simp
  have own: "entries b1 (queue_of (asks b)) = entries b (queue_of (asks b))"
    using match_order_keeps(2) [OF inv mo side] S asks by (auto simp: refines_match_def book_abs_def b1)
  have eq: "entries b1 q = entries b' q" for q by (simp add: entries_def entry_def b1 frame_simps)
  have "agrees (price_to_leveldata b') (mset (entries b' (queue_of lv)) + mset (entries b (queue_of (asks b))))"
    using side_levels [OF book_inv_sides(1) [OF inv] ma, of "mset (entries b (queue_of (asks b)))"]
      exact side_okD(3) [OF book_inv_sides(2) [OF inv]]
    by (simp add: positive_entries levels_exact_def resting_entries_def book_abs_def)
  then show ?thesis
    using own by (simp add: levels_exact_def resting_entries_def book_abs_def b1 asks eq [unfolded b1])
qed

lemma mset_insert_behind: "mset (insert_behind cmp f e es) = add_mset e (mset es)"
  by (induction es) (simp_all add: insert_behind_def)

lemma book_order_adds:
  assumes inv: "book_inv E b"
  shows "resting_entries (book_order x b) = add_mset (entry b x) (resting_entries b)"
proof -
  let ?p = "getPrice (obj b x)" and ?b = "book_order x b"
  have eq: "entries ?b q = entries b q" for q by (simp add: entries_def entry_def book_order_frame)
  have add: "mset (entries b (insert_behind cmp f (?p, x) q)) = add_mset (entry b x) (mset (entries b q))" for cmp f q
    by (simp add: entries_def mset_insert_behind)
  show ?thesis
  proof (cases "getBuySell (obj b x) = BUY")
    case True
    then have "queue_of (bids ?b) = insert_behind std_greater fst (?p, x) (queue_of (bids b))" "asks ?b = asks b"
      using book_inv_sides(1) [OF inv]
      by (simp_all add: book_order_def Let_def frame_simps bid.queue_of_push_back_at side_ok_def)
    then show ?thesis by (simp add: resting_entries_def book_abs_def eq add)
  next
    case False
    then have "queue_of (asks ?b) = insert_behind std_less fst (?p, x) (queue_of (asks b))" "bids ?b = bids b"
      using book_inv_sides(2) [OF inv]
      by (simp_all add: book_order_def Let_def frame_simps ask.queue_of_push_back_at side_ok_def)
    then show ?thesis by (simp add: resting_entries_def book_abs_def eq add)
  qed
qed

lemma book_order_levels:
  assumes inv: "book_inv E b" and qty: "0 < getQuantity (obj b x)" and exact: "levels_exact b"
    and room: "depth_at (add_mset (entry b x) (resting_entries b)) (getPrice (obj b x)) < 2 ^ 32"
  shows "levels_exact (book_order x b)"
proof -
  let ?p = "getPrice (obj b x)" and ?b = "book_order x b"
  have levels: "price_to_leveldata ?b = price_to_leveldata (updateLevelOnAdd ?p (getQuantity (obj b x)) b)"
    by (auto simp: book_order_def Let_def updateLevelOnAdd_def)
  have e: "e_price (entry b x) = ?p" "e_qty (entry b x) = unat (getQuantity (obj b x))"
    by (simp_all add: entry_def)
  then have "all_positive (add_mset (entry b x) (resting_entries b))"
    using resting_positive [OF inv] qty by (simp add: unat_gt_0)
  with exact room e show "levels_exact ?b"
    unfolding levels_exact_def levels book_order_adds [OF inv]
    by (metis level_added)
qed

definition shallow :: "Orderbook \<Rightarrow> bool" where
  "shallow b \<longleftrightarrow> (\<forall>p. depth_at (resting_entries b) p < 2 ^ 32)"

lemma addToBook_levels:
  assumes inv: "book_inv E b" and ins: "insertable x b" and exact: "levels_exact b"
    and room: "shallow (addToBook x b)"
  shows "levels_exact (addToBook x b)"
proof -
  obtain ord where st: "store b x = Some ord" using ins by (auto simp: insertable_def)
  then have ord: "obj b x = ord" by (simp add: obj_def)
  note ins' = ins [unfolded insertable_def ord]
  obtain r b1 where mo: "match_order ord (b\<lparr>trades := []\<rparr>) = (r, b1)" by force
  have side: "getBuySell ord = BUY \<or> getBuySell ord = SELL" using ins' by simp
  have inv': "book_inv E (b\<lparr>trades := []\<rparr>)" using inv by simp
  have "levels_exact (b\<lparr>trades := []\<rparr>)" using exact by (subst levels_exact_cong [of _ b]) simp_all
  note exact1 = match_order_levels [OF inv' mo side this] and inv1 = match_order_keeps(1) [OF inv' mo side]
  from match_order_keeps(3) [OF inv' mo side] have st1: "store b1 x = Some ord" and x1: "x \<notin> resting b1"
    using ins' st by (auto simp: shrinks_def)
  from st mo st1 obtain f where f: "f ord = final_order ord r" "\<And>o'. getOrderId (f o') = getOrderId o'"
    and out: "addToBook x b =
      (if r = 0 then clearOrderRecord (getOrderId ord) (update_obj x f b1)
       else if isAggressiveOrder ord then update_obj x f b1
       else book_order x (update_obj x f b1))"
    using ins' by (auto elim: addToBook_cases)
  let ?b2 = "update_obj x f b1"
  have o2: "obj ?b2 x = final_order ord r" using st1 f by (simp add: frame_simps) (simp add: obj_def)
  have inv2: "book_inv E ?b2" "book_abs ?b2 = book_abs b1"
    using book_inv_update_obj [OF inv1 x1 _ f(2)] st1 by simp_all
  have exact2: "levels_exact ?b2"
    using exact1 by (subst levels_exact_cong [of _ b1]) (simp_all add: inv2 frame_simps)
  have clear: "levels_exact (clearOrderRecord i ?b2)" for i
    using exact2 by (subst levels_exact_cong [of _ ?b2])
      (simp_all add: frame_simps book_abs_def entries_def entry_def)
  show ?thesis
  proof (cases "r = 0 \<or> isAggressiveOrder ord")
    case True
    then show ?thesis using out exact2 clear by auto
  next
    case False
    then have eq: "addToBook x b = book_order x ?b2" using out by simp
    have qty: "0 < getQuantity (obj ?b2 x)" using False by (simp add: o2 final_order_def word_neq_0_conv)
    have "resting_entries (book_order x ?b2) = add_mset (entry ?b2 x) (resting_entries ?b2)"
      by (rule book_order_adds [OF inv2(1)])
    with book_order_levels [OF inv2(1) qty exact2] room show ?thesis
      by (simp add: eq shallow_def)
  qed
qed

text \<open>An order that \<open>ModifyOrder\<close> or \<open>CancelOrder\<close> takes off the book takes its share of the level.\<close>

lemma entries_removed:
  "distinct (map snd q) \<Longrightarrow>
   mset (entries b q) = (if x \<in> snd ` set q then {#entry b x#} else {#}) +
     mset (entries b (filter (\<lambda>z. snd z \<noteq> x) q))"
proof (induction q)
  case (Cons z q)
  then show ?case
    by (cases "snd z = x") (auto simp: entries_def filter_id_conv image_iff)
qed (simp add: entries_def)

lemma resting_removed:
  assumes inv: "book_inv {} b" and i: "orders b i = Some x"
  shows "resting_entries b = add_mset (entry b x) (resting_entries (removeOrderFromBook x b))"
proof -
  note B = book_inv_sides(1) [OF inv] and A = book_inv_sides(2) [OF inv]
  let ?bids = "queue_of (bids b)" and ?asks = "queue_of (asks b)"
  have "x \<in> snd ` set ?bids \<union> snd ` set ?asks"
    using book_inv_obj_indexed(3) [OF inv i] by (simp add: resting_def)
  moreover have "\<not> (x \<in> snd ` set ?bids \<and> x \<in> snd ` set ?asks)"
    using side_okD(2) [OF B] side_okD(2) [OF A] by fastforce
  moreover have "entries (removeOrderFromBook x b) q = entries b q" for q
    by (simp add: entries_def entry_def frame_simps)
  moreover have "mset (entries b ?bids) = (if x \<in> snd ` set ?bids then {#entry b x#} else {#}) +
      mset (entries b (filter (\<lambda>z. snd z \<noteq> x) ?bids))"
    "mset (entries b ?asks) = (if x \<in> snd ` set ?asks then {#entry b x#} else {#}) +
      mset (entries b (filter (\<lambda>z. snd z \<noteq> x) ?asks))"
    using A B by (intro entries_removed; simp add: side_ok_def)+
  ultimately show ?thesis
    by (auto simp: resting_entries_def book_abs_def removeOrderFromBook_queues [OF inv i])
qed

lemma released_levels:
  assumes inv: "book_inv {} b" and i: "orders b i = Some x" and exact: "levels_exact b"
  shows "levels_exact (removeOrderFromBook x (release_level (obj b x) b))"
proof -
  let ?b1 = "release_level (obj b x) b"
  note cong = book_inv_cong [of ?b1 b, unfolded frame_simps, OF refl refl refl refl]
  have inv1: "book_inv {} ?b1" "orders ?b1 i = Some x" using inv i by (simp_all add: cong frame_simps)
  let ?M = "resting_entries (removeOrderFromBook x ?b1)"
  have M: "resting_entries b = add_mset (entry b x) ?M"
    using resting_removed [OF inv1] cong(2) by (simp add: resting_entries_def entry_def frame_simps)
  have e: "getPrice (obj b x) = e_price (entry b x)" "unat (getQuantity (obj b x)) = e_qty (entry b x)"
    by (simp_all add: entry_def)
  have "agrees (price_to_leveldata (updateLevelOnFill (e_price (entry b x)) (getQuantity (obj b x)) True b)) ?M"
    by (rule level_closes)
      (use exact [unfolded levels_exact_def] resting_positive [OF inv] M e in simp_all)
  moreover have "price_to_leveldata (removeOrderFromBook x ?b1) =
      price_to_leveldata (updateLevelOnFill (getPrice (obj b x)) (getQuantity (obj b x)) True b)"
    using book_inv_obj_indexed(6) [OF inv i]
    by (auto simp: removeOrderFromBook_def release_level_def split: option.split)
  ultimately show ?thesis by (simp add: levels_exact_def e)
qed

lemma released_abs:
  assumes inv: "book_inv {} b" and i: "orders b i = Some x"
  shows "book_abs (removeOrderFromBook x (release_level ord b)) = spec_cancel i (book_abs b)"
proof -
  note cong = book_inv_cong [of "release_level ord b" b, unfolded frame_simps, OF refl refl refl refl]
  have "book_inv {} (release_level ord b)" "orders (release_level ord b) i = Some x"
    using inv i by (simp_all add: cong frame_simps)
  then show ?thesis using removeOrderFromBook_keeps(3) cong(2) by simp
qed

lemma CancelOrder_levels:
  assumes inv: "book_inv {} b" and exact: "levels_exact b"
  shows "levels_exact (CancelOrder i b)"
proof (cases "orders b i")
  case None
  then show ?thesis using exact by (simp add: CancelOrder_def)
next
  case (Some x)
  note x = book_inv_obj_indexed [OF inv Some]
  let ?b2 = "removeOrderFromBook x (release_level (obj b x) b)"
  have "price_to_leveldata (CancelOrder i b) = price_to_leveldata ?b2"
    by (simp add: CancelOrder_eq [OF Some x(1)] frame_simps)
  moreover have "book_abs (CancelOrder i b) = book_abs ?b2"
    by (simp add: CancelOrder_keeps(2) [OF inv] released_abs [OF inv Some])
  ultimately show ?thesis
    using released_levels [OF inv Some exact] levels_exact_cong by blast
qed

lemma ModifyOrder_levels:
  assumes inv: "book_inv {} b" and nq: "0 < nq" and exact: "levels_exact b"
    and room: "shallow (ModifyOrder i np nq b)"
  shows "levels_exact (ModifyOrder i np nq b)"
proof (cases "orders b i")
  case None
  then show ?thesis using exact by (simp add: ModifyOrder_noop)
next
  case (Some x)
  note x = book_inv_obj_indexed [OF inv Some]
  let ?b2 = "removeOrderFromBook x (release_level (obj b x) b)"
  let ?b3 = "update_obj x (modified_order np nq) ?b2"
  note pre = modify_prepared [OF inv Some nq, of np]
  show ?thesis
  proof (cases "getPrice (obj b x) = np \<and> getQuantity (obj b x) = nq")
    case True
    then show ?thesis using exact ModifyOrder_noop(2) [OF Some x(1)] by simp
  next
    case False
    have eq: "ModifyOrder i np nq b = addToBook x ?b3" by (rule ModifyOrder_eq [OF Some x(1) False])
    have "book_abs ?b3 = book_abs ?b2"
      by (simp add: pre(2) released_abs [OF inv Some])
    then have "levels_exact ?b3"
      using released_levels [OF inv Some exact] levels_exact_cong [of ?b3 ?b2] by (simp add: frame_simps)
    then show ?thesis using addToBook_levels [OF pre(1,3)] room by (simp add: eq)
  qed
qed

section \<open>The books the operations build\<close>

text \<open>
  \<open>book_reachable\<close> restricted to runs in which no level's total ever needs more than the 32 bits
  of \<open>totalQuantity\<close>. A cancelled order only takes from its level, so the bound is asked where
  an order is booked.
\<close>

inductive shallow_reachable :: "Orderbook \<Rightarrow> bool" where
  shallow_empty: "shallow_reachable empty_orderbook"
| shallow_add: "shallow_reachable b \<Longrightarrow> store b x = None \<Longrightarrow> orders b (getOrderId ord) = None \<Longrightarrow>
    0 < getQuantity ord \<Longrightarrow> getBuySell ord = BUY \<or> getBuySell ord = SELL \<Longrightarrow>
    shallow (AddOrder x (new_order x ord b)) \<Longrightarrow> shallow_reachable (AddOrder x (new_order x ord b))"
| shallow_cancel: "shallow_reachable b \<Longrightarrow> shallow_reachable (CancelOrder i b)"
| shallow_modify: "shallow_reachable b \<Longrightarrow> 0 < nq \<Longrightarrow> shallow (ModifyOrder i np nq b) \<Longrightarrow>
    shallow_reachable (ModifyOrder i np nq b)"
| shallow_clear: "shallow_reachable b \<Longrightarrow> shallow_reachable (ClearRecentTrades b)"

lemma shallow_book_reachable: "shallow_reachable b \<Longrightarrow> book_reachable b"
  by (induction rule: shallow_reachable.induct) (blast intro: book_reachable.intros)+

lemma new_order_levels: "price_to_leveldata (new_order x ord b) = price_to_leveldata b"
  by (simp add: new_order_def)

lemma levels_exact_reachable: "shallow_reachable b \<Longrightarrow> levels_exact b"
proof (induction rule: shallow_reachable.induct)
  case shallow_empty
  then show ?case
    by (simp add: levels_exact_def agrees_def level_is_def count_at_def at_price_def resting_entries_def
        book_abs_def entries_def empty_orderbook_def queue_of_def)
next
  case (shallow_add b x ord)
  note inv = reachable_book_inv [OF shallow_book_reachable [OF shallow_add.hyps(1)]]
  note new = book_inv_new_order [OF inv shallow_add.hyps(2), of ord]
  have "levels_exact (new_order x ord b)"
    using shallow_add.IH levels_exact_cong [OF new_order_levels new(2)] by simp
  then show ?case
    using addToBook_levels [OF new(1) insertable_new_order [OF inv shallow_add.hyps(2-5)]] shallow_add.hyps(6)
    by (simp add: AddOrder_def)
next
  case (shallow_cancel b i)
  then show ?case using CancelOrder_levels reachable_book_inv shallow_book_reachable by blast
next
  case (shallow_modify b nq i np)
  then show ?case using ModifyOrder_levels reachable_book_inv shallow_book_reachable by blast
next
  case (shallow_clear b)
  then show ?case
    using levels_exact_cong [of "ClearRecentTrades b" b]
    by (simp add: ClearRecentTrades_def book_abs_def entries_def entry_def frame_simps)
qed

text \<open>The resting orders at a price, as the code's containers hold them: bids first.\<close>

definition orders_at :: "Price \<Rightarrow> Orderbook \<Rightarrow> Entry list" where
  "orders_at p b = [e \<leftarrow> bid_queue (book_abs b) @ ask_queue (book_abs b). e_price e = p]"

lemma orders_at_levels:
  "depth_at (resting_entries b) p = sum_list (map e_qty (orders_at p b))"
  "count_at (resting_entries b) p = length (orders_at p b)"
  by (simp_all add: depth_at_def count_at_def at_price_def resting_entries_def orders_at_def
      flip: mset_append mset_filter sum_mset_sum_list mset_map)

text \<open>
  Property C21. The level data is exact: as long as no level's total exceeds 32 bits, every book
  the public operations build (adding, matching, partial fills, modifying, cancelling) has, for
  each price, a level entry exactly if an order rests at it, and the entry then carries that
  price, the sum of the resting quantities and the number of the orders.
\<close>

lemma level_data_is_exact:
  assumes "shallow_reachable b"
  shows "case price_to_leveldata b p of
      None \<Rightarrow> orders_at p b = []
    | Some d \<Rightarrow> orders_at p b \<noteq> [] \<and> ld_price d = p \<and>
        unat (totalQuantity d) = sum_list (map e_qty (orders_at p b)) \<and>
        unat (numberOfOrders d) = length (orders_at p b)"
  using levels_exact_reachable [OF assms]
  unfolding levels_exact_def agrees_def level_is_def orders_at_levels
  by (auto split: option.splits dest: spec [of _ p])

lemma shallow_bound: "sum_list (map e_qty (bid_queue (book_abs b) @ ask_queue (book_abs b))) < 2 ^ 32 \<Longrightarrow> shallow b"
proof -
  have "sum_list (map e_qty (filter P es)) \<le> sum_list (map e_qty es)" for P :: "Entry \<Rightarrow> bool" and es
    by (induction es) auto
  then show "sum_list (map e_qty (bid_queue (book_abs b) @ ask_queue (book_abs b))) < 2 ^ 32 \<Longrightarrow> shallow b"
    unfolding shallow_def orders_at_levels orders_at_def by (meson le_less_trans)
qed

lemma level_data_is_exact_witness:
  "price_to_leveldata (CancelOrder 0 example_two_sided) 101 =
     Some \<lparr>ld_price = 101, totalQuantity = 5, numberOfOrders = 1\<rparr> \<and>
   sum_list (map e_qty (orders_at 101 (CancelOrder 0 example_two_sided))) = 5 \<and>
   length (orders_at 101 (CancelOrder 0 example_two_sided)) = 1"
proof -
  have "shallow_reachable example_two_sided"
    unfolding example_two_sided_def example_book_def example_add_def
    by (intro shallow_add shallow_empty shallow_bound)
      (simp_all add: example_simps example_match_simps book_abs_def entries_def entry_def)
  note exact = level_data_is_exact [OF shallow_cancel [OF this, of 0], of 101]
  have "price_to_leveldata (CancelOrder 0 example_two_sided) 101 =
     Some \<lparr>ld_price = 101, totalQuantity = 5, numberOfOrders = 1\<rparr>"
    by (simp add: example_two_sided_def example_simps example_match_simps CancelOrder_def
        release_level_def removeOrderFromBook_def eraseFromBook_def)
  with exact show ?thesis by simp
qed

end
