(* ===== verification/Orderbook_Print.thy ===== *)
theory Orderbook_Print
  imports Book_Properties
begin

text \<open>
  \<^verbatim>\<open>Orderbook::PrintOrderbook\<close>: the loop over both sides at once, with the rows it prints as
  triples of price, bid quantity and ask quantity. The fixed lines around the rows and the column
  widths are left out. On a book whose sides do not cross the loop prints the two sides one after
  the other.
\<close>

section \<open>The loop\<close>

type_synonym BookRow = "Price \<times> Quantity \<times> Quantity"

text \<open>One pass of the loop body: the row, and what is left of the two iterators.\<close>

definition print_row ::
  "Orderbook \<Rightarrow> OrderPointer list price_map \<Rightarrow> OrderPointer list price_map \<Rightarrow>
   BookRow \<times> OrderPointer list price_map \<times> OrderPointer list price_map" where
  "print_row b bidIt askIt =
     (let (price1, bidQty) = (case bidIt of
            [] \<Rightarrow> (0, 0)
          | (p, xs) # _ \<Rightarrow> (p, level_quantity b xs));
          (price, askQty) = (case askIt of
            [] \<Rightarrow> (price1, 0)
          | (p, xs) # _ \<Rightarrow>
              if bidIt = [] \<or> sint p \<le> sint price1 then (p, level_quantity b xs) else (price1, 0));
          bidIt' = (case bidIt of [] \<Rightarrow> [] | l # ls \<Rightarrow> if fst l = price then ls else bidIt);
          askIt' = (case askIt of [] \<Rightarrow> [] | l # ls \<Rightarrow> if fst l = price then ls else askIt)
      in ((price, bidQty, askQty), bidIt', askIt'))"

text \<open>One of the iterators advances, whatever the prices are.\<close>

lemma print_row_advances:
  assumes "print_row b bidIt askIt = (row, bidIt', askIt')" and "\<not> (bidIt = [] \<and> askIt = [])"
  shows "length bidIt' + length askIt' < length bidIt + length askIt"
  using assms by (cases bidIt; cases askIt) (auto simp: print_row_def Let_def split: if_splits)

function print_rows ::
  "Orderbook \<Rightarrow> OrderPointer list price_map \<Rightarrow> OrderPointer list price_map \<Rightarrow> BookRow list" where
  "print_rows b bidIt askIt =
     (if bidIt = [] \<and> askIt = [] then []
      else let (row, bidIt', askIt') = print_row b bidIt askIt in row # print_rows b bidIt' askIt')"
  by pat_completeness auto
termination
  by (relation "measure (\<lambda>(b, bidIt, askIt). length bidIt + length askIt)") (auto dest: print_row_advances [OF sym])

declare print_rows.simps [simp del]

definition PrintOrderbook :: "Orderbook \<Rightarrow> BookRow list" where
  "PrintOrderbook b = print_rows b (bids b) (asks b)"

section \<open>What is printed\<close>

definition bid_row :: "Orderbook \<Rightarrow> Price \<times> OrderPointer list \<Rightarrow> BookRow" where
  "bid_row b l = (fst l, level_quantity b (snd l), 0)"

definition ask_row :: "Orderbook \<Rightarrow> Price \<times> OrderPointer list \<Rightarrow> BookRow" where
  "ask_row b l = (fst l, 0, level_quantity b (snd l))"

lemma print_rows_asks: "print_rows b [] as = map (ask_row b) as"
proof (induction as)
  case Nil
  then show ?case by (simp add: print_rows.simps)
next
  case (Cons l as)
  then show ?case by (subst print_rows.simps) (simp add: print_row_def ask_row_def split: prod.split)
qed

lemma print_rows_uncrossed:
  "\<forall>l\<in>set bs. \<forall>k\<in>set as. sint (fst l) < sint (fst k) \<Longrightarrow>
   print_rows b bs as = map (bid_row b) bs @ map (ask_row b) as"
proof (induction bs)
  case Nil
  then show ?case by (simp add: print_rows_asks)
next
  case (Cons l bs)
  have "print_row b (l # bs) as = (bid_row b l, bs, as)"
    using Cons.prems by (cases as) (auto simp: print_row_def bid_row_def Let_def split: prod.split)
  with Cons show ?case by (subst print_rows.simps) simp
qed

lemma level_in_queue: "no_empty_level m \<Longrightarrow> l \<in> set m \<Longrightarrow> \<exists>x. (fst l, x) \<in> set (queue_of m)"
  by (cases l) (fastforce simp: no_empty_level_def queue_of_def neq_Nil_conv)

text \<open>The total quantity that a queue of entries has at a price.\<close>

definition total_at :: "Price \<Rightarrow> Entry list \<Rightarrow> nat" where
  "total_at p es = depth (filter (\<lambda>e. e_price e = p) es)"

lemma level_entries:
  assumes "distinct (map fst m)" and "\<forall>z\<in>set (queue_of m). getPrice (obj b (snd z)) = fst z" and "(p, xs) \<in> set m"
  shows "filter (\<lambda>e. e_price e = p) (entries b (queue_of m)) = map (entry b) xs"
  using assms
proof (induction m)
  case (Cons l m)
  obtain k ys where l: "l = (k, ys)" by (rule prod.exhaust)
  have prices: "\<forall>z\<in>set (queue_of m). getPrice (obj b (snd z)) = fst z" "\<forall>y\<in>set ys. getPrice (obj b y) = k"
    using Cons.prems(2) by (simp_all add: l ball_Un)
  have split: "entries b (queue_of (l # m)) = map (entry b) ys @ entries b (queue_of m)"
    by (simp add: l entries_def)
  show ?case
  proof (cases "(p, xs) = l")
    case True
    then have "\<forall>e\<in>set (entries b (queue_of m)). e_price e \<noteq> p"
      using Cons.prems(1) prices(1) by (force simp: l entries_def entry_def in_queue_of)
    then have "filter (\<lambda>e. e_price e = p) (entries b (queue_of m)) = []"
      by (simp add: filter_empty_conv)
    moreover have "filter (\<lambda>e. e_price e = p) (map (entry b) ys) = map (entry b) ys"
      using True prices(2) by (simp add: l filter_id_conv entry_def)
    ultimately show ?thesis using True unfolding split by (simp add: l)
  next
    case False
    then have m: "(p, xs) \<in> set m" using Cons.prems(3) by simp
    then have "p \<noteq> k" using Cons.prems(1) by (force simp: l)
    then have "filter (\<lambda>e. e_price e = p) (map (entry b) ys) = []"
      using prices(2) by (simp add: filter_empty_conv entry_def)
    with Cons.IH [OF _ prices(1) m] Cons.prems(1) show ?thesis by (simp add: split)
  qed
qed simp

lemma side_rows:
  assumes "side_ok cmp side b m" and "distinct (map fst m)"
  shows "fst ` set m = e_price ` set (entries b (queue_of m))"
    and "(p, xs) \<in> set m \<Longrightarrow> unat (level_quantity b xs) = total_at p (entries b (queue_of m)) mod 2 ^ 32"
proof -
  have prices: "\<forall>z\<in>set (queue_of m). getPrice (obj b (snd z)) = fst z"
    using assms(1) by (auto simp: side_ok_def resting_ok_def)
  then have "e_price ` set (entries b (queue_of m)) = fst ` set (queue_of m)"
    by (force simp: entries_def entry_def)
  moreover have "fst ` set (queue_of m) = fst ` set m"
  proof (intro equalityI image_subsetI)
    show "fst z \<in> fst ` set m" if "z \<in> set (queue_of m)" for z
      using that by (force simp: queue_of_def)
    show "fst l \<in> fst ` set (queue_of m)" if "l \<in> set m" for l
      using level_in_queue [OF _ that] assms(1) by (force simp: side_ok_def)
  qed
  ultimately show "fst ` set m = e_price ` set (entries b (queue_of m))" by simp
  assume "(p, xs) \<in> set m"
  from level_entries [OF assms(2) prices this]
  show "unat (level_quantity b xs) = total_at p (entries b (queue_of m)) mod 2 ^ 32"
    by (simp add: total_at_def level_quantity_depth)
qed

text \<open>
  Property C26. \<open>PrintOrderbook\<close> prints a reachable book completely and in order: first one row for
  each price at which there is a bid, from the highest to the lowest, with the total quantity of the
  resting bids at that price and no ask quantity; then one row for each price at which there is an
  ask, from the lowest to the highest and all above the bids, with the total of the resting asks at
  that price and no bid quantity. The totals are those of 32-bit sums, so they are taken modulo
  \<open>2 ^ 32\<close>.
\<close>

theorem PrintOrderbook_lists_levels:
  assumes "book_reachable b"
  shows "\<exists>bid_rows ask_rows. PrintOrderbook b = bid_rows @ ask_rows \<and>
    sorted_wrt (\<lambda>r s. sint (fst s) < sint (fst r)) bid_rows \<and>
    sorted_wrt (\<lambda>r s. sint (fst r) < sint (fst s)) ask_rows \<and>
    (\<forall>r\<in>set bid_rows. \<forall>s\<in>set ask_rows. sint (fst r) < sint (fst s)) \<and>
    fst ` set bid_rows = e_price ` set (bid_queue (book_abs b)) \<and>
    fst ` set ask_rows = e_price ` set (ask_queue (book_abs b)) \<and>
    (\<forall>(p, bidQty, askQty)\<in>set bid_rows.
       unat bidQty = total_at p (bid_queue (book_abs b)) mod 2 ^ 32 \<and> askQty = 0) \<and>
    (\<forall>(p, bidQty, askQty)\<in>set ask_rows.
       bidQty = 0 \<and> unat askQty = total_at p (ask_queue (book_abs b)) mod 2 ^ 32)"
proof -
  note inv = reachable_book_inv [OF assms]
  have ok: "side_ok std_greater BUY b (bids b)" "side_ok std_less SELL b (asks b)" "uncrossed b"
    using inv by (simp_all add: book_inv_def)
  have sorted: "sorted_keys std_greater (bids b)" "sorted_keys std_less (asks b)"
    using ok by (simp_all add: side_ok_def)
  have apart: "\<forall>l\<in>set (bids b). \<forall>k\<in>set (asks b). sint (fst l) < sint (fst k)"
  proof (intro ballI)
    fix l k
    assume "l \<in> set (bids b)" "k \<in> set (asks b)"
    then obtain x y where "(fst l, x) \<in> set (queue_of (bids b))" "(fst k, y) \<in> set (queue_of (asks b))"
      using ok level_in_queue unfolding side_ok_def by blast
    then show "sint (fst l) < sint (fst k)" using ok(3) by (force simp: uncrossed_def)
  qed
  have rows: "PrintOrderbook b = map (bid_row b) (bids b) @ map (ask_row b) (asks b)"
    unfolding PrintOrderbook_def by (rule print_rows_uncrossed [OF apart])
  have "distinct (map fst (bids b))" "distinct (map fst (asks b))"
    using sorted by (simp_all add: bid.sorted_distinct ask.sorted_distinct)
  note bid = side_rows [OF ok(1) this(1)] and ask = side_rows [OF ok(2) this(2)]
  show ?thesis
    using apart sorted bid ask
    by (intro exI [of _ "map (bid_row b) (bids b)"] exI [of _ "map (ask_row b) (asks b)"])
      (auto simp: rows bid_row_def ask_row_def book_abs_def image_image sorted_wrt_map sorted_keys_def
        std_greater_def std_less_def)
qed

text \<open>One bid of 6 at 100, and two asks of 3 and 5 that share the level 101.\<close>

lemma single_row: "fst ` set rs = {p} \<Longrightarrow> sorted_wrt (\<lambda>r s. fst r \<noteq> fst s) rs \<Longrightarrow> \<exists>r. rs = [r] \<and> fst r = p"
  by (cases rs rule: remdups_adj.cases) auto

theorem PrintOrderbook_lists_levels_witness:
  "PrintOrderbook example_two_sided = [(100, 6, 0), (101, 0, 8)]"
proof -
  have queues: "map e_price (bid_queue (book_abs example_two_sided)) = [100]"
    "map e_qty (bid_queue (book_abs example_two_sided)) = [6]"
    "map e_price (ask_queue (book_abs example_two_sided)) = [101, 101]"
    "map e_qty (ask_queue (book_abs example_two_sided)) = [3, 5]"
    by (simp_all add: example_two_sided_def example_simps book_abs_def entries_def entry_def example_match_simps)
  then have totals: "total_at 100 (bid_queue (book_abs example_two_sided)) = 6"
    "total_at 101 (ask_queue (book_abs example_two_sided)) = 8"
    by (auto simp: total_at_def depth_def map_eq_Cons_conv)
  have prices: "e_price ` set (bid_queue (book_abs example_two_sided)) = {100}"
    "e_price ` set (ask_queue (book_abs example_two_sided)) = {101}"
    using queues(1,3) by (simp_all flip: list.set_map)
  obtain rs ss where rows: "PrintOrderbook example_two_sided = rs @ ss"
    "sorted_wrt (\<lambda>r s. sint (fst s) < sint (fst r)) rs" "sorted_wrt (\<lambda>r s. sint (fst r) < sint (fst s)) ss"
    "fst ` set rs = {100}" "fst ` set ss = {101}"
    "\<forall>(p, b, a)\<in>set rs. unat b = total_at p (bid_queue (book_abs example_two_sided)) mod 2 ^ 32 \<and> a = 0"
    "\<forall>(p, b, a)\<in>set ss. b = 0 \<and> unat a = total_at p (ask_queue (book_abs example_two_sided)) mod 2 ^ 32"
    using PrintOrderbook_lists_levels [OF example_two_sided_reachable] unfolding prices by blast
  have "sorted_wrt (\<lambda>r s. fst r \<noteq> fst s) rs" "sorted_wrt (\<lambda>r s. fst r \<noteq> fst s) ss"
    by (rule sorted_wrt_mono_rel [OF _ rows(2)], force) (rule sorted_wrt_mono_rel [OF _ rows(3)], force)
  then obtain r s where single: "rs = [r]" "fst r = 100" "ss = [s]" "fst s = 101"
    using single_row rows(4,5) by metis
  obtain b a where r: "r = (100, b, a)" using single(2) by (cases r) auto
  obtain b' a' where s: "s = (101, b', a')" using single(4) by (cases s) auto
  have "unat b = unat (6 :: Quantity)" "unat a' = unat (8 :: Quantity)" "a = 0" "b' = 0"
    using rows(6,7) by (simp_all add: single r s totals)
  then show ?thesis by (simp add: rows(1) single r s word_unat_eq_iff)
qed

end
