(* ===== verification/Ring_Queue.thy ===== *)
theory Ring_Queue
  imports Exchange_Prelude
begin

text \<open>
  The bounded queues of \<^verbatim>\<open>include/LockFreeQueue.h\<close>: \<open>SPSCQueue\<close> and \<open>MPSCQueue\<close> over a
  ring buffer whose indices are masked with \<^verbatim>\<open>Capacity - 1\<close>. The template argument
  \<^verbatim>\<open>Capacity\<close> is the first argument of the operations. Both overloads of \<open>push\<close> (copy and
  move) store the same value and have one model.

  The locale \<open>bounded_queue\<close> is the contract the other components use: a first-in first-out
  list of bounded length. It is interpreted for the three queues of the exchange.
\<close>

unbundle bit_operations_syntax

section \<open>The ring buffer\<close>

record 'a SPSCQueue =
  q_head :: size_t
  q_tail :: size_t
  q_buffer :: "size_t \<Rightarrow> 'a"

definition INBOUND_QUEUE_SIZE :: size_t where "INBOUND_QUEUE_SIZE = 65536"

definition OUTBOUND_QUEUE_SIZE :: size_t where "OUTBOUND_QUEUE_SIZE = 65536"

definition FEED_QUEUE_SIZE :: size_t where "FEED_QUEUE_SIZE = 16384"

text \<open>The \<^verbatim>\<open>static_assert\<close> of both classes.\<close>

definition capacity_assert :: "size_t \<Rightarrow> bool" where
  "capacity_assert capacity \<longleftrightarrow> capacity AND (capacity - 1) = 0"

text \<open>A new queue holds \<open>Capacity\<close> default-constructed elements.\<close>

definition spsc_new :: "'a \<Rightarrow> 'a SPSCQueue" where
  "spsc_new d = \<lparr>q_head = 0, q_tail = 0, q_buffer = (\<lambda>_. d)\<rparr>"

definition spsc_push ::
  "size_t \<Rightarrow> 'a \<Rightarrow> ('a, 'm) SPSCQueue_scheme \<Rightarrow> bool \<times> ('a, 'm) SPSCQueue_scheme" where
  "spsc_push capacity item q =
     (let currentTail = q_tail q;
          nextTail = (currentTail + 1) AND (capacity - 1)
      in if nextTail = q_head q then (False, q)
         else (True, q\<lparr>q_buffer := (q_buffer q)(currentTail := item), q_tail := nextTail\<rparr>))"

definition spsc_pop ::
  "size_t \<Rightarrow> ('a, 'm) SPSCQueue_scheme \<Rightarrow> 'a option \<times> ('a, 'm) SPSCQueue_scheme" where
  "spsc_pop capacity q =
     (let currentHead = q_head q
      in if currentHead = q_tail q then (None, q)
         else (Some (q_buffer q currentHead),
               q\<lparr>q_head := (currentHead + 1) AND (capacity - 1)\<rparr>))"

definition spsc_empty :: "('a, 'm) SPSCQueue_scheme \<Rightarrow> bool" where
  "spsc_empty q \<longleftrightarrow> q_head q = q_tail q"

definition spsc_size :: "size_t \<Rightarrow> ('a, 'm) SPSCQueue_scheme \<Rightarrow> size_t" where
  "spsc_size capacity q = (q_tail q - q_head q + capacity) AND (capacity - 1)"

section \<open>The multi-producer queue\<close>

text \<open>
  \<open>MPSCQueue\<close> adds the producers' spin lock. A call of \<open>push\<close> that finds the lock taken spins
  until its holder releases it: run alone it never returns, which is \<open>None\<close>.
\<close>

record 'a MPSCQueue = "'a SPSCQueue" +
  producerLock :: bool

definition mpsc_new :: "'a \<Rightarrow> 'a MPSCQueue" where
  "mpsc_new d = \<lparr>q_head = 0, q_tail = 0, q_buffer = (\<lambda>_. d), producerLock = False\<rparr>"

definition mpsc_push :: "size_t \<Rightarrow> 'a \<Rightarrow> 'a MPSCQueue \<Rightarrow> (bool \<times> 'a MPSCQueue) option" where
  "mpsc_push capacity item q =
     (if producerLock q then None
      else
        let q1 = q\<lparr>producerLock := True\<rparr>;
            currentTail = q_tail q1;
            nextTail = (currentTail + 1) AND (capacity - 1)
        in if nextTail = q_head q1 then Some (False, q1\<lparr>producerLock := False\<rparr>)
           else Some (True, q1\<lparr>q_buffer := (q_buffer q1)(currentTail := item),
                               q_tail := nextTail, producerLock := False\<rparr>))"

definition mpsc_pop :: "size_t \<Rightarrow> 'a MPSCQueue \<Rightarrow> 'a option \<times> 'a MPSCQueue" where
  "mpsc_pop capacity q =
     (let currentHead = q_head q
      in if currentHead = q_tail q then (None, q)
         else (Some (q_buffer q currentHead),
               q\<lparr>q_head := (currentHead + 1) AND (capacity - 1)\<rparr>))"

definition mpsc_empty :: "'a MPSCQueue \<Rightarrow> bool" where
  "mpsc_empty q \<longleftrightarrow> q_head q = q_tail q"

definition mpsc_size :: "size_t \<Rightarrow> 'a MPSCQueue \<Rightarrow> size_t" where
  "mpsc_size capacity q = (q_tail q - q_head q + capacity) AND (capacity - 1)"

section \<open>Indices as numbers modulo the capacity\<close>

definition is_capacity :: "size_t \<Rightarrow> bool" where
  "is_capacity capacity \<longleftrightarrow> (\<exists>k<64. capacity = 2 ^ k)"

lemma queue_sizes_are_capacities:
  "is_capacity INBOUND_QUEUE_SIZE" "is_capacity OUTBOUND_QUEUE_SIZE" "is_capacity FEED_QUEUE_SIZE"
  unfolding is_capacity_def INBOUND_QUEUE_SIZE_def OUTBOUND_QUEUE_SIZE_def FEED_QUEUE_SIZE_def
  by (rule exI [of _ 16], simp) (rule exI [of _ 16], simp, rule exI [of _ 14], simp)

lemma unat_exp: "k < 64 \<Longrightarrow> unat (2 ^ k :: size_t) = 2 ^ k"
proof -
  assume "k < 64"
  then have "(2::nat) ^ k < 2 ^ 64" by (intro power_strict_increasing) auto
  moreover have "(2 ^ k :: size_t) = word_of_nat (2 ^ k)" by simp
  ultimately show ?thesis by (simp only: unat_of_nat) simp
qed

lemma unat_mask_index:
  assumes "is_capacity capacity"
  shows "unat (x AND (capacity - 1)) = unat x mod unat capacity"
proof -
  obtain k where k: "k < 64" "capacity = 2 ^ k" using assms by (auto simp: is_capacity_def)
  have "x AND (capacity - 1) = take_bit k x"
    by (simp add: k flip: take_bit_eq_mask mask_eq_exp_minus_1)
  moreover have "unat (take_bit k x) = unat x mod 2 ^ k"
    by (rule trans [OF unsigned_take_bit_eq take_bit_eq_mod])
  ultimately show ?thesis by (simp only: k unat_exp)
qed

lemma capacity_bounds: "is_capacity capacity \<Longrightarrow> 0 < unat capacity \<and> 2 * unat capacity \<le> 2 ^ 64"
proof -
  assume "is_capacity capacity"
  then obtain k where k: "k < 64" "capacity = 2 ^ k" by (auto simp: is_capacity_def)
  then have "(2::nat) ^ k \<le> 2 ^ 63" by (intro power_increasing) auto
  then show ?thesis by (simp add: k unat_exp)
qed

text \<open>Going round the ring, with both numbers below the capacity.\<close>

lemma mod_wrap: "h < C \<Longrightarrow> i < C \<Longrightarrow> (h + i) mod C = (if h + i < C then h + i else h + i - C)"
  for C :: nat
  by (simp add: mod_if)

lemma ring_count:
  "h < C \<Longrightarrow> t < C \<Longrightarrow> (t + C - h) mod C = (if h \<le> t then t - h else t + C - h)"
  for C :: nat
  by (auto simp: mod_if)

section \<open>The queue as a list\<close>

definition rb_inv :: "size_t \<Rightarrow> ('a, 'm) SPSCQueue_scheme \<Rightarrow> bool" where
  "rb_inv capacity q \<longleftrightarrow>
     is_capacity capacity \<and> unat (q_head q) < unat capacity \<and> unat (q_tail q) < unat capacity"

definition rb_count :: "size_t \<Rightarrow> ('a, 'm) SPSCQueue_scheme \<Rightarrow> nat" where
  "rb_count capacity q =
     (unat (q_tail q) + unat capacity - unat (q_head q)) mod unat capacity"

definition rb_index :: "size_t \<Rightarrow> ('a, 'm) SPSCQueue_scheme \<Rightarrow> nat \<Rightarrow> size_t" where
  "rb_index capacity q i = word_of_nat ((unat (q_head q) + i) mod unat capacity)"

definition rb_list :: "size_t \<Rightarrow> ('a, 'm) SPSCQueue_scheme \<Rightarrow> 'a list" where
  "rb_list capacity q = map (\<lambda>i. q_buffer q (rb_index capacity q i)) [0..<rb_count capacity q]"

lemma length_rb_list [simp]: "length (rb_list capacity q) = rb_count capacity q"
  by (simp add: rb_list_def)

lemma rb_count_bound: "rb_inv capacity q \<Longrightarrow> rb_count capacity q < unat capacity"
  by (simp add: rb_count_def rb_inv_def)

text \<open>The masked successor of an index.\<close>

lemma unat_next:
  assumes "is_capacity capacity" and "unat x < unat capacity"
  shows "unat ((x + 1) AND (capacity - 1)) =
    (if Suc (unat x) = unat capacity then 0 else Suc (unat x))"
proof -
  have "unat x + 1 < 2 ^ 64" using assms capacity_bounds [OF assms(1)] by simp
  then have "unat (x + 1) = Suc (unat x)" by (simp add: unat_word_ariths)
  then show ?thesis using assms by (simp add: unat_mask_index mod_if)
qed

lemma unat_rb_index:
  assumes "rb_inv capacity q"
  shows "unat (rb_index capacity q i) = (unat (q_head q) + i) mod unat capacity"
proof -
  have C: "0 < unat capacity" "2 * unat capacity \<le> 2 ^ 64"
    using assms capacity_bounds [of capacity] by (simp_all add: rb_inv_def)
  then have "(unat (q_head q) + i) mod unat capacity < unat capacity" by simp
  with C(2) have "(unat (q_head q) + i) mod unat capacity < 2 ^ LENGTH(64)" by simp
  then show ?thesis unfolding rb_index_def by (rule of_nat_inverse [OF refl])
qed

lemma push_full_iff:
  assumes "rb_inv capacity q"
  shows "(q_tail q + 1) AND (capacity - 1) = q_head q \<longleftrightarrow>
    Suc (rb_count capacity q) = unat capacity"
proof -
  note inv = assms [unfolded rb_inv_def]
  have "(q_tail q + 1) AND (capacity - 1) = q_head q \<longleftrightarrow>
      unat ((q_tail q + 1) AND (capacity - 1)) = unat (q_head q)"
    by (rule word_unat_eq_iff)
  then show ?thesis
    using inv unat_next [of capacity "q_tail q"] by (auto simp: rb_count_def ring_count)
qed

lemma rb_push:
  fixes q :: "('a, 'm) SPSCQueue_scheme" and x :: 'a
  assumes inv: "rb_inv capacity q" and room: "Suc (rb_count capacity q) \<noteq> unat capacity"
  defines "q' \<equiv> q\<lparr>q_buffer := (q_buffer q)(q_tail q := x),
                  q_tail := (q_tail q + 1) AND (capacity - 1)\<rparr>"
  shows "rb_inv capacity q'" and "rb_list capacity q' = rb_list capacity q @ [x]"
proof -
  note cap = inv [unfolded rb_inv_def]
  note nxt = unat_next [of capacity "q_tail q"]
  show inv': "rb_inv capacity q'" using cap nxt by (auto simp: rb_inv_def q'_def)
  have count: "rb_count capacity q' = Suc (rb_count capacity q)"
    using cap nxt room by (auto simp: rb_count_def q'_def ring_count split: if_splits)
  have idx: "rb_index capacity q' i = rb_index capacity q i" for i
    by (simp add: rb_index_def q'_def)
  have last: "rb_index capacity q (rb_count capacity q) = q_tail q"
    using cap rb_count_bound [OF inv]
    by (intro word_unat_eq_iff [THEN iffD2])
      (auto simp: unat_rb_index [OF inv] rb_count_def ring_count mod_wrap split: if_splits)
  have others: "rb_index capacity q i \<noteq> q_tail q" if "i < rb_count capacity q" for i
  proof
    assume "rb_index capacity q i = q_tail q"
    then have "(unat (q_head q) + i) mod unat capacity = unat (q_tail q)"
      using unat_rb_index [OF inv, of i] by simp
    with cap that rb_count_bound [OF inv] show False
      by (auto simp: rb_count_def ring_count mod_wrap split: if_splits)
  qed
  have "map (\<lambda>i. q_buffer q' (rb_index capacity q i)) [0..<rb_count capacity q] =
      rb_list capacity q"
    unfolding rb_list_def using others by (intro map_cong) (auto simp: q'_def)
  moreover have "q_buffer q' (q_tail q) = x" by (simp add: q'_def)
  ultimately show "rb_list capacity q' = rb_list capacity q @ [x]"
    by (simp add: rb_list_def [of capacity q'] count idx last)
qed

lemma pop_empty_iff:
  assumes "rb_inv capacity q"
  shows "q_head q = q_tail q \<longleftrightarrow> rb_count capacity q = 0"
  using assms by (auto simp: rb_inv_def rb_count_def ring_count word_unat_eq_iff)

lemma rb_pop:
  assumes inv: "rb_inv capacity q" and some: "rb_count capacity q \<noteq> 0"
  defines "q' \<equiv> q\<lparr>q_head := (q_head q + 1) AND (capacity - 1)\<rparr>"
  shows "rb_inv capacity q'" and "rb_list capacity q = q_buffer q (q_head q) # rb_list capacity q'"
proof -
  note cap = inv [unfolded rb_inv_def]
  note nxt = unat_next [of capacity "q_head q"]
  show inv': "rb_inv capacity q'" using cap nxt by (auto simp: rb_inv_def q'_def)
  have count: "rb_count capacity q = Suc (rb_count capacity q')"
    using cap nxt some by (auto simp: rb_count_def q'_def ring_count split: if_splits)
  have first: "rb_index capacity q 0 = q_head q"
    using cap by (intro word_unat_eq_iff [THEN iffD2]) (simp add: unat_rb_index [OF inv])
  have idx: "rb_index capacity q (Suc i) = rb_index capacity q' i" if "i < rb_count capacity q'" for i
  proof -
    have "Suc i < unat capacity" using that count rb_count_bound [OF inv] by simp
    moreover have "unat (q_head q') = unat ((q_head q + 1) AND (capacity - 1))"
      by (simp add: q'_def)
    ultimately show ?thesis
      using cap nxt mod_wrap [of "unat (q_head q)" "unat capacity" "Suc i"]
        mod_wrap [of "unat (q_head q')" "unat capacity" i]
      by (intro word_unat_eq_iff [THEN iffD2])
        (auto simp: unat_rb_index [OF inv] unat_rb_index [OF inv'] split: if_splits)
  qed
  have "rb_list capacity q = q_buffer q (q_head q) #
      map (\<lambda>i. q_buffer q (rb_index capacity q (Suc i))) [0..<rb_count capacity q']"
    by (simp add: rb_list_def count upt_conv_Cons first map_Suc_upt [symmetric] o_def del: upt_Suc)
  also have "map (\<lambda>i. q_buffer q (rb_index capacity q (Suc i))) [0..<rb_count capacity q'] =
      rb_list capacity q'"
    unfolding rb_list_def using idx by (intro map_cong) (auto simp: q'_def)
  finally show "rb_list capacity q = q_buffer q (q_head q) # rb_list capacity q'" .
qed

lemma spsc_size_count:
  assumes inv: "rb_inv capacity q"
  shows "unat (spsc_size capacity q) = length (rb_list capacity q)"
proof -
  note cap = inv [unfolded rb_inv_def]
  note bounds = capacity_bounds [of capacity]
  have "unat (q_tail q - q_head q + capacity) mod unat capacity = rb_count capacity q"
  proof (cases "q_head q \<le> q_tail q")
    case True
    then have "unat (q_tail q - q_head q) = unat (q_tail q) - unat (q_head q)" by (rule unat_sub)
    moreover have "unat (q_tail q) - unat (q_head q) + unat capacity < 2 ^ LENGTH(64)"
      using cap bounds by auto
    ultimately have "unat (q_tail q - q_head q + capacity) =
        unat (q_tail q) - unat (q_head q) + unat capacity"
      using unat_add_lem [of "q_tail q - q_head q" capacity] by simp
    then show ?thesis
      using True cap by (simp add: rb_count_def ring_count word_le_nat_alt)
  next
    case False
    have "unat (q_tail q + capacity) = unat (q_tail q) + unat capacity"
      using cap bounds by (simp add: unat_word_ariths)
    moreover from this have "q_head q \<le> q_tail q + capacity"
      using cap by (simp add: word_le_nat_alt)
    ultimately have "unat (q_tail q + capacity - q_head q) =
        unat (q_tail q) + unat capacity - unat (q_head q)"
      by (simp add: unat_sub)
    moreover have "q_tail q - q_head q + capacity = q_tail q + capacity - q_head q" by simp
    ultimately show ?thesis unfolding rb_count_def by argo
  qed
  then show ?thesis
    using cap by (simp add: spsc_size_def unat_mask_index)
qed

section \<open>The contract of a bounded queue\<close>

text \<open>
  \<open>push\<close> reports whether the element went in; a full queue refuses it and is unchanged.
  \<open>pop\<close> takes the oldest element.
\<close>

locale bounded_queue =
  fixes push :: "'a \<Rightarrow> 'q \<Rightarrow> bool \<times> 'q"
    and pop :: "'q \<Rightarrow> 'a option \<times> 'q"
    and contents :: "'q \<Rightarrow> 'a list"
    and inv :: "'q \<Rightarrow> bool"
    and bound :: nat
  assumes length_bound: "inv q \<Longrightarrow> length (contents q) \<le> bound"
    and push_room: "inv q \<Longrightarrow> length (contents q) < bound \<Longrightarrow>
      \<exists>q'. push x q = (True, q') \<and> inv q' \<and> contents q' = contents q @ [x]"
    and push_full: "inv q \<Longrightarrow> length (contents q) = bound \<Longrightarrow> push x q = (False, q)"
    and pop_empty: "inv q \<Longrightarrow> contents q = [] \<Longrightarrow> pop q = (None, q)"
    and pop_some: "inv q \<Longrightarrow> contents q = y # ys \<Longrightarrow>
      \<exists>q'. pop q = (Some y, q') \<and> inv q' \<and> contents q' = ys"
begin

text \<open>A caller that ignores the result of \<open>push\<close> loses what does not fit.\<close>

lemma push_contents:
  assumes "inv q"
  shows "inv (snd (push x q))" and "contents (snd (push x q)) = take bound (contents q @ [x])"
    and "fst (push x q) \<longleftrightarrow> length (contents q) < bound"
proof -
  have "inv (snd (push x q)) \<and> contents (snd (push x q)) = take bound (contents q @ [x]) \<and>
      (fst (push x q) \<longleftrightarrow> length (contents q) < bound)"
  proof (cases "length (contents q) < bound")
    case True
    with push_room [OF assms this, of x] show ?thesis by auto
  next
    case False
    with length_bound [OF assms] have "length (contents q) = bound" by simp
    with push_full [OF assms this, of x] assms show ?thesis by simp
  qed
  then show "inv (snd (push x q))" and "contents (snd (push x q)) = take bound (contents q @ [x])"
    and "fst (push x q) \<longleftrightarrow> length (contents q) < bound" by blast+
qed

lemma push_all_contents:
  "inv q \<Longrightarrow> inv (foldl (\<lambda>q x. snd (push x q)) q xs) \<and>
   contents (foldl (\<lambda>q x. snd (push x q)) q xs) = take bound (contents q @ xs)"
proof (induction xs arbitrary: q)
  case Nil
  then show ?case using length_bound by simp
next
  case (Cons x xs)
  have "take bound (take bound (contents q @ [x]) @ xs) = take bound (contents q @ x # xs)"
    using length_bound [OF Cons.prems] by (cases "length (contents q) < bound") auto
  with Cons.IH [OF push_contents(1) [OF Cons.prems]] push_contents(2) [OF Cons.prems]
  show ?case by simp
qed

lemma pop_contents:
  assumes "inv q"
  shows "inv (snd (pop q))" and "contents (snd (pop q)) = tl (contents q)"
    and "fst (pop q) = (case contents q of [] \<Rightarrow> None | y # ys \<Rightarrow> Some y)"
proof -
  have "inv (snd (pop q)) \<and> contents (snd (pop q)) = tl (contents q) \<and>
      fst (pop q) = (case contents q of [] \<Rightarrow> None | y # ys \<Rightarrow> Some y)"
  proof (cases "contents q")
    case Nil
    with pop_empty [OF assms Nil] assms show ?thesis by simp
  next
    case (Cons y ys)
    with pop_some [OF assms Cons] show ?thesis by auto
  qed
  then show "inv (snd (pop q))" and "contents (snd (pop q)) = tl (contents q)"
    and "fst (pop q) = (case contents q of [] \<Rightarrow> None | y # ys \<Rightarrow> Some y)" by blast+
qed

text \<open>What goes into a queue with room comes out last, and comes out unchanged.\<close>

lemma push_then_pop_order:
  assumes "inv q" and "length (contents q @ xs) \<le> bound"
  shows "contents (foldl (\<lambda>q x. snd (push x q)) q xs) = contents q @ xs"
  using push_all_contents [OF assms(1), of xs] assms(2) by simp

end

lemma spsc_bounded_queue:
  assumes "is_capacity capacity"
  shows "bounded_queue (spsc_push capacity) (spsc_pop capacity) (rb_list capacity)
    (rb_inv capacity) (unat capacity - 1)"
proof
  fix q :: "('a, 'm) SPSCQueue_scheme" and x y ys
  assume inv: "rb_inv capacity q"
  show "length (rb_list capacity q) \<le> unat capacity - 1"
    using rb_count_bound [OF inv] by simp
  {
    assume "length (rb_list capacity q) < unat capacity - 1"
    then have room: "Suc (rb_count capacity q) \<noteq> unat capacity" by simp
    with rb_push [OF inv room, of x] push_full_iff [OF inv]
    show "\<exists>q'. spsc_push capacity x q = (True, q') \<and> rb_inv capacity q' \<and>
        rb_list capacity q' = rb_list capacity q @ [x]"
      by (simp add: spsc_push_def Let_def)
  next
    assume "length (rb_list capacity q) = unat capacity - 1"
    then show "spsc_push capacity x q = (False, q)"
      using push_full_iff [OF inv] capacity_bounds [OF assms] by (simp add: spsc_push_def Let_def)
  next
    assume "rb_list capacity q = []"
    then have "rb_count capacity q = 0" by (metis length_rb_list list.size(3))
    then show "spsc_pop capacity q = (None, q)"
      using pop_empty_iff [OF inv] by (simp add: spsc_pop_def)
  next
    assume list: "rb_list capacity q = y # ys"
    then have some: "rb_count capacity q \<noteq> 0" by (metis length_rb_list list.size(4) Suc_not_Zero add_Suc_right)
    with rb_pop [OF inv some] list pop_empty_iff [OF inv]
    show "\<exists>q'. spsc_pop capacity q = (Some y, q') \<and> rb_inv capacity q' \<and> rb_list capacity q' = ys"
      by (simp add: spsc_pop_def Let_def)
  }
qed

text \<open>A push on the inbound queue returns when no other producer holds the lock.\<close>

definition mpsc_inv :: "size_t \<Rightarrow> 'a MPSCQueue \<Rightarrow> bool" where
  "mpsc_inv capacity q \<longleftrightarrow> rb_inv capacity q \<and> \<not> producerLock q"

lemma mpsc_push_spsc:
  assumes "\<not> producerLock q"
  shows "mpsc_push capacity x q = Some (spsc_push capacity x q)"
  using assms by (cases q) (simp add: mpsc_push_def spsc_push_def Let_def)

lemma mpsc_pop_spsc: "mpsc_pop capacity q = spsc_pop capacity q"
  by (simp add: mpsc_pop_def spsc_pop_def)

lemma producerLock_spsc:
  "spsc_push capacity x q = (r, q') \<Longrightarrow> producerLock q' = producerLock q"
  "spsc_pop capacity q = (y, q') \<Longrightarrow> producerLock q' = producerLock q"
  by (auto simp: spsc_push_def spsc_pop_def Let_def split: if_splits)

lemma mpsc_bounded_queue:
  assumes "is_capacity capacity"
  shows "bounded_queue (\<lambda>x q. the (mpsc_push capacity x q)) (mpsc_pop capacity)
    (rb_list capacity) (mpsc_inv capacity) (unat capacity - 1)"
proof
  fix q :: "'a MPSCQueue" and x y ys
  note queue = spsc_bounded_queue [OF assms]
  assume inv: "mpsc_inv capacity q"
  then have rb: "rb_inv capacity q" and lock: "\<not> producerLock q" by (simp_all add: mpsc_inv_def)
  note push = mpsc_push_spsc [OF lock]
  show "length (rb_list capacity q) \<le> unat capacity - 1"
    by (rule bounded_queue.length_bound [OF queue rb])
  {
    assume "length (rb_list capacity q) < unat capacity - 1"
    from bounded_queue.push_room [OF queue rb this, of x]
    show "\<exists>q'. the (mpsc_push capacity x q) = (True, q') \<and> mpsc_inv capacity q' \<and>
        rb_list capacity q' = rb_list capacity q @ [x]"
      using lock producerLock_spsc(1) by (fastforce simp: push mpsc_inv_def)
  next
    assume "length (rb_list capacity q) = unat capacity - 1"
    from bounded_queue.push_full [OF queue rb this, of x]
    show "the (mpsc_push capacity x q) = (False, q)" by (simp add: push)
  next
    assume "rb_list capacity q = []"
    from bounded_queue.pop_empty [OF queue rb this]
    show "mpsc_pop capacity q = (None, q)" by (simp add: mpsc_pop_spsc)
  next
    assume "rb_list capacity q = y # ys"
    from bounded_queue.pop_some [OF queue rb this]
    show "\<exists>q'. mpsc_pop capacity q = (Some y, q') \<and> mpsc_inv capacity q' \<and>
        rb_list capacity q' = ys"
      using lock producerLock_spsc(2) by (fastforce simp: mpsc_pop_spsc mpsc_inv_def)
  }
qed

text \<open>The three queues of the exchange.\<close>

interpretation inbound: bounded_queue
  "\<lambda>x q. the (mpsc_push INBOUND_QUEUE_SIZE x q)" "mpsc_pop INBOUND_QUEUE_SIZE"
  "rb_list INBOUND_QUEUE_SIZE" "mpsc_inv INBOUND_QUEUE_SIZE" "unat INBOUND_QUEUE_SIZE - 1"
  by (rule mpsc_bounded_queue [OF queue_sizes_are_capacities(1)])

interpretation outbound: bounded_queue
  "spsc_push OUTBOUND_QUEUE_SIZE" "spsc_pop OUTBOUND_QUEUE_SIZE"
  "rb_list OUTBOUND_QUEUE_SIZE" "rb_inv OUTBOUND_QUEUE_SIZE" "unat OUTBOUND_QUEUE_SIZE - 1"
  by (rule spsc_bounded_queue [OF queue_sizes_are_capacities(2)])

interpretation feed: bounded_queue
  "spsc_push FEED_QUEUE_SIZE" "spsc_pop FEED_QUEUE_SIZE"
  "rb_list FEED_QUEUE_SIZE" "rb_inv FEED_QUEUE_SIZE" "unat FEED_QUEUE_SIZE - 1"
  by (rule spsc_bounded_queue [OF queue_sizes_are_capacities(3)])

section \<open>Properties\<close>

text \<open>
  The single-producer queue is a first-in first-out list of at most
  \<^verbatim>\<open>Capacity - 1\<close> elements, for every power-of-two capacity and wherever the indices stand in
  the ring: a push succeeds exactly when there is room and then appends, a refused push changes
  nothing, and a pop takes the oldest element or reports an empty queue.
\<close>

theorem spsc_queue_is_bounded_fifo:
  assumes "rb_inv capacity q"
  shows "(fst (spsc_push capacity x q) \<longleftrightarrow> length (rb_list capacity q) < unat capacity - 1) \<and>
    rb_inv capacity (snd (spsc_push capacity x q)) \<and>
    rb_list capacity (snd (spsc_push capacity x q)) =
      (if length (rb_list capacity q) < unat capacity - 1 then rb_list capacity q @ [x]
       else rb_list capacity q) \<and>
    fst (spsc_pop capacity q) = (case rb_list capacity q of [] \<Rightarrow> None | y # ys \<Rightarrow> Some y) \<and>
    rb_inv capacity (snd (spsc_pop capacity q)) \<and>
    rb_list capacity (snd (spsc_pop capacity q)) = tl (rb_list capacity q)"
proof -
  have cap: "is_capacity capacity" using assms by (simp add: rb_inv_def)
  note queue = spsc_bounded_queue [OF cap]
  note push = bounded_queue.push_contents [OF queue assms, of x]
  note pop = bounded_queue.pop_contents [OF queue assms]
  have "length (rb_list capacity q) \<le> unat capacity - 1"
    by (rule bounded_queue.length_bound [OF queue assms])
  then show ?thesis using push pop by (auto simp: not_less)
qed

text \<open>A ring of four whose indices have gone round: two elements in, the third does not fit.\<close>

theorem spsc_queue_is_bounded_fifo_witness:
  "let q = \<lparr>q_head = 3, q_tail = 1, q_buffer = (\<lambda>i. unat i)\<rparr> in
   rb_list 4 q = [3, 0] \<and> fst (spsc_push 4 9 q) \<and> rb_list 4 (snd (spsc_push 4 9 q)) = [3, 0, 9] \<and>
   fst (spsc_pop 4 q) = Some 3"
proof -
  let ?q = "\<lparr>q_head = 3, q_tail = 1, q_buffer = (\<lambda>i. unat i)\<rparr> :: nat SPSCQueue"
  have "is_capacity (4 :: size_t)" unfolding is_capacity_def by (rule exI [of _ 2]) simp
  then have inv: "rb_inv 4 ?q" by (simp add: rb_inv_def)
  have list: "rb_list 4 ?q = [3, 0]" by (simp add: rb_list_def rb_count_def rb_index_def upt_rec)
  from spsc_queue_is_bounded_fifo [OF inv, of 9] list show ?thesis by (simp add: Let_def)
qed

text \<open>
  \<open>size\<close> and \<open>empty\<close> report the number of queued elements, although
  \<^verbatim>\<open>tail - head + Capacity\<close> is computed in wrapping 64-bit arithmetic, and there are never
  more than \<^verbatim>\<open>Capacity - 1\<close>.
\<close>

theorem spsc_size_exact:
  assumes "rb_inv capacity q"
  shows "unat (spsc_size capacity q) = length (rb_list capacity q) \<and>
    (spsc_empty q \<longleftrightarrow> rb_list capacity q = []) \<and> length (rb_list capacity q) < unat capacity"
  using spsc_size_count [OF assms] pop_empty_iff [OF assms] rb_count_bound [OF assms]
    length_rb_list [of capacity q]
  by (auto simp: spsc_empty_def simp del: length_rb_list)

theorem spsc_size_exact_witness:
  "unat (spsc_size INBOUND_QUEUE_SIZE (\<lparr>q_head = 65535, q_tail = 2, q_buffer = (\<lambda>_. 0)\<rparr> :: nat SPSCQueue)) = 3"
proof -
  let ?q = "\<lparr>q_head = 65535, q_tail = 2, q_buffer = (\<lambda>_. 0)\<rparr> :: nat SPSCQueue"
  have inv: "rb_inv INBOUND_QUEUE_SIZE ?q"
    using queue_sizes_are_capacities(1) by (simp add: rb_inv_def INBOUND_QUEUE_SIZE_def)
  have "rb_count INBOUND_QUEUE_SIZE ?q = 3" by (simp add: rb_count_def INBOUND_QUEUE_SIZE_def)
  with spsc_size_exact [OF inv] show ?thesis by simp
qed

lemma mpsc_size_exact:
  assumes "mpsc_inv capacity q"
  shows "unat (mpsc_size capacity q) = length (rb_list capacity q)"
    and "mpsc_empty q \<longleftrightarrow> rb_list capacity q = []"
  using spsc_size_count [of capacity q] pop_empty_iff [of capacity q] assms length_rb_list [of capacity q]
  by (auto simp: mpsc_size_def mpsc_empty_def spsc_size_def mpsc_inv_def simp del: length_rb_list)

text \<open>
  A push on the multi-producer queue returns exactly when the lock is free; it then
  leaves the lock free and does what the single-producer push does.
\<close>

theorem mpsc_push_returns_iff_unlocked:
  "(mpsc_push capacity x q = None \<longleftrightarrow> producerLock q) \<and>
   (mpsc_push capacity x q \<noteq> None \<longrightarrow>
      mpsc_push capacity x q = Some (spsc_push capacity x q) \<and>
      \<not> producerLock (snd (spsc_push capacity x q)))"
proof (cases "producerLock q")
  case True
  then show ?thesis by (simp add: mpsc_push_def)
next
  case False
  then show ?thesis
    using mpsc_push_spsc [OF False] producerLock_spsc(1) [of capacity x q] by (metis option.distinct(1) prod.collapse)
qed

theorem mpsc_push_returns_iff_unlocked_witness:
  "mpsc_push 4 (9 :: nat) (mpsc_new 0) = Some (spsc_push 4 9 (mpsc_new 0))"
proof -
  have "mpsc_push 4 (9 :: nat) (mpsc_new 0) \<noteq> None"
    using mpsc_push_returns_iff_unlocked [of 4 "9 :: nat" "mpsc_new 0"] by (simp add: mpsc_new_def)
  from mp [OF conjunct2 [OF mpsc_push_returns_iff_unlocked] this] show ?thesis by (rule conjunct1)
qed

end
