(* ===== verification/Protocol_Msgs.thy ===== *)
theory Protocol_Msgs
  imports Order_Object
begin

text \<open>
  The messages of \<^verbatim>\<open>include/Protocol.h\<close>: one record per packed struct, its fields in the
  struct's order behind a prefix of their own, and the wrappers \<open>InboundMessage\<close>,
  \<open>OutboundMessage\<close> and \<open>MarketDataMessage\<close> whose type tag and union are one datatype.
  \<open>MessageType\<close> is read off the wire by a cast, so it is any byte and the enumerators are
  constants. The constructors of the structs are the \<open>new_*\<close> definitions; a header takes the
  time that the clock shows as an argument.
\<close>

section \<open>Message types and reject reasons\<close>

type_synonym MessageType = "8 word"

definition NEW_ORDER_REQUEST :: MessageType where "NEW_ORDER_REQUEST = 0x01"
definition CANCEL_ORDER_REQUEST :: MessageType where "CANCEL_ORDER_REQUEST = 0x02"
definition MODIFY_ORDER_REQUEST :: MessageType where "MODIFY_ORDER_REQUEST = 0x03"
definition ORDER_ACK :: MessageType where "ORDER_ACK = 0x10"
definition ORDER_REJECT :: MessageType where "ORDER_REJECT = 0x11"
definition EXECUTION_REPORT :: MessageType where "EXECUTION_REPORT = 0x12"
definition CANCEL_ACK :: MessageType where "CANCEL_ACK = 0x13"
definition CANCEL_REJECT :: MessageType where "CANCEL_REJECT = 0x14"
definition MODIFY_ACK :: MessageType where "MODIFY_ACK = 0x15"
definition MODIFY_REJECT :: MessageType where "MODIFY_REJECT = 0x16"
definition TICK_UPDATE :: MessageType where "TICK_UPDATE = 0x20"
definition TRADE_UPDATE :: MessageType where "TRADE_UPDATE = 0x21"
definition ORDERBOOK_SNAPSHOT :: MessageType where "ORDERBOOK_SNAPSHOT = 0x22"

lemmas message_type_defs = NEW_ORDER_REQUEST_def CANCEL_ORDER_REQUEST_def MODIFY_ORDER_REQUEST_def
  ORDER_ACK_def ORDER_REJECT_def EXECUTION_REPORT_def CANCEL_ACK_def CANCEL_REJECT_def
  MODIFY_ACK_def MODIFY_REJECT_def TICK_UPDATE_def TRADE_UPDATE_def ORDERBOOK_SNAPSHOT_def

datatype RejectReason = NONE | INVALID_PRICE | INVALID_QUANTITY | INVALID_SIDE
  | INVALID_ORDER_TYPE | ORDER_NOT_FOUND | DUPLICATE_ORDER_ID | SESSION_NOT_FOUND
  | INVALID_MESSAGE | INTERNAL_ERROR

primrec RejectReason_code :: "RejectReason \<Rightarrow> 8 word" where
  "RejectReason_code NONE = 0x00"
| "RejectReason_code INVALID_PRICE = 0x01"
| "RejectReason_code INVALID_QUANTITY = 0x02"
| "RejectReason_code INVALID_SIDE = 0x03"
| "RejectReason_code INVALID_ORDER_TYPE = 0x04"
| "RejectReason_code ORDER_NOT_FOUND = 0x05"
| "RejectReason_code DUPLICATE_ORDER_ID = 0x06"
| "RejectReason_code SESSION_NOT_FOUND = 0x07"
| "RejectReason_code INVALID_MESSAGE = 0x08"
| "RejectReason_code INTERNAL_ERROR = 0xFF"

section \<open>The packed structs\<close>

record MessageHeader =
  mh_type :: MessageType
  mh_length :: "16 word"
  mh_timestamp :: "64 word"

definition new_MessageHeader :: "MessageType \<Rightarrow> 16 word \<Rightarrow> Timestamp \<Rightarrow> MessageHeader" where
  "new_MessageHeader t len now = \<lparr>mh_type = t, mh_length = len, mh_timestamp = now\<rparr>"

record NewOrderRequest =
  nor_header :: MessageHeader
  nor_clientOrderId :: "64 word"
  nor_side :: "8 word"
  nor_orderType :: "8 word"
  nor_price :: "32 word"
  nor_quantity :: "32 word"

record CancelOrderRequest =
  cor_header :: MessageHeader
  cor_clientOrderId :: "64 word"
  cor_orderId :: "64 word"

record ModifyOrderRequest =
  mor_header :: MessageHeader
  mor_clientOrderId :: "64 word"
  mor_orderId :: "64 word"
  mor_newPrice :: "32 word"
  mor_newQuantity :: "32 word"

record OrderAck =
  oa_header :: MessageHeader
  oa_clientOrderId :: "64 word"
  oa_orderId :: "64 word"
  oa_status :: "8 word"

record OrderReject =
  or_header :: MessageHeader
  or_clientOrderId :: "64 word"
  or_reason :: RejectReason

record ExecutionReport =
  er_header :: MessageHeader
  er_orderId :: "64 word"
  er_tradeId :: "64 word"
  er_execPrice :: "32 word"
  er_execQty :: "32 word"
  er_leavesQty :: "32 word"
  er_side :: "8 word"

record CancelAck =
  ca_header :: MessageHeader
  ca_clientOrderId :: "64 word"
  ca_orderId :: "64 word"

record CancelReject =
  cr_header :: MessageHeader
  cr_clientOrderId :: "64 word"
  cr_orderId :: "64 word"
  cr_reason :: RejectReason

record ModifyAck =
  ma_header :: MessageHeader
  ma_clientOrderId :: "64 word"
  ma_orderId :: "64 word"
  ma_newPrice :: "32 word"
  ma_newQuantity :: "32 word"

record ModifyReject =
  mr_header :: MessageHeader
  mr_clientOrderId :: "64 word"
  mr_orderId :: "64 word"
  mr_reason :: RejectReason

definition SYMBOL_LENGTH :: nat where "SYMBOL_LENGTH = 8"

record TickUpdate =
  tick_header :: MessageHeader
  tick_symbol :: "8 word list"
  tick_lastPrice :: "32 word"
  tick_lastQty :: "32 word"
  tick_bidPrice :: "32 word"
  tick_askPrice :: "32 word"
  tick_bidQty :: "32 word"
  tick_askQty :: "32 word"

record TradeUpdate =
  tu_header :: MessageHeader
  tu_symbol :: "8 word list"
  tu_tradeId :: "64 word"
  tu_price :: "32 word"
  tu_quantity :: "32 word"
  tu_aggressorSide :: "8 word"

definition MAX_DEPTH_LEVELS :: nat where "MAX_DEPTH_LEVELS = 5"

record PriceLevel =
  pl_price :: "32 word"
  pl_quantity :: "32 word"
  pl_orderCount :: "32 word"

record OrderbookSnapshot =
  obs_header :: MessageHeader
  obs_symbol :: "8 word list"
  obs_bidLevels :: "8 word"
  obs_askLevels :: "8 word"
  obs_bids :: "PriceLevel list"
  obs_asks :: "PriceLevel list"

text \<open>The sizes that \<open>sizeof\<close> yields for the packed structs.\<close>

definition sizeof_MessageHeader :: nat where "sizeof_MessageHeader = 11"
definition sizeof_NewOrderRequest :: nat where "sizeof_NewOrderRequest = 29"
definition sizeof_CancelOrderRequest :: nat where "sizeof_CancelOrderRequest = 27"
definition sizeof_ModifyOrderRequest :: nat where "sizeof_ModifyOrderRequest = 35"
definition sizeof_OrderAck :: nat where "sizeof_OrderAck = 28"
definition sizeof_OrderReject :: nat where "sizeof_OrderReject = 20"
definition sizeof_ExecutionReport :: nat where "sizeof_ExecutionReport = 40"
definition sizeof_CancelAck :: nat where "sizeof_CancelAck = 27"
definition sizeof_CancelReject :: nat where "sizeof_CancelReject = 28"
definition sizeof_ModifyAck :: nat where "sizeof_ModifyAck = 35"
definition sizeof_ModifyReject :: nat where "sizeof_ModifyReject = 28"
definition sizeof_TickUpdate :: nat where "sizeof_TickUpdate = 43"
definition sizeof_TradeUpdate :: nat where "sizeof_TradeUpdate = 36"
definition sizeof_PriceLevel :: nat where "sizeof_PriceLevel = 12"
definition sizeof_OrderbookSnapshot :: nat where "sizeof_OrderbookSnapshot = 141"

lemmas sizeof_defs = sizeof_MessageHeader_def sizeof_NewOrderRequest_def
  sizeof_CancelOrderRequest_def sizeof_ModifyOrderRequest_def sizeof_OrderAck_def
  sizeof_OrderReject_def sizeof_ExecutionReport_def sizeof_CancelAck_def sizeof_CancelReject_def
  sizeof_ModifyAck_def sizeof_ModifyReject_def sizeof_TickUpdate_def sizeof_TradeUpdate_def
  sizeof_PriceLevel_def sizeof_OrderbookSnapshot_def

section \<open>The queue messages\<close>

datatype InboundBody = NewOrderBody NewOrderRequest | CancelOrderBody CancelOrderRequest
  | ModifyOrderBody ModifyOrderRequest

record InboundMessage =
  im_sessionId :: SessionId
  im_body :: InboundBody

datatype OutboundBody = OrderAckBody OrderAck | OrderRejectBody OrderReject
  | ExecReportBody ExecutionReport | CancelAckBody CancelAck | CancelRejectBody CancelReject
  | ModifyAckBody ModifyAck | ModifyRejectBody ModifyReject

record OutboundMessage =
  om_sessionId :: SessionId
  om_body :: OutboundBody

datatype MarketDataMessage = TickMsg TickUpdate | TradeMsg TradeUpdate
  | SnapshotMsg OrderbookSnapshot

text \<open>The default constructors of the wrappers clear the first member of the union.\<close>

definition zero_header :: MessageHeader where
  "zero_header = \<lparr>mh_type = 0, mh_length = 0, mh_timestamp = 0\<rparr>"

definition default_InboundMessage :: InboundMessage where
  "default_InboundMessage =
     \<lparr>im_sessionId = 0, im_body = NewOrderBody
        \<lparr>nor_header = zero_header, nor_clientOrderId = 0, nor_side = 0, nor_orderType = 0,
         nor_price = 0, nor_quantity = 0\<rparr>\<rparr>"

definition default_OutboundMessage :: OutboundMessage where
  "default_OutboundMessage =
     \<lparr>om_sessionId = 0, om_body = OrderAckBody
        \<lparr>oa_header = zero_header, oa_clientOrderId = 0, oa_orderId = 0, oa_status = 0\<rparr>\<rparr>"

definition default_MarketDataMessage :: MarketDataMessage where
  "default_MarketDataMessage = TickMsg
     \<lparr>tick_header = zero_header, tick_symbol = replicate SYMBOL_LENGTH 0, tick_lastPrice = 0,
      tick_lastQty = 0, tick_bidPrice = 0, tick_askPrice = 0, tick_bidQty = 0, tick_askQty = 0\<rparr>"

text \<open>\<^verbatim>\<open>strncpy(dst, src, SYMBOL_LENGTH - 1)\<close> pads with zeros; the last byte is set to 0.\<close>

definition symbol_field :: "8 word list \<Rightarrow> 8 word list" where
  "symbol_field chars =
     (let src = takeWhile (\<lambda>c. c \<noteq> 0) chars;
          copied = take (SYMBOL_LENGTH - 1) src
      in copied @ replicate (SYMBOL_LENGTH - 1 - length copied) 0 @ [0])"

lemma length_symbol_field: "length (symbol_field chars) = SYMBOL_LENGTH"
  by (simp add: symbol_field_def Let_def SYMBOL_LENGTH_def min_def)

section \<open>Casts from the wire\<close>

text \<open>
  \<^verbatim>\<open>static_cast<BuySell>(uint8_t)\<close>: a value without an enumerator is \<open>None\<close>; the code only
  compares the result with enumerators.
\<close>

definition BuySell_cast :: "8 word \<Rightarrow> BuySell option" where
  "BuySell_cast v =
     (if v = 0 then Some BuySell_DEFAULT else if v = 1 then Some BUY
      else if v = 2 then Some SELL else None)"

definition OrderType_cast :: "8 word \<Rightarrow> OrderType option" where
  "OrderType_cast v =
     (if v = 0 then Some OrderType_DEFAULT else if v = 1 then Some LIMIT
      else if v = 2 then Some IOC else if v = 3 then Some MARKET
      else if v = 4 then Some STOPLOSS else None)"

lemma code_inject [simp]:
  "(BuySell_code s = BuySell_code s') = (s = s')"
  "(OrderType_code t = OrderType_code t') = (t = t')"
  by (cases s; cases s'; simp) (cases t; cases t'; simp)

lemma casts_invert_codes:
  "BuySell_cast (BuySell_code s) = Some s" "OrderType_cast (OrderType_code t) = Some t"
  by (cases s; simp add: BuySell_cast_def) (cases t; simp add: OrderType_cast_def)

end
