(* ===== verification/Matching_Engine.thy ===== *)
theory Matching_Engine
  imports Book_Interface Ring_Queue Protocol_Msgs
begin

text \<open>
  The class \<open>MatchingEngine\<close> of \<^verbatim>\<open>include/MatchingEngine.h\<close> and \<^verbatim>\<open>src/MatchingEngine.cpp\<close>:
  its members as the record \<open>Engine\<close>, one definition per member function, in the order of the
  source. Members that the code has and the record adds to: \<open>clock\<close> is what
  \<^verbatim>\<open>std::chrono::high_resolution_clock\<close> will show on its next readings (any sequence),
  \<open>next_address\<close> the address at which \<^verbatim>\<open>std::make_shared\<close> puts its next object. The queues,
  references in the class, are part of the record. The results of \<open>push\<close> are discarded, as in
  the code.
\<close>

section \<open>State\<close>

record Engine =
  inboundQueue :: "InboundMessage MPSCQueue"
  outboundQueue :: "OutboundMessage SPSCQueue"
  feedQueue :: "MarketDataMessage SPSCQueue"
  orderbook :: Orderbook
  symbol :: "8 word list"
  running :: bool
  nextOrderId :: OrderId
  nextTradeId :: TradeId
  sessionOrders :: "SessionId \<rightharpoonup> OrderId set"
  orderToSession :: "OrderId \<rightharpoonup> SessionId"
  orderToClientOrderId :: "OrderId \<rightharpoonup> ClientOrderId"
  lastTradePrice :: Price
  lastTradeQty :: Quantity
  ordersProcessed :: "64 word"
  tradesExecuted :: "64 word"
  clock :: "nat \<Rightarrow> Timestamp"
  next_address :: OrderPointer

definition new_engine ::
  "InboundMessage MPSCQueue \<Rightarrow> OutboundMessage SPSCQueue \<Rightarrow> MarketDataMessage SPSCQueue \<Rightarrow>
   8 word list \<Rightarrow> (nat \<Rightarrow> Timestamp) \<Rightarrow> Engine" where
  "new_engine inq outq feedq sym_name time =
     \<lparr>inboundQueue = inq, outboundQueue = outq, feedQueue = feedq, orderbook = empty_orderbook,
      symbol = sym_name, running = False, nextOrderId = 1, nextTradeId = 1,
      sessionOrders = Map.empty, orderToSession = Map.empty, orderToClientOrderId = Map.empty,
      lastTradePrice = 0, lastTradeQty = 0, ordersProcessed = 0, tradesExecuted = 0,
      clock = time, next_address = 0\<rparr>"

definition read_clock :: "Engine \<Rightarrow> Timestamp \<times> Engine" where
  "read_clock e = (clock e 0, e\<lparr>clock := \<lambda>n. clock e (Suc n)\<rparr>)"

definition make_header :: "MessageType \<Rightarrow> nat \<Rightarrow> Engine \<Rightarrow> MessageHeader \<times> Engine" where
  "make_header t len e =
     (let (now, e') = read_clock e in (new_MessageHeader t (word_of_nat len) now, e'))"

definition make_shared :: "Order \<Rightarrow> Engine \<Rightarrow> OrderPointer \<times> Engine" where
  "make_shared ord e =
     (next_address e,
      e\<lparr>orderbook := new_order (next_address e) ord (orderbook e),
        next_address := Suc (next_address e)\<rparr>)"

definition push_outbound :: "SessionId \<Rightarrow> OutboundBody \<Rightarrow> Engine \<Rightarrow> Engine" where
  "push_outbound sid body e =
     e\<lparr>outboundQueue := snd (spsc_push OUTBOUND_QUEUE_SIZE
         \<lparr>om_sessionId = sid, om_body = body\<rparr> (outboundQueue e))\<rparr>"

definition push_feed :: "MarketDataMessage \<Rightarrow> Engine \<Rightarrow> Engine" where
  "push_feed msg e =
     e\<lparr>feedQueue := snd (spsc_push FEED_QUEUE_SIZE msg (feedQueue e))\<rparr>"

section \<open>Response senders\<close>

definition sendOrderAck ::
  "SessionId \<Rightarrow> ClientOrderId \<Rightarrow> OrderId \<Rightarrow> OrderStatus \<Rightarrow> Engine \<Rightarrow> Engine" where
  "sendOrderAck sid clientOrderId orderId status e =
     (let (header, e') = make_header ORDER_ACK sizeof_OrderAck e
      in push_outbound sid (OrderAckBody
           \<lparr>oa_header = header, oa_clientOrderId = clientOrderId, oa_orderId = orderId,
            oa_status = OrderStatus_code status\<rparr>) e')"

definition sendOrderReject :: "SessionId \<Rightarrow> ClientOrderId \<Rightarrow> RejectReason \<Rightarrow> Engine \<Rightarrow> Engine" where
  "sendOrderReject sid clientOrderId reason e =
     (let (header, e') = make_header ORDER_REJECT sizeof_OrderReject e
      in push_outbound sid (OrderRejectBody
           \<lparr>or_header = header, or_clientOrderId = clientOrderId, or_reason = reason\<rparr>) e')"

definition sendExecutionReport ::
  "SessionId \<Rightarrow> OrderId \<Rightarrow> Price \<Rightarrow> Quantity \<Rightarrow> Quantity \<Rightarrow> BuySell \<Rightarrow> Engine \<Rightarrow> Engine" where
  "sendExecutionReport sid orderId execPrice execQty leavesQty side e =
     (let (header, e1) = make_header EXECUTION_REPORT sizeof_ExecutionReport e;
          tradeId = nextTradeId e1;
          e2 = e1\<lparr>nextTradeId := tradeId + 1\<rparr>
      in push_outbound sid (ExecReportBody
           \<lparr>er_header = header, er_orderId = orderId, er_tradeId = tradeId,
            er_execPrice = execPrice, er_execQty = execQty, er_leavesQty = leavesQty,
            er_side = BuySell_code side\<rparr>) e2)"

definition sendCancelAck :: "SessionId \<Rightarrow> ClientOrderId \<Rightarrow> OrderId \<Rightarrow> Engine \<Rightarrow> Engine" where
  "sendCancelAck sid clientOrderId orderId e =
     (let (header, e') = make_header CANCEL_ACK sizeof_CancelAck e
      in push_outbound sid (CancelAckBody
           \<lparr>ca_header = header, ca_clientOrderId = clientOrderId, ca_orderId = orderId\<rparr>) e')"

definition sendCancelReject ::
  "SessionId \<Rightarrow> ClientOrderId \<Rightarrow> OrderId \<Rightarrow> RejectReason \<Rightarrow> Engine \<Rightarrow> Engine" where
  "sendCancelReject sid clientOrderId orderId reason e =
     (let (header, e') = make_header CANCEL_REJECT sizeof_CancelReject e
      in push_outbound sid (CancelRejectBody
           \<lparr>cr_header = header, cr_clientOrderId = clientOrderId, cr_orderId = orderId,
            cr_reason = reason\<rparr>) e')"

definition sendModifyAck ::
  "SessionId \<Rightarrow> ClientOrderId \<Rightarrow> OrderId \<Rightarrow> Price \<Rightarrow> Quantity \<Rightarrow> Engine \<Rightarrow> Engine" where
  "sendModifyAck sid clientOrderId orderId newPrice newQty e =
     (let (header, e') = make_header MODIFY_ACK sizeof_ModifyAck e
      in push_outbound sid (ModifyAckBody
           \<lparr>ma_header = header, ma_clientOrderId = clientOrderId, ma_orderId = orderId,
            ma_newPrice = newPrice, ma_newQuantity = newQty\<rparr>) e')"

definition sendModifyReject ::
  "SessionId \<Rightarrow> ClientOrderId \<Rightarrow> OrderId \<Rightarrow> RejectReason \<Rightarrow> Engine \<Rightarrow> Engine" where
  "sendModifyReject sid clientOrderId orderId reason e =
     (let (header, e') = make_header MODIFY_REJECT sizeof_ModifyReject e
      in push_outbound sid (ModifyRejectBody
           \<lparr>mr_header = header, mr_clientOrderId = clientOrderId, mr_orderId = orderId,
            mr_reason = reason\<rparr>) e')"

section \<open>Market data\<close>

definition publishTradeUpdate :: "Trade \<Rightarrow> BuySell \<Rightarrow> Engine \<Rightarrow> Engine" where
  "publishTradeUpdate trade aggressorSide e =
     (let (header, e') = make_header TRADE_UPDATE sizeof_TradeUpdate e
      in push_feed (TradeMsg
           \<lparr>tu_header = header, tu_symbol = symbol_field (symbol e'), tu_tradeId = nextTradeId e',
            tu_price = tr_price trade, tu_quantity = tr_quantity trade,
            tu_aggressorSide = BuySell_code aggressorSide\<rparr>) e')"

definition publishTickUpdate :: "Engine \<Rightarrow> Engine" where
  "publishTickUpdate e =
     (let (_, (bidPrice, bidQty), (askPrice, askQty)) = GetBestBidAsk (orderbook e);
          (header, e') = make_header TICK_UPDATE sizeof_TickUpdate e
      in push_feed (TickMsg
           \<lparr>tick_header = header, tick_symbol = symbol_field (symbol e'),
            tick_lastPrice = lastTradePrice e', tick_lastQty = lastTradeQty e',
            tick_bidPrice = bidPrice, tick_askPrice = askPrice,
            tick_bidQty = bidQty, tick_askQty = askQty\<rparr>) e')"

section \<open>Order tracking\<close>

text \<open>\<^verbatim>\<open>sessionOrders_[s]\<close> makes an empty set when the key is missing.\<close>

definition orders_of_session :: "SessionId \<Rightarrow> Engine \<Rightarrow> OrderId set" where
  "orders_of_session sid e = (case sessionOrders e sid of None \<Rightarrow> {} | Some S \<Rightarrow> S)"

definition track_order :: "SessionId \<Rightarrow> OrderId \<Rightarrow> ClientOrderId \<Rightarrow> Engine \<Rightarrow> Engine" where
  "track_order sid orderId clientOrderId e =
     e\<lparr>sessionOrders := (sessionOrders e)(sid \<mapsto> insert orderId (orders_of_session sid e)),
       orderToSession := (orderToSession e)(orderId \<mapsto> sid),
       orderToClientOrderId := (orderToClientOrderId e)(orderId \<mapsto> clientOrderId)\<rparr>"

definition untrack_order :: "SessionId \<Rightarrow> OrderId \<Rightarrow> Engine \<Rightarrow> Engine" where
  "untrack_order sid orderId e =
     e\<lparr>sessionOrders := (sessionOrders e)(sid \<mapsto> orders_of_session sid e - {orderId}),
       orderToSession := (orderToSession e)(orderId := None),
       orderToClientOrderId := (orderToClientOrderId e)(orderId := None)\<rparr>"

section \<open>New orders\<close>

text \<open>The body of the loop over the trades of a new order, and the loop.\<close>

definition report_trade :: "SessionId \<Rightarrow> OrderId \<Rightarrow> BuySell \<Rightarrow> OrderPointer \<Rightarrow> Trade \<Rightarrow> Engine \<Rightarrow> Engine" where
  "report_trade sid orderId side x trade e =
     (let e1 = e\<lparr>tradesExecuted := tradesExecuted e + 1,
                 lastTradePrice := tr_price trade, lastTradeQty := tr_quantity trade\<rparr>;
          e2 = publishTradeUpdate trade side e1;
          e3 = sendExecutionReport sid orderId (tr_price trade) (tr_quantity trade)
                 (getQuantity (obj (orderbook e2) x)) side e2;
          passiveOrderId = (if side = BUY then sellOrderId trade else buyOrderId trade)
      in case orderToSession e3 passiveOrderId of
           None \<Rightarrow> e3
         | Some passiveSessionId \<Rightarrow>
             sendExecutionReport passiveSessionId passiveOrderId (tr_price trade)
               (tr_quantity trade) 0 (if side = BUY then SELL else BUY) e3)"

definition report_trades ::
  "SessionId \<Rightarrow> OrderId \<Rightarrow> BuySell \<Rightarrow> OrderPointer \<Rightarrow> Trade list \<Rightarrow> Engine \<Rightarrow> Engine" where
  "report_trades sid orderId side x ts e = fold (report_trade sid orderId side x) ts e"

text \<open>What \<open>handleNewOrder\<close> does once the request is valid.\<close>

definition accept_order ::
  "SessionId \<Rightarrow> NewOrderRequest \<Rightarrow> BuySell \<Rightarrow> OrderType \<Rightarrow> Engine \<Rightarrow> Engine" where
  "accept_order sid request side orderType e =
     (let orderId = nextOrderId e;
          e1 = e\<lparr>nextOrderId := orderId + 1\<rparr>;
          (timestamp, e2) = read_clock e1;
          (x, e3) = make_shared
            \<lparr>getPrice = nor_price request, getQuantity = nor_quantity request,
             getTimestamp = timestamp, getOrderId = orderId, getOrderType = orderType,
             getBuySell = side, getOrderStatus = NEW, getSessionId = sid,
             getClientOrderId = nor_clientOrderId request\<rparr> e2;
          e4 = track_order sid orderId (nor_clientOrderId request) e3;
          e5 = e4\<lparr>orderbook := AddOrder x (orderbook e4)\<rparr>;
          e6 = report_trades sid orderId side x (GetRecentTrades (orderbook e5)) e5;
          ord = obj (orderbook e6) x;
          e7 = sendOrderAck sid (nor_clientOrderId request) orderId (getOrderStatus ord) e6;
          e8 = (if isFilled ord \<or> getOrderStatus ord = CANCELLED
                then untrack_order sid orderId e7 else e7)
      in publishTickUpdate e8)"

definition handleNewOrder :: "SessionId \<Rightarrow> NewOrderRequest \<Rightarrow> Engine \<Rightarrow> Engine" where
  "handleNewOrder sid request e0 =
     (let e = e0\<lparr>ordersProcessed := ordersProcessed e0 + 1\<rparr>;
          side = BuySell_cast (nor_side request);
          orderType = OrderType_cast (nor_orderType request)
      in if side \<noteq> Some BUY \<and> side \<noteq> Some SELL
         then sendOrderReject sid (nor_clientOrderId request) INVALID_SIDE e
         else if orderType \<noteq> Some LIMIT \<and> orderType \<noteq> Some MARKET \<and> orderType \<noteq> Some IOC
         then sendOrderReject sid (nor_clientOrderId request) INVALID_ORDER_TYPE e
         else if nor_quantity request = 0
         then sendOrderReject sid (nor_clientOrderId request) INVALID_QUANTITY e
         else if orderType = Some LIMIT \<and> sint (nor_price request) \<le> 0
         then sendOrderReject sid (nor_clientOrderId request) INVALID_PRICE e
         else accept_order sid request (the side) (the orderType) e)"

section \<open>Cancel and modify\<close>

definition handleCancelOrder :: "SessionId \<Rightarrow> CancelOrderRequest \<Rightarrow> Engine \<Rightarrow> Engine" where
  "handleCancelOrder sid request e =
     (case orderToSession e (cor_orderId request) of
        None \<Rightarrow> sendCancelReject sid (cor_clientOrderId request) (cor_orderId request) ORDER_NOT_FOUND e
      | Some orderSessionId \<Rightarrow>
          if orderSessionId \<noteq> sid \<and> sid \<noteq> DUMMY_SESSION_ID
          then sendCancelReject sid (cor_clientOrderId request) (cor_orderId request) ORDER_NOT_FOUND e
          else
            let e1 = e\<lparr>orderbook := CancelOrder (cor_orderId request) (orderbook e)\<rparr>;
                e2 = untrack_order orderSessionId (cor_orderId request) e1;
                e3 = sendCancelAck sid (cor_clientOrderId request) (cor_orderId request) e2
            in publishTickUpdate e3)"

definition report_modify_trade :: "OrderId \<Rightarrow> Trade \<Rightarrow> Engine \<Rightarrow> Engine" where
  "report_modify_trade orderId trade e =
     (let e1 = e\<lparr>tradesExecuted := tradesExecuted e + 1,
                 lastTradePrice := tr_price trade, lastTradeQty := tr_quantity trade\<rparr>
      in publishTradeUpdate trade (if buyOrderId trade = orderId then BUY else SELL) e1)"

definition handleModifyOrder :: "SessionId \<Rightarrow> ModifyOrderRequest \<Rightarrow> Engine \<Rightarrow> Engine" where
  "handleModifyOrder sid request e =
     (case orderToSession e (mor_orderId request) of
        None \<Rightarrow> sendModifyReject sid (mor_clientOrderId request) (mor_orderId request) ORDER_NOT_FOUND e
      | Some orderSessionId \<Rightarrow>
          if orderSessionId \<noteq> sid \<and> sid \<noteq> DUMMY_SESSION_ID
          then sendModifyReject sid (mor_clientOrderId request) (mor_orderId request) ORDER_NOT_FOUND e
          else if sint (mor_newPrice request) \<le> 0
          then sendModifyReject sid (mor_clientOrderId request) (mor_orderId request) INVALID_PRICE e
          else if mor_newQuantity request = 0
          then sendModifyReject sid (mor_clientOrderId request) (mor_orderId request) INVALID_QUANTITY e
          else
            let e1 = e\<lparr>orderbook := ModifyOrder (mor_orderId request) (mor_newPrice request)
                         (mor_newQuantity request) (orderbook e)\<rparr>;
                e2 = fold (report_modify_trade (mor_orderId request))
                       (GetRecentTrades (orderbook e1)) e1;
                e3 = sendModifyAck sid (mor_clientOrderId request) (mor_orderId request)
                       (mor_newPrice request) (mor_newQuantity request) e2
            in publishTickUpdate e3)"

text \<open>The iteration order of the unordered set is the order of the list.\<close>

definition cancel_session_order :: "OrderId \<Rightarrow> Engine \<Rightarrow> Engine" where
  "cancel_session_order orderId e =
     e\<lparr>orderbook := CancelOrder orderId (orderbook e),
       orderToSession := (orderToSession e)(orderId := None),
       orderToClientOrderId := (orderToClientOrderId e)(orderId := None)\<rparr>"

definition cancelSessionOrders :: "SessionId \<Rightarrow> OrderId list \<Rightarrow> Engine \<Rightarrow> Engine" where
  "cancelSessionOrders sid orderIds e =
     (let e1 = fold cancel_session_order orderIds e;
          e2 = e1\<lparr>sessionOrders := (sessionOrders e1)(sid := None)\<rparr>
      in if orderIds \<noteq> [] then publishTickUpdate e2 else e2)"

section \<open>The matching loop\<close>

definition processInboundMessage :: "InboundMessage \<Rightarrow> Engine \<Rightarrow> Engine" where
  "processInboundMessage msg e =
     (case im_body msg of
        NewOrderBody request \<Rightarrow> handleNewOrder (im_sessionId msg) request e
      | CancelOrderBody request \<Rightarrow> handleCancelOrder (im_sessionId msg) request e
      | ModifyOrderBody request \<Rightarrow> handleModifyOrder (im_sessionId msg) request e)"

text \<open>
  The loop \<^verbatim>\<open>while (auto msgOpt = inboundQueue_.pop())\<close>: the result says whether a message was
  processed. Not returning is \<open>None\<close>.
\<close>

definition pop_inbound :: "Engine \<Rightarrow> InboundMessage option \<times> Engine" where
  "pop_inbound e =
     (let (msg, q) = mpsc_pop INBOUND_QUEUE_SIZE (inboundQueue e) in (msg, e\<lparr>inboundQueue := q\<rparr>))"

partial_function (option) drain_inbound :: "bool \<Rightarrow> Engine \<Rightarrow> (bool \<times> Engine) option" where
  "drain_inbound processed e =
     (case pop_inbound e of
        (None, e') \<Rightarrow> Some (processed, e')
      | (Some msg, e') \<Rightarrow> drain_inbound True (processInboundMessage msg e'))"

text \<open>
  \<open>matchingLoop\<close>: each entry of the list is what the producers push between two looks at
  \<open>running_\<close>; the list ends when \<open>stop\<close> has cleared the flag, and the last drain runs after
  what the producers pushed by then.
\<close>

definition push_inbound :: "InboundMessage \<Rightarrow> Engine \<Rightarrow> Engine" where
  "push_inbound msg e =
     e\<lparr>inboundQueue := snd (the (mpsc_push INBOUND_QUEUE_SIZE msg (inboundQueue e)))\<rparr>"

fun matchingLoop :: "InboundMessage list list \<Rightarrow> InboundMessage list \<Rightarrow> Engine \<Rightarrow> Engine option" where
  "matchingLoop [] late e = map_option snd (drain_inbound False (fold push_inbound late e))"
| "matchingLoop (arrivals # rounds) late e =
     (case drain_inbound False (fold push_inbound arrivals e) of
        None \<Rightarrow> None
      | Some (_, e') \<Rightarrow> matchingLoop rounds late e')"

definition engine_start :: "Engine \<Rightarrow> bool \<times> Engine" where
  "engine_start e = (if running e then (False, e) else (True, e\<lparr>running := True\<rparr>))"

text \<open>
  \<open>stop\<close> clears the flag and joins the thread, which drains what the producers have pushed by
  then; stopping a stopped engine does nothing.
\<close>

definition engine_stop :: "InboundMessage list \<Rightarrow> Engine \<Rightarrow> Engine option" where
  "engine_stop late e =
     (if running e then matchingLoop [] late (e\<lparr>running := False\<rparr>) else Some e)"

end
