(* ===== verification/Engine_Messages.thy ===== *)
theory Engine_Messages
  imports Matching_Engine
begin

text \<open>
  What the engine says to its clients and to the feed. Messages are compared without their
  timestamps (\<open>untimed\<close>), which are whatever the clock shows. \<open>says e outs feeds e'\<close>: the step
  from \<open>e\<close> to \<open>e'\<close> pushes these messages, in this order, and leaves the book, the tracking
  and the inbound side alone; by the contract of the queues (\<open>bounded_queue\<close>) what does not fit
  is lost.
\<close>

section \<open>Messages without their timestamps\<close>

definition untimed_header :: "MessageHeader \<Rightarrow> MessageHeader" where
  "untimed_header h = h\<lparr>mh_timestamp := 0\<rparr>"

primrec untimed_body :: "OutboundBody \<Rightarrow> OutboundBody" where
  "untimed_body (OrderAckBody m) = OrderAckBody (m\<lparr>oa_header := untimed_header (oa_header m)\<rparr>)"
| "untimed_body (OrderRejectBody m) = OrderRejectBody (m\<lparr>or_header := untimed_header (or_header m)\<rparr>)"
| "untimed_body (ExecReportBody m) = ExecReportBody (m\<lparr>er_header := untimed_header (er_header m)\<rparr>)"
| "untimed_body (CancelAckBody m) = CancelAckBody (m\<lparr>ca_header := untimed_header (ca_header m)\<rparr>)"
| "untimed_body (CancelRejectBody m) = CancelRejectBody (m\<lparr>cr_header := untimed_header (cr_header m)\<rparr>)"
| "untimed_body (ModifyAckBody m) = ModifyAckBody (m\<lparr>ma_header := untimed_header (ma_header m)\<rparr>)"
| "untimed_body (ModifyRejectBody m) = ModifyRejectBody (m\<lparr>mr_header := untimed_header (mr_header m)\<rparr>)"

definition untimed_out :: "OutboundMessage \<Rightarrow> OutboundMessage" where
  "untimed_out m = m\<lparr>om_body := untimed_body (om_body m)\<rparr>"

primrec untimed_feed :: "MarketDataMessage \<Rightarrow> MarketDataMessage" where
  "untimed_feed (TickMsg m) = TickMsg (m\<lparr>tick_header := untimed_header (tick_header m)\<rparr>)"
| "untimed_feed (TradeMsg m) = TradeMsg (m\<lparr>tu_header := untimed_header (tu_header m)\<rparr>)"
| "untimed_feed (SnapshotMsg m) = SnapshotMsg (m\<lparr>obs_header := untimed_header (obs_header m)\<rparr>)"

text \<open>The messages by their contents.\<close>

definition order_ack :: "SessionId \<Rightarrow> ClientOrderId \<Rightarrow> OrderId \<Rightarrow> OrderStatus \<Rightarrow> OutboundMessage" where
  "order_ack sid clientOrderId orderId status =
     \<lparr>om_sessionId = sid, om_body = OrderAckBody
        \<lparr>oa_header = new_MessageHeader ORDER_ACK (word_of_nat sizeof_OrderAck) 0,
         oa_clientOrderId = clientOrderId, oa_orderId = orderId, oa_status = OrderStatus_code status\<rparr>\<rparr>"

definition order_reject :: "SessionId \<Rightarrow> ClientOrderId \<Rightarrow> RejectReason \<Rightarrow> OutboundMessage" where
  "order_reject sid clientOrderId reason =
     \<lparr>om_sessionId = sid, om_body = OrderRejectBody
        \<lparr>or_header = new_MessageHeader ORDER_REJECT (word_of_nat sizeof_OrderReject) 0,
         or_clientOrderId = clientOrderId, or_reason = reason\<rparr>\<rparr>"

definition cancel_ack :: "SessionId \<Rightarrow> ClientOrderId \<Rightarrow> OrderId \<Rightarrow> OutboundMessage" where
  "cancel_ack sid clientOrderId orderId =
     \<lparr>om_sessionId = sid, om_body = CancelAckBody
        \<lparr>ca_header = new_MessageHeader CANCEL_ACK (word_of_nat sizeof_CancelAck) 0,
         ca_clientOrderId = clientOrderId, ca_orderId = orderId\<rparr>\<rparr>"

definition cancel_reject :: "SessionId \<Rightarrow> ClientOrderId \<Rightarrow> OrderId \<Rightarrow> RejectReason \<Rightarrow> OutboundMessage" where
  "cancel_reject sid clientOrderId orderId reason =
     \<lparr>om_sessionId = sid, om_body = CancelRejectBody
        \<lparr>cr_header = new_MessageHeader CANCEL_REJECT (word_of_nat sizeof_CancelReject) 0,
         cr_clientOrderId = clientOrderId, cr_orderId = orderId, cr_reason = reason\<rparr>\<rparr>"

definition modify_ack :: "SessionId \<Rightarrow> ClientOrderId \<Rightarrow> OrderId \<Rightarrow> Price \<Rightarrow> Quantity \<Rightarrow> OutboundMessage" where
  "modify_ack sid clientOrderId orderId newPrice newQty =
     \<lparr>om_sessionId = sid, om_body = ModifyAckBody
        \<lparr>ma_header = new_MessageHeader MODIFY_ACK (word_of_nat sizeof_ModifyAck) 0,
         ma_clientOrderId = clientOrderId, ma_orderId = orderId, ma_newPrice = newPrice, ma_newQuantity = newQty\<rparr>\<rparr>"

definition modify_reject :: "SessionId \<Rightarrow> ClientOrderId \<Rightarrow> OrderId \<Rightarrow> RejectReason \<Rightarrow> OutboundMessage" where
  "modify_reject sid clientOrderId orderId reason =
     \<lparr>om_sessionId = sid, om_body = ModifyRejectBody
        \<lparr>mr_header = new_MessageHeader MODIFY_REJECT (word_of_nat sizeof_ModifyReject) 0,
         mr_clientOrderId = clientOrderId, mr_orderId = orderId, mr_reason = reason\<rparr>\<rparr>"

definition execution_report ::
  "SessionId \<Rightarrow> OrderId \<Rightarrow> TradeId \<Rightarrow> Price \<Rightarrow> Quantity \<Rightarrow> Quantity \<Rightarrow> BuySell \<Rightarrow> OutboundMessage" where
  "execution_report sid orderId tradeId price qty leaves side =
     \<lparr>om_sessionId = sid, om_body = ExecReportBody
        \<lparr>er_header = new_MessageHeader EXECUTION_REPORT (word_of_nat sizeof_ExecutionReport) 0,
         er_orderId = orderId, er_tradeId = tradeId, er_execPrice = price, er_execQty = qty,
         er_leavesQty = leaves, er_side = BuySell_code side\<rparr>\<rparr>"

definition trade_update :: "8 word list \<Rightarrow> TradeId \<Rightarrow> Trade \<Rightarrow> BuySell \<Rightarrow> MarketDataMessage" where
  "trade_update sym_name tradeId trade side =
     TradeMsg \<lparr>tu_header = new_MessageHeader TRADE_UPDATE (word_of_nat sizeof_TradeUpdate) 0,
        tu_symbol = symbol_field sym_name, tu_tradeId = tradeId, tu_price = tr_price trade,
        tu_quantity = tr_quantity trade, tu_aggressorSide = BuySell_code side\<rparr>"

definition tick_update :: "8 word list \<Rightarrow> Price \<Rightarrow> Quantity \<Rightarrow> Orderbook \<Rightarrow> MarketDataMessage" where
  "tick_update sym_name lastPrice lastQty b =
     (case GetBestBidAsk b of (_, (bidPrice, bidQty), (askPrice, askQty)) \<Rightarrow>
        TickMsg \<lparr>tick_header = new_MessageHeader TICK_UPDATE (word_of_nat sizeof_TickUpdate) 0,
          tick_symbol = symbol_field sym_name, tick_lastPrice = lastPrice, tick_lastQty = lastQty,
          tick_bidPrice = bidPrice, tick_askPrice = askPrice, tick_bidQty = bidQty,
          tick_askQty = askQty\<rparr>)"

section \<open>Steps that only send\<close>

definition same_books :: "Engine \<Rightarrow> Engine \<Rightarrow> bool" where
  "same_books e e' \<longleftrightarrow>
     inboundQueue e' = inboundQueue e \<and> orderbook e' = orderbook e \<and> symbol e' = symbol e \<and>
     running e' = running e \<and> nextOrderId e' = nextOrderId e \<and>
     sessionOrders e' = sessionOrders e \<and> orderToSession e' = orderToSession e \<and>
     orderToClientOrderId e' = orderToClientOrderId e \<and> ordersProcessed e' = ordersProcessed e \<and>
     next_address e' = next_address e"

definition push_all :: "size_t \<Rightarrow> 'a list \<Rightarrow> 'a SPSCQueue \<Rightarrow> 'a SPSCQueue" where
  "push_all capacity xs q = foldl (\<lambda>q x. snd (spsc_push capacity x q)) q xs"

definition emits :: "Engine \<Rightarrow> OutboundMessage list \<Rightarrow> MarketDataMessage list \<Rightarrow> Engine \<Rightarrow> bool" where
  "emits e outs feeds e' \<longleftrightarrow>
     (\<exists>os fs. map untimed_out os = outs \<and> map untimed_feed fs = feeds \<and>
        outboundQueue e' = push_all OUTBOUND_QUEUE_SIZE os (outboundQueue e) \<and>
        feedQueue e' = push_all FEED_QUEUE_SIZE fs (feedQueue e))"

definition says :: "Engine \<Rightarrow> OutboundMessage list \<Rightarrow> MarketDataMessage list \<Rightarrow> Engine \<Rightarrow> bool" where
  "says e outs feeds e' \<longleftrightarrow> same_books e e' \<and> emits e outs feeds e'"

lemma push_all_simps [simp]:
  "push_all capacity [] q = q"
  "push_all capacity (xs @ ys) q = push_all capacity ys (push_all capacity xs q)"
  by (simp_all add: push_all_def)

lemma emits_silent:
  "outboundQueue e' = outboundQueue e \<Longrightarrow> feedQueue e' = feedQueue e \<Longrightarrow> emits e [] [] e'"
  unfolding emits_def by (intro exI [of _ "[]"]) simp

lemma emits_trans [trans]:
  assumes "emits e o1 f1 e1" and "emits e1 o2 f2 e2"
  shows "emits e (o1 @ o2) (f1 @ f2) e2"
proof -
  from assms obtain os1 fs1 os2 fs2 where
    "map untimed_out os1 = o1" "map untimed_feed fs1 = f1"
    "outboundQueue e1 = push_all OUTBOUND_QUEUE_SIZE os1 (outboundQueue e)"
    "feedQueue e1 = push_all FEED_QUEUE_SIZE fs1 (feedQueue e)"
    "map untimed_out os2 = o2" "map untimed_feed fs2 = f2"
    "outboundQueue e2 = push_all OUTBOUND_QUEUE_SIZE os2 (outboundQueue e1)"
    "feedQueue e2 = push_all FEED_QUEUE_SIZE fs2 (feedQueue e1)"
    unfolding emits_def by blast
  then show ?thesis
    unfolding emits_def by (intro exI [of _ "os1 @ os2"] exI [of _ "fs1 @ fs2"]) simp
qed

lemma same_books_trans [trans]: "same_books e e1 \<Longrightarrow> same_books e1 e2 \<Longrightarrow> same_books e e2"
  by (simp add: same_books_def)

lemma says_trans:
  "says e o1 f1 e1 \<Longrightarrow> says e1 o2 f2 e2 \<Longrightarrow> says e (o1 @ o2) (f1 @ f2) e2"
  unfolding says_def using emits_trans same_books_trans by blast

lemma says_silent:
  "same_books e e' \<Longrightarrow> outboundQueue e' = outboundQueue e \<Longrightarrow> feedQueue e' = feedQueue e \<Longrightarrow>
   says e [] [] e'"
  by (simp add: says_def emits_silent)

lemma says_push_outbound:
  "says e [untimed_out \<lparr>om_sessionId = sid, om_body = body\<rparr>] [] (push_outbound sid body e)"
  unfolding says_def emits_def
  by (intro conjI exI [of _ "[\<lparr>om_sessionId = sid, om_body = body\<rparr>]"] exI [of _ "[]"])
    (simp_all add: same_books_def push_outbound_def push_all_def)

lemma says_push_feed: "says e [] [untimed_feed msg] (push_feed msg e)"
  unfolding says_def emits_def
  by (intro conjI exI [of _ "[]"] exI [of _ "[msg]"])
    (simp_all add: same_books_def push_feed_def push_all_def)

text \<open>A sender changes the clock (and the trade id) and then pushes one message.\<close>

lemma says_outboundI:
  assumes "same_books e e1" and "outboundQueue e1 = outboundQueue e" and "feedQueue e1 = feedQueue e"
    and "outs = [untimed_out \<lparr>om_sessionId = sid, om_body = body\<rparr>]"
  shows "says e outs [] (push_outbound sid body e1)"
  using says_trans [OF says_silent [OF assms(1-3)] says_push_outbound] assms(4) by simp

lemma says_feedI:
  assumes "same_books e e1" and "outboundQueue e1 = outboundQueue e" and "feedQueue e1 = feedQueue e"
    and "feeds = [untimed_feed msg]"
  shows "says e [] feeds (push_feed msg e1)"
  using says_trans [OF says_silent [OF assms(1-3)] says_push_feed] assms(4) by simp

lemmas message_defs = order_ack_def order_reject_def cancel_ack_def cancel_reject_def modify_ack_def modify_reject_def
  execution_report_def trade_update_def tick_update_def
lemmas send_defs = make_header_def read_clock_def untimed_out_def untimed_header_def
  new_MessageHeader_def

lemma says_sendOrderAck:
  "says e [order_ack sid clientOrderId orderId status] [] (sendOrderAck sid clientOrderId orderId status e)"
  unfolding sendOrderAck_def make_header_def read_clock_def Let_def prod.case
  by (rule says_outboundI) (simp_all add: same_books_def send_defs order_ack_def)

lemma says_sendOrderReject:
  "says e [order_reject sid clientOrderId reason] [] (sendOrderReject sid clientOrderId reason e)"
  unfolding sendOrderReject_def make_header_def read_clock_def Let_def prod.case
  by (rule says_outboundI) (simp_all add: same_books_def send_defs order_reject_def)

lemma says_sendCancelAck:
  "says e [cancel_ack sid clientOrderId orderId] [] (sendCancelAck sid clientOrderId orderId e)"
  unfolding sendCancelAck_def make_header_def read_clock_def Let_def prod.case
  by (rule says_outboundI) (simp_all add: same_books_def send_defs cancel_ack_def)

lemma says_sendCancelReject:
  "says e [cancel_reject sid clientOrderId orderId reason] [] (sendCancelReject sid clientOrderId orderId reason e)"
  unfolding sendCancelReject_def make_header_def read_clock_def Let_def prod.case
  by (rule says_outboundI) (simp_all add: same_books_def send_defs cancel_reject_def)

lemma says_sendModifyAck:
  "says e [modify_ack sid clientOrderId orderId newPrice newQty] [] (sendModifyAck sid clientOrderId orderId newPrice newQty e)"
  unfolding sendModifyAck_def make_header_def read_clock_def Let_def prod.case
  by (rule says_outboundI) (simp_all add: same_books_def send_defs modify_ack_def)

lemma says_sendModifyReject:
  "says e [modify_reject sid clientOrderId orderId reason] [] (sendModifyReject sid clientOrderId orderId reason e)"
  unfolding sendModifyReject_def make_header_def read_clock_def Let_def prod.case
  by (rule says_outboundI) (simp_all add: same_books_def send_defs modify_reject_def)

text \<open>An execution report takes the next trade id.\<close>

lemma says_sendExecutionReport:
  "says e [execution_report sid orderId (nextTradeId e) price qty leaves side] []
     (sendExecutionReport sid orderId price qty leaves side e)"
  unfolding sendExecutionReport_def make_header_def read_clock_def Let_def prod.case
  by (rule says_outboundI) (simp_all add: same_books_def send_defs execution_report_def)

lemma says_publishTradeUpdate:
  "says e [] [trade_update (symbol e) (nextTradeId e) trade side] (publishTradeUpdate trade side e)"
  unfolding publishTradeUpdate_def make_header_def read_clock_def Let_def prod.case
  by (rule says_feedI) (simp_all add: same_books_def send_defs trade_update_def)

lemma says_publishTickUpdate:
  "says e [] [tick_update (symbol e) (lastTradePrice e) (lastTradeQty e) (orderbook e)]
     (publishTickUpdate e)"
proof -
  obtain found bp bq ap aq where "GetBestBidAsk (orderbook e) = (found, (bp, bq), (ap, aq))"
    by (metis prod.exhaust)
  then show ?thesis
    unfolding publishTickUpdate_def make_header_def read_clock_def Let_def
    by (simp del: One_nat_def) (rule says_feedI, simp_all add: same_books_def send_defs tick_update_def)
qed

end
