(* ===== verification/Orderbook_Ownership.thy ===== *)
theory Orderbook_Ownership
  imports Book_Interface
begin

text \<open>
  What the operations of the book leave alone: no order object appears or disappears, none
  changes its id, owner, side or type, and the index only ever loses entries, but for the order
  that an operation adds. The matching engine's tracking rests on these facts.
\<close>

section \<open>Owners\<close>

definition same_owner :: "Order \<Rightarrow> Order \<Rightarrow> bool" where
  "same_owner a b \<longleftrightarrow>
     getOrderId a = getOrderId b \<and> getSessionId a = getSessionId b \<and>
     getClientOrderId a = getClientOrderId b \<and> getBuySell a = getBuySell b \<and>
     getOrderType a = getOrderType b \<and> getTimestamp a = getTimestamp b"

definition keeps_owners :: "Orderbook \<Rightarrow> Orderbook \<Rightarrow> bool" where
  "keeps_owners b b' \<longleftrightarrow>
     (\<forall>y. (store b' y = None) = (store b y = None)) \<and> (\<forall>y. same_owner (obj b y) (obj b' y))"

lemma same_owner_refl [simp]: "same_owner a a"
  by (simp add: same_owner_def)

lemma same_terms_owner: "same_terms a b \<Longrightarrow> same_owner a b"
  by (simp add: same_terms_def same_owner_def)

lemma keeps_owners_trans [trans]:
  "keeps_owners b c \<Longrightarrow> keeps_owners c d \<Longrightarrow> keeps_owners b d"
  by (simp add: keeps_owners_def same_owner_def)

lemma keeps_owners_store: "store b' = store b \<Longrightarrow> keeps_owners b b'"
  by (simp add: keeps_owners_def obj_def)

lemma keeps_owners_update:
  "store b x \<noteq> None \<Longrightarrow> (\<And>ord. same_owner ord (f ord)) \<Longrightarrow> keeps_owners b (update_obj x f b)"
  by (auto simp: keeps_owners_def frame_simps)

lemma match_order_owners:
  assumes inv: "book_inv E b" and mo: "match_order ord b = (r, b1)"
    and side: "getBuySell ord = BUY \<or> getBuySell ord = SELL"
  shows "keeps_owners b b1"
proof -
  note shr = match_order_keeps(3) [OF inv mo side, unfolded shrinks_def]
  have "(store b1 y = None) = (store b y = None)" for y
    using shr resting_stored [OF inv, of y] by (cases "y \<in> resting b") auto
  with shr same_terms_owner show ?thesis by (simp add: keeps_owners_def)
qed

section \<open>The operations\<close>

lemma book_order_orders:
  "orders (book_order x b) = (orders b)(getOrderId (obj b x) \<mapsto> x)"
  by (simp add: book_order_def Let_def frame_simps)

lemma addToBook_owners:
  assumes inv: "book_inv E b" and ins: "insertable x b"
  shows "keeps_owners b (addToBook x b)"
    and "orders (addToBook x b) i = Some y \<Longrightarrow> orders b i = Some y \<or> i = getOrderId (obj b x) \<and> y = x"
proof -
  obtain ord where st: "store b x = Some ord" using ins by (auto simp: insertable_def)
  then have ord: "obj b x = ord" by (simp add: obj_def)
  note ins' = ins [unfolded insertable_def ord]
  obtain r b1 where mo: "match_order ord (b\<lparr>trades := []\<rparr>) = (r, b1)" by force
  have side: "getBuySell ord = BUY \<or> getBuySell ord = SELL" and inv': "book_inv E (b\<lparr>trades := []\<rparr>)"
    using ins' inv by simp_all
  note shr = match_order_keeps(3) [OF inv' mo side, unfolded shrinks_def, simplified]
  have st1: "store b1 x = Some ord" using shr ins' st by simp
  have "keeps_owners b (b\<lparr>trades := []\<rparr>)" by (rule keeps_owners_store) simp
  also have "keeps_owners (b\<lparr>trades := []\<rparr>) b1" by (rule match_order_owners [OF inv' mo side])
  finally have own: "keeps_owners b b1" .
  note unf = addToBook_def Let_def frame_simps order_defs mo st keeps_owners_def same_owner_def
    book_order_frame
  show "keeps_owners b (addToBook x b)"
    using own st1 ord by (auto simp: unf)
  show "orders b i = Some y \<or> i = getOrderId (obj b x) \<and> y = x"
    if "orders (addToBook x b) i = Some y"
    using that shr own ord st1 by (auto simp: unf book_order_orders split: if_splits)
qed

lemma AddOrder_owners:
  assumes "book_inv {} b" and "insertable x b"
  shows "keeps_owners b (AddOrder x b)"
    and "orders (AddOrder x b) i = Some y \<Longrightarrow> orders b i = Some y \<or> i = getOrderId (obj b x) \<and> y = x"
  using addToBook_owners [OF assms] by (simp_all add: AddOrder_def)

lemma CancelOrder_owners:
  assumes "book_inv {} b"
  shows "keeps_owners b (CancelOrder i b)"
proof (cases "orders b i")
  case None
  then show ?thesis by (simp add: CancelOrder_def keeps_owners_store)
next
  case (Some x)
  note x = book_inv_obj_indexed [OF assms Some]
  show ?thesis
    unfolding CancelOrder_eq [OF Some x(1)]
    using x(1) by (auto simp: keeps_owners_def same_owner_def frame_simps)
qed

lemma ModifyOrder_owners:
  assumes inv: "book_inv {} b" and nq: "0 < nq"
  shows "keeps_owners b (ModifyOrder i np nq b)"
    and "orders (ModifyOrder i np nq b) j = Some y \<Longrightarrow> orders b j = Some y"
proof -
  have "keeps_owners b (ModifyOrder i np nq b) \<and>
      (\<forall>j y. orders (ModifyOrder i np nq b) j = Some y \<longrightarrow> orders b j = Some y)"
  proof (cases "\<exists>x. orders b i = Some x \<and> \<not> (getPrice (obj b x) = np \<and> getQuantity (obj b x) = nq)")
    case False
    then have "ModifyOrder i np nq b = b"
      using book_inv_obj_indexed(1) [OF inv] by (cases "orders b i") (auto simp: ModifyOrder_noop)
    then show ?thesis by (simp add: keeps_owners_store)
  next
    case True
    then obtain x where i: "orders b i = Some x"
      and change: "\<not> (getPrice (obj b x) = np \<and> getQuantity (obj b x) = nq)" by blast
    note x = book_inv_obj_indexed [OF inv i]
    let ?b3 = "update_obj x (modified_order np nq) (removeOrderFromBook x (release_level (obj b x) b))"
    note pre = modify_prepared [OF inv i nq, of np]
    have eq: "ModifyOrder i np nq b = addToBook x ?b3" using ModifyOrder_eq [OF i x(1) change] .
    have "keeps_owners b ?b3"
      using x(1) by (auto simp: keeps_owners_def frame_simps same_owner_def modified_order_def)
    also have "keeps_owners ?b3 (ModifyOrder i np nq b)"
      unfolding eq by (rule addToBook_owners(1) [OF pre(1,3)])
    finally have "keeps_owners b (ModifyOrder i np nq b)" .
    moreover have "orders b j = Some y" if "orders (ModifyOrder i np nq b) j = Some y" for j y
    proof -
      have "getOrderId (obj ?b3 x) = i" using x(2) by (simp add: pre(4) modified_order_def)
      with addToBook_owners(2) [OF pre(1,3), of j y] that i show ?thesis
        unfolding eq pre(5) by auto
    qed
    ultimately show ?thesis by blast
  qed
  then show "keeps_owners b (ModifyOrder i np nq b)"
    and "orders (ModifyOrder i np nq b) j = Some y \<Longrightarrow> orders b j = Some y" by blast+
qed

end
