(* ===== verification/Engine_Invariant.thy ===== *)
theory Engine_Invariant
  imports Engine_Messages Orderbook_Ownership
begin

text \<open>
  The two outgoing message streams of the engine as logs (\<open>outbound_log\<close>, \<open>feed_log\<close>), and
  what the loop over the trades of a new order appends to them: \<open>trade_reports\<close> and
  \<open>trade_updates\<close>, with the trade counters it leaves. The room of each queue is one less than
  its capacity.
\<close>

section \<open>Logs\<close>

definition outbound_log :: "Engine \<Rightarrow> OutboundMessage list" where
  "outbound_log e = map untimed_out (rb_list OUTBOUND_QUEUE_SIZE (outboundQueue e))"

definition feed_log :: "Engine \<Rightarrow> MarketDataMessage list" where
  "feed_log e = map untimed_feed (rb_list FEED_QUEUE_SIZE (feedQueue e))"

definition queues_ok :: "Engine \<Rightarrow> bool" where
  "queues_ok e \<longleftrightarrow> mpsc_inv INBOUND_QUEUE_SIZE (inboundQueue e) \<and>
     rb_inv OUTBOUND_QUEUE_SIZE (outboundQueue e) \<and> rb_inv FEED_QUEUE_SIZE (feedQueue e)"

definition outbound_room :: nat where "outbound_room = 65535"
definition feed_room :: nat where "feed_room = 16383"

lemma says_log:
  assumes "queues_ok e" and "emits e outs feeds e'" and "inboundQueue e' = inboundQueue e"
  shows "queues_ok e'" and "outbound_log e' = take outbound_room (outbound_log e @ outs)"
    and "feed_log e' = take feed_room (feed_log e @ feeds)"
proof -
  obtain os fs where o: "map untimed_out os = outs"
    "outboundQueue e' = push_all OUTBOUND_QUEUE_SIZE os (outboundQueue e)"
    and f: "map untimed_feed fs = feeds" "feedQueue e' = push_all FEED_QUEUE_SIZE fs (feedQueue e)"
    using assms(2) unfolding emits_def by blast
  have q: "rb_inv OUTBOUND_QUEUE_SIZE (outboundQueue e)" "rb_inv FEED_QUEUE_SIZE (feedQueue e)"
    using assms(1) by (simp_all add: queues_ok_def)
  have cap: "unat OUTBOUND_QUEUE_SIZE - 1 = outbound_room" "unat FEED_QUEUE_SIZE - 1 = feed_room"
    by (simp_all add: OUTBOUND_QUEUE_SIZE_def FEED_QUEUE_SIZE_def outbound_room_def feed_room_def)
  note out = outbound.push_all_contents [OF q(1), of os, folded push_all_def, unfolded cap]
  note fd = feed.push_all_contents [OF q(2), of fs, folded push_all_def, unfolded cap]
  show "queues_ok e'" using assms out fd o f by (simp add: queues_ok_def)
  show "outbound_log e' = take outbound_room (outbound_log e @ outs)"
    unfolding outbound_log_def o(2) conjunct2 [OF out] by (simp add: take_map o(1) [symmetric])
  show "feed_log e' = take feed_room (feed_log e @ feeds)"
    unfolding feed_log_def f(2) conjunct2 [OF fd] by (simp add: take_map f(1) [symmetric])
qed

section \<open>Reporting the trades of a new order\<close>

fun trade_reports ::
  "(OrderId \<rightharpoonup> SessionId) \<Rightarrow> SessionId \<Rightarrow> OrderId \<Rightarrow> BuySell \<Rightarrow> Quantity \<Rightarrow> TradeId \<Rightarrow> Trade list \<Rightarrow>
   OutboundMessage list" where
  "trade_reports owner sid orderId side leaves tid [] = []"
| "trade_reports owner sid orderId side leaves tid (t # ts) =
     execution_report sid orderId tid (tr_price t) (tr_quantity t) leaves side #
     execution_report (the (owner (resting_side_id side t))) (resting_side_id side t) (tid + 1)
       (tr_price t) (tr_quantity t) 0 (if side = BUY then SELL else BUY) #
     trade_reports owner sid orderId side leaves (tid + 2) ts"

fun trade_updates :: "8 word list \<Rightarrow> BuySell \<Rightarrow> TradeId \<Rightarrow> Trade list \<Rightarrow> MarketDataMessage list" where
  "trade_updates sym_name side tid [] = []"
| "trade_updates sym_name side tid (t # ts) =
     trade_update sym_name tid t side # trade_updates sym_name side (tid + 2) ts"

lemma sender_counters [simp]:
  "nextTradeId (publishTradeUpdate t s e) = nextTradeId e"
  "lastTradePrice (publishTradeUpdate t s e) = lastTradePrice e"
  "lastTradeQty (publishTradeUpdate t s e) = lastTradeQty e"
  "tradesExecuted (publishTradeUpdate t s e) = tradesExecuted e"
  "nextTradeId (sendExecutionReport a b c d l s e) = nextTradeId e + 1"
  "lastTradePrice (sendExecutionReport a b c d l s e) = lastTradePrice e"
  "lastTradeQty (sendExecutionReport a b c d l s e) = lastTradeQty e"
  "tradesExecuted (sendExecutionReport a b c d l s e) = tradesExecuted e"
  by (simp_all add: publishTradeUpdate_def sendExecutionReport_def send_defs push_feed_def
      push_outbound_def Let_def)

definition last_price :: "Price \<Rightarrow> Trade list \<Rightarrow> Price" where
  "last_price p ts = (if ts = [] then p else tr_price (last ts))"

definition last_qty :: "Quantity \<Rightarrow> Trade list \<Rightarrow> Quantity" where
  "last_qty q ts = (if ts = [] then q else tr_quantity (last ts))"

definition trade_counters :: "nat \<Rightarrow> Trade list \<Rightarrow> Engine \<Rightarrow> Engine \<Rightarrow> bool" where
  "trade_counters k ts e e' \<longleftrightarrow>
     nextTradeId e' = nextTradeId e + word_of_nat (k * length ts) \<and>
     tradesExecuted e' = tradesExecuted e + word_of_nat (length ts) \<and>
     lastTradePrice e' = last_price (lastTradePrice e) ts \<and>
     lastTradeQty e' = last_qty (lastTradeQty e) ts"

lemma report_trade_says:
  assumes "orderToSession e (resting_side_id side t) = Some ps"
  shows "says e (trade_reports (orderToSession e) sid orderId side
             (getQuantity (obj (orderbook e) x)) (nextTradeId e) [t])
           [trade_update (symbol e) (nextTradeId e) t side] (report_trade sid orderId side x t e)"
    and "trade_counters 2 [t] e (report_trade sid orderId side x t e)"
proof -
  let ?e1 = "e\<lparr>tradesExecuted := tradesExecuted e + 1, lastTradePrice := tr_price t,
               lastTradeQty := tr_quantity t\<rparr>"
  let ?e2 = "publishTradeUpdate t side ?e1"
  let ?e3 = "sendExecutionReport sid orderId (tr_price t) (tr_quantity t)
               (getQuantity (obj (orderbook ?e2) x)) side ?e2"
  let ?e4 = "sendExecutionReport ps (resting_side_id side t) (tr_price t) (tr_quantity t) 0
               (if side = BUY then SELL else BUY) ?e3"
  have s1: "says e [] [] ?e1" by (rule says_silent) (simp_all add: same_books_def)
  note s2 = says_publishTradeUpdate [of ?e1 t side]
  note s3 = says_sendExecutionReport [of ?e2 sid orderId "tr_price t" "tr_quantity t"
      "getQuantity (obj (orderbook ?e2) x)" side]
  note s4 = says_sendExecutionReport [of ?e3 ps "resting_side_id side t" "tr_price t" "tr_quantity t" 0
      "if side = BUY then SELL else BUY"]
  have books: "orderbook ?e2 = orderbook e" "orderToSession ?e3 = orderToSession e"
    using s2 s3 by (simp_all add: says_def same_books_def)
  have eq: "report_trade sid orderId side x t e = ?e4"
    using assms books by (simp add: report_trade_def Let_def resting_side_id_def)
  show "says e (trade_reports (orderToSession e) sid orderId side
             (getQuantity (obj (orderbook e) x)) (nextTradeId e) [t])
           [trade_update (symbol e) (nextTradeId e) t side] (report_trade sid orderId side x t e)"
    using says_trans [OF s1 says_trans [OF s2 says_trans [OF s3 s4]]] assms
    by (simp add: eq books)
  show "trade_counters 2 [t] e (report_trade sid orderId side x t e)"
    by (simp add: eq trade_counters_def last_price_def last_qty_def)
qed

lemma trade_counters_Cons:
  "trade_counters k [t] e e1 \<Longrightarrow> trade_counters k ts e1 e2 \<Longrightarrow> trade_counters k (t # ts) e e2"
  by (auto simp: trade_counters_def last_price_def last_qty_def algebra_simps)

lemma report_trades_says:
  assumes "\<forall>t\<in>set ts. orderToSession e (resting_side_id side t) \<noteq> None"
  shows "says e (trade_reports (orderToSession e) sid orderId side
             (getQuantity (obj (orderbook e) x)) (nextTradeId e) ts)
           (trade_updates (symbol e) side (nextTradeId e) ts)
           (report_trades sid orderId side x ts e) \<and>
         trade_counters 2 ts e (report_trades sid orderId side x ts e)"
  using assms
proof (induction ts arbitrary: e)
  case Nil
  then show ?case
    by (simp add: report_trades_def says_silent same_books_def trade_counters_def last_price_def
        last_qty_def)
next
  case (Cons t ts)
  let ?e1 = "report_trade sid orderId side x t e"
  obtain ps where "orderToSession e (resting_side_id side t) = Some ps" using Cons.prems by auto
  note one = report_trade_says [OF this, of sid orderId x]
  have same: "orderToSession ?e1 = orderToSession e" "orderbook ?e1 = orderbook e"
    "symbol ?e1 = symbol e" "nextTradeId ?e1 = nextTradeId e + 2"
    using one by (simp_all add: says_def same_books_def trade_counters_def)
  have "\<forall>t\<in>set ts. orderToSession ?e1 (resting_side_id side t) \<noteq> None"
    using Cons.prems by (simp add: same)
  note rest = Cons.IH [OF this, unfolded same]
  have split: "report_trades sid orderId side x (t # ts) e = report_trades sid orderId side x ts ?e1"
    by (simp add: report_trades_def)
  show ?case
    using says_trans [OF one(1) conjunct1 [OF rest]] trade_counters_Cons [OF one(2) conjunct2 [OF rest]]
    by (simp add: split)
qed

end
