(* ===== verification/Engine_Handlers.thy ===== *)
theory Engine_Handlers
  imports Engine_Invariant
begin

text \<open>
  The invariant \<open>engine_inv\<close> of the engine: the book is well formed, every order in it is
  tracked under the session its object carries, the tracking tables agree with each other, order
  ids were handed out, addresses were allocated, the three queues are well formed. Every handler
  keeps it.
\<close>

section \<open>The invariant\<close>

text \<open>
  Every indexed order is tracked under the session and client id it carries; the three tables
  name the same orders; the ids they name have been handed out.
\<close>

definition tracking_ok :: "Engine \<Rightarrow> bool" where
  "tracking_ok e \<longleftrightarrow>
     (\<forall>i x. orders (orderbook e) i = Some x \<longrightarrow>
        orderToSession e i = Some (getSessionId (obj (orderbook e) x)) \<and>
        orderToClientOrderId e i = Some (getClientOrderId (obj (orderbook e) x))) \<and>
     (\<forall>i. (orderToClientOrderId e i = None) = (orderToSession e i = None)) \<and>
     (\<forall>i s. i \<in> orders_of_session s e \<longleftrightarrow> orderToSession e i = Some s) \<and>
     (\<forall>i. orderToSession e i \<noteq> None \<longrightarrow> i < nextOrderId e)"

definition addresses_ok :: "Engine \<Rightarrow> bool" where
  "addresses_ok e \<longleftrightarrow> (\<forall>x. store (orderbook e) x \<noteq> None \<longrightarrow> x < next_address e)"

definition engine_inv :: "Engine \<Rightarrow> bool" where
  "engine_inv e \<longleftrightarrow> book_inv {} (orderbook e) \<and> tracking_ok e \<and> addresses_ok e \<and> queues_ok e"

lemma engine_invD:
  assumes "engine_inv e"
  shows "book_inv {} (orderbook e)" "tracking_ok e" "addresses_ok e" "queues_ok e"
  using assms by (simp_all add: engine_inv_def)

lemma tracking_okD:
  assumes "tracking_ok e"
  shows "orders (orderbook e) i = Some x \<Longrightarrow>
      orderToSession e i = Some (getSessionId (obj (orderbook e) x))"
    and "orderToSession e i = Some s \<Longrightarrow> i < nextOrderId e"
    and "i \<in> orders_of_session s e \<longleftrightarrow> orderToSession e i = Some s"
    and "(orderToClientOrderId e i = None) = (orderToSession e i = None)"
  using assms unfolding tracking_ok_def by blast+

lemma tracking_untracked:
  assumes "tracking_ok e" and "orderToSession e i = None"
  shows "orders (orderbook e) i = None"
  using tracking_okD(1) [OF assms(1), of i] assms(2) by (cases "orders (orderbook e) i") auto

lemma tracking_same_books: "same_books e e' \<Longrightarrow> tracking_ok e' = tracking_ok e"
  by (simp add: same_books_def tracking_ok_def orders_of_session_def)

lemma says_engine_inv:
  assumes "says e outs feeds e'" and "engine_inv e"
  shows "engine_inv e'"
proof -
  have sb: "same_books e e'" and em: "emits e outs feeds e'"
    using assms(1) by (simp_all add: says_def)
  have "inboundQueue e' = inboundQueue e" using sb by (simp add: same_books_def)
  then have "queues_ok e'" by (rule says_log(1) [OF engine_invD(4) [OF assms(2)] em])
  moreover have "tracking_ok e'" using tracking_same_books [OF sb] engine_invD(2) [OF assms(2)] by simp
  ultimately show ?thesis
    using assms(2) sb by (simp add: engine_inv_def addresses_ok_def same_books_def)
qed

section \<open>New orders\<close>

definition incoming_order ::
  "SessionId \<Rightarrow> NewOrderRequest \<Rightarrow> BuySell \<Rightarrow> OrderType \<Rightarrow> Engine \<Rightarrow> Order" where
  "incoming_order sid request side orderType e =
     \<lparr>getPrice = nor_price request, getQuantity = nor_quantity request,
      getTimestamp = clock e 0, getOrderId = nextOrderId e, getOrderType = orderType,
      getBuySell = side, getOrderStatus = NEW, getSessionId = sid,
      getClientOrderId = nor_clientOrderId request\<rparr>"

text \<open>The engine when the book has handled the order and nothing is reported yet.\<close>

definition admitted ::
  "SessionId \<Rightarrow> NewOrderRequest \<Rightarrow> BuySell \<Rightarrow> OrderType \<Rightarrow> Engine \<Rightarrow> Engine" where
  "admitted sid request side orderType e =
     (track_order sid (nextOrderId e) (nor_clientOrderId request) e)
       \<lparr>nextOrderId := nextOrderId e + 1, clock := \<lambda>n. clock e (Suc n),
        orderbook := AddOrder (next_address e)
          (new_order (next_address e) (incoming_order sid request side orderType e) (orderbook e)),
        next_address := Suc (next_address e)\<rparr>"

definition finish_order :: "SessionId \<Rightarrow> OrderId \<Rightarrow> Order \<Rightarrow> Engine \<Rightarrow> Engine" where
  "finish_order sid orderId ord e =
     (if isFilled ord \<or> getOrderStatus ord = CANCELLED then untrack_order sid orderId e else e)"

lemma accept_order_eq:
  "accept_order sid request side orderType e =
     (let e5 = admitted sid request side orderType e;
          e6 = report_trades sid (nextOrderId e) side (next_address e) (trades (orderbook e5)) e5;
          ord = obj (orderbook e6) (next_address e)
      in publishTickUpdate (finish_order sid (nextOrderId e) ord
           (sendOrderAck sid (nor_clientOrderId request) (nextOrderId e) (getOrderStatus ord) e6)))"
proof -
  define report where "report e5 =
    (let e6 = report_trades sid (nextOrderId e) side (next_address e) (trades (orderbook e5)) e5;
         ord = obj (orderbook e6) (next_address e)
     in publishTickUpdate (finish_order sid (nextOrderId e) ord
          (sendOrderAck sid (nor_clientOrderId request) (nextOrderId e) (getOrderStatus ord) e6)))"
    for e5
  define e1 where "e1 = e\<lparr>nextOrderId := nextOrderId e + 1\<rparr>"
  define e2 where "e2 = snd (read_clock e1)"
  define e3 where "e3 = snd (make_shared (incoming_order sid request side orderType e) e2)"
  define e4 where "e4 = track_order sid (nextOrderId e) (nor_clientOrderId request) e3"
  define placed where "placed = e4\<lparr>orderbook := AddOrder (next_address e) (orderbook e4)\<rparr>"
  have rc: "read_clock e1 = (clock e 0, e2)"
    by (simp add: e1_def e2_def read_clock_def)
  have ms: "make_shared (incoming_order sid request side orderType e) e2 = (next_address e, e3)"
    by (simp add: e3_def make_shared_def e2_def e1_def read_clock_def)
  have "accept_order sid request side orderType e = report placed"
    unfolding accept_order_def Let_def report_def e1_def [symmetric] rc prod.case
      incoming_order_def [symmetric] ms e4_def [symmetric] placed_def [symmetric]
      GetRecentTrades_def finish_order_def by (rule refl)
  moreover have "placed = admitted sid request side orderType e"
    by (rule Engine.equality)
      (simp_all add: placed_def admitted_def track_order_def make_shared_def read_clock_def
        orders_of_session_def e1_def e2_def e3_def e4_def)
  ultimately show ?thesis by (simp only: report_def Let_def)
qed

lemma admitted_fields [simp]:
  "inboundQueue (admitted sid request side orderType e) = inboundQueue e"
  "outboundQueue (admitted sid request side orderType e) = outboundQueue e"
  "feedQueue (admitted sid request side orderType e) = feedQueue e"
  "symbol (admitted sid request side orderType e) = symbol e"
  "nextTradeId (admitted sid request side orderType e) = nextTradeId e"
  "lastTradePrice (admitted sid request side orderType e) = lastTradePrice e"
  "lastTradeQty (admitted sid request side orderType e) = lastTradeQty e"
  "nextOrderId (admitted sid request side orderType e) = nextOrderId e + 1"
  "orderToSession (admitted sid request side orderType e) =
     (orderToSession e)(nextOrderId e \<mapsto> sid)"
  by (simp_all add: admitted_def track_order_def)

lemma admitted_orderbook [simp]:
  "orderbook (admitted sid request side orderType e) = AddOrder (next_address e)
     (new_order (next_address e) (incoming_order sid request side orderType e) (orderbook e))"
  by (simp_all add: admitted_def track_order_def)

definition valid_terms :: "NewOrderRequest \<Rightarrow> BuySell \<Rightarrow> OrderType \<Rightarrow> bool" where
  "valid_terms request side orderType \<longleftrightarrow>
     (side = BUY \<or> side = SELL) \<and> 0 < nor_quantity request"

lemma incoming_order_fields [simp]:
  "getOrderId (incoming_order sid request side orderType e) = nextOrderId e"
  "getSessionId (incoming_order sid request side orderType e) = sid"
  "getClientOrderId (incoming_order sid request side orderType e) = nor_clientOrderId request"
  "getBuySell (incoming_order sid request side orderType e) = side"
  "getOrderType (incoming_order sid request side orderType e) = orderType"
  "getPrice (incoming_order sid request side orderType e) = nor_price request"
  "getQuantity (incoming_order sid request side orderType e) = nor_quantity request"
  by (simp_all add: incoming_order_def)

lemma fresh_id:
  assumes "engine_inv e"
  shows "orderToSession e (nextOrderId e) = None" and "orders (orderbook e) (nextOrderId e) = None"
    and "store (orderbook e) (next_address e) = None"
proof -
  note track = engine_invD(2) [OF assms]
  show ots: "orderToSession e (nextOrderId e) = None"
    using tracking_okD(2) [OF track, of "nextOrderId e"]
    by (cases "orderToSession e (nextOrderId e)") auto
  show "orders (orderbook e) (nextOrderId e) = None" by (rule tracking_untracked [OF track ots])
  show "store (orderbook e) (next_address e) = None"
    using engine_invD(3) [OF assms] unfolding addresses_ok_def by blast
qed

lemma incoming_insertable:
  fixes sid :: SessionId
  assumes inv: "engine_inv e" and ok: "valid_terms request side orderType"
  defines "b \<equiv> new_order (next_address e) (incoming_order sid request side orderType e) (orderbook e)"
  shows "book_inv {} b" and "book_abs b = book_abs (orderbook e)" and "insertable (next_address e) b"
proof -
  note fresh = fresh_id [OF inv] and binv = engine_invD(1) [OF inv]
  show "book_inv {} b" "book_abs b = book_abs (orderbook e)"
    using book_inv_new_order [OF binv fresh(3)] by (simp_all add: b_def)
  show "insertable (next_address e) b"
    unfolding b_def using ok fresh by (intro insertable_new_order [OF binv]) (auto simp: valid_terms_def)
qed

definition ids_left :: "Engine \<Rightarrow> bool" where
  "ids_left e \<longleftrightarrow> nextOrderId e + 1 \<noteq> 0"

lemma next_id_less:
  assumes "ids_left e"
  shows "nextOrderId e < nextOrderId e + 1" and "i < nextOrderId e \<Longrightarrow> i < nextOrderId e + 1"
proof -
  have "unat (1 + nextOrderId e) = Suc (unat (nextOrderId e))"
    using assms by (intro unatSuc) (simp add: ids_left_def add.commute)
  then have eq: "unat (nextOrderId e + 1) = Suc (unat (nextOrderId e))" by (simp add: add.commute)
  show less: "nextOrderId e < nextOrderId e + 1" unfolding word_less_nat_alt eq by simp
  show "i < nextOrderId e \<Longrightarrow> i < nextOrderId e + 1" using less by (rule less_trans [rotated])
qed

lemma admitted_keeps:
  fixes sid :: SessionId
  assumes inv: "engine_inv e" and ok: "valid_terms request side orderType" and ids: "ids_left e"
  defines "e5 \<equiv> admitted sid request side orderType e"
  shows "book_inv {} (orderbook e5)" and "tracking_ok e5" and "addresses_ok e5"
proof -
  let ?x = "next_address e" and ?n = "nextOrderId e"
  let ?ord = "incoming_order sid request side orderType e"
  let ?b = "new_order ?x ?ord (orderbook e)"
  note ins = incoming_insertable [OF inv ok, of sid]
  note fresh = fresh_id [OF inv] and track = engine_invD(2) [OF inv]
  show "book_inv {} (orderbook e5)" using ob.add_inv [OF ins(1,3)] by (simp add: e5_def)
  note own = AddOrder_owners [OF ins(1,3)]
  have owners: "same_owner (obj ?b y) (obj (AddOrder ?x ?b) y)"
    and dom: "(store (AddOrder ?x ?b) y = None) = (store ?b y = None)" for y
    using own(1) by (simp_all add: keeps_owners_def)
  show "addresses_ok e5"
    using engine_invD(3) [OF inv] dom
    by (auto simp: addresses_ok_def e5_def admitted_def frame_simps less_Suc_eq split: if_splits)
  have idx: "orderToSession e5 i = Some (getSessionId (obj (orderbook e5) y)) \<and>
      orderToClientOrderId e5 i = Some (getClientOrderId (obj (orderbook e5) y))"
    if "orders (orderbook e5) i = Some y" for i y
  proof -
    have "orders (orderbook e) i = Some y \<or> i = ?n \<and> y = ?x"
      using own(2) [of i y] that by (simp add: e5_def frame_simps)
    then show ?thesis
    proof
      assume old: "orders (orderbook e) i = Some y"
      then have "i \<noteq> ?n" using fresh(2) by auto
      moreover have "y \<noteq> ?x"
        using book_inv_obj_indexed(1) [OF engine_invD(1) [OF inv] old] fresh(3) by auto
      ultimately show ?thesis
        using old track owners [of y]
        by (simp add: e5_def admitted_def track_order_def tracking_ok_def frame_simps same_owner_def)
    next
      assume "i = ?n \<and> y = ?x"
      then show ?thesis
        using owners [of ?x]
        by (simp add: e5_def admitted_def track_order_def frame_simps same_owner_def)
    qed
  qed
  have sets: "i \<in> orders_of_session s e5 \<longleftrightarrow> orderToSession e5 i = Some s" for i s
    using tracking_okD(3) [OF track, of i s] fresh(1) tracking_okD(3) [OF track, of ?n s]
    by (auto simp: e5_def admitted_def track_order_def orders_of_session_def)
  have ids': "i < nextOrderId e5" if "orderToSession e5 i \<noteq> None" for i
    using that tracking_okD(2) [OF track, of i] next_id_less [OF ids]
    by (auto simp: e5_def split: if_splits)
  have "(orderToClientOrderId e5 i = None) = (orderToSession e5 i = None)" for i
    using tracking_okD(4) [OF track, of i] by (simp add: e5_def admitted_def track_order_def)
  with idx sets ids' show "tracking_ok e5" unfolding tracking_ok_def by blast
qed

lemma untrack_keeps:
  assumes track: "tracking_ok e" and s: "orderToSession e i = Some s"
    and out: "orders (orderbook e) i = None"
  shows "tracking_ok (untrack_order s i e)"
proof -
  have "j \<in> orders_of_session t (untrack_order s i e) \<longleftrightarrow>
      orderToSession (untrack_order s i e) j = Some t" for j t
    using tracking_okD(3) [OF track, of j t] s
    by (auto simp: untrack_order_def orders_of_session_def split: if_splits)
  moreover have "orders (orderbook e) j = Some x \<Longrightarrow> j \<noteq> i" for j x using out by auto
  ultimately show ?thesis
    using track by (simp add: tracking_ok_def untrack_order_def)
qed

text \<open>The resting side of every trade was in the book, so it is tracked.\<close>

lemma abs_indexed:
  assumes inv: "book_inv E b" and i: "i \<in> e_id ` set (contra_queue side (book_abs b))"
  shows "orders b i \<noteq> None"
proof -
  have "i \<in> (\<lambda>z. getOrderId (obj b (snd z))) ` (set (queue_of (bids b)) \<union> set (queue_of (asks b)))"
    using i by (simp add: contra_queue_def book_abs_def entries_def entry_def image_Un image_image
        split: if_splits)
  then obtain x where "x \<in> resting b" and "i = getOrderId (obj b x)"
    unfolding resting_def by blast
  with resting_indexed [OF inv] show ?thesis by simp
qed

lemma trades_resting:
  assumes inv: "book_inv {} b" and ins: "insertable x b" and t: "t \<in> set (trades (AddOrder x b))"
  shows "orders b (resting_side_id (getBuySell (obj b x)) t) \<noteq> None"
proof -
  let ?side = "getBuySell (obj b x)"
  note prio = ob.add_priority(1) [OF inv ins]
  have "(tr_price t, resting_side_id ?side t) \<in>
      set (map (\<lambda>(p, i, q). (p, i)) (book_executions ?side (AddOrder x b)))"
    using t by (force simp: book_executions_def)
  then have "(tr_price t, resting_side_id ?side t) \<in>
      (\<lambda>e. (e_price e, e_id e)) ` set (contra_queue ?side (book_abs b))"
    unfolding prio by (auto dest: in_set_takeD)
  then show ?thesis by (intro abs_indexed [OF inv]) force
qed

lemma contra_entry_resting:
  assumes "i \<in> e_id ` set (contra_queue side (book_abs b))"
  obtains x where "x \<in> resting b" and "entry b x \<in> set (contra_queue side (book_abs b))"
    and "e_id (entry b x) = i"
proof -
  have "contra_queue side (book_abs b) = entries b (queue_of (if side = BUY then asks b else bids b))"
    by (simp add: contra_queue_def book_abs_def)
  moreover have "snd ` set (queue_of (if side = BUY then asks b else bids b)) \<subseteq> resting b"
    by (simp add: resting_def image_Un)
  ultimately show ?thesis using assms that by (fastforce simp: entries_def)
qed

text \<open>An order that a new order trades with for all that is left of it leaves the book.\<close>

lemma AddOrder_full_fill_leaves:
  assumes inv: "book_inv {} b" and ins: "insertable x b" and i: "orders b i = Some y"
    and t: "t \<in> set (trades (AddOrder x b))" "resting_side_id (getBuySell (obj b x)) t = i"
      "tr_quantity t = getQuantity (obj b y)"
  shows "orders (AddOrder x b) i = None"
proof -
  let ?side = "getBuySell (obj b x)" and ?b = "AddOrder x b"
  let ?es = "contra_queue ?side (book_abs b)" and ?es' = "contra_queue ?side (book_abs ?b)"
  obtain fs r where spec: "spec_add ?side (crossed (obj b x)) (\<not> isAggressiveOrder (obj b x))
      (entry b x) (book_abs b) = (fs, r, book_abs ?b)"
    and ex: "book_executions ?side ?b = map execution fs"
    using ob.add_spec [OF inv ins] by blast
  note match = spec_add_queues(1) [OF spec]
  have ids: "distinct (map e_id (own_queue ?side (book_abs b)) @ map e_id ?es)"
    using abs_ids_distinct [OF inv] by (auto simp: own_queue_def contra_queue_def)
  have "(tr_price t, i, unat (tr_quantity t)) \<in> set (map execution fs)"
    using t(1,2) by (force simp: ex [symmetric] book_executions_def)
  then obtain f where f: "f \<in> set fs" "f_id f = i" "f_qty f = unat (getQuantity (obj b y))"
    by (auto simp: execution_def t(3))
  then have "i \<in> e_id ` set ?es" using spec_match_prices [OF match] by blast
  then obtain z where z: "z \<in> resting b" "entry b z \<in> set ?es" "e_id (entry b z) = i"
    by (rule contra_entry_resting)
  then have "orders b i = Some z" using resting_indexed [OF inv z(1)] by (simp add: entry_def)
  then have "f_qty f = e_qty (entry b z)" using i f(3) by (simp add: entry_def)
  with spec_match_full_fill [OF match _ f(1) z(2)] ids z(3) f(2) have gone: "i \<notin> e_id ` set ?es'" by simp
  have "y \<in> resting b" by (rule book_inv_obj_indexed(3) [OF inv i])
  moreover have "x \<notin> resting b" "orders b (getOrderId (obj b x)) \<in> {None, Some x}"
    using ins by (auto simp: insertable_def)
  ultimately have new: "i \<noteq> getOrderId (obj b x)" using i by force
  have "i \<in> e_id ` set ?es" using z by (metis imageI)
  then have "i \<notin> e_id ` set (own_queue ?side (book_abs b))" using ids by auto
  then have "i \<notin> e_id ` set (own_queue ?side (book_abs ?b))"
    using spec_add_queues(2) [OF spec] new by (auto simp: set_insert_behind entry_def)
  with gone have none: "i \<notin> e_id ` (set (bid_queue (book_abs ?b)) \<union> set (ask_queue (book_abs ?b)))"
    by (auto simp: own_queue_def contra_queue_def split: if_splits)
  show ?thesis
  proof (rule ccontr)
    assume "orders ?b i \<noteq> None"
    then obtain w where "orders ?b i = Some w" by blast
    from book_inv_obj_indexed(2,3) [OF ob.add_inv [OF inv ins] this] none show False
      by (force simp: resting_def book_abs_def entries_def entry_def image_image)
  qed
qed

lemma admitted_trades_tracked:
  fixes sid :: SessionId
  assumes inv: "engine_inv e" and ok: "valid_terms request side orderType"
  defines "e5 \<equiv> admitted sid request side orderType e"
  assumes t: "t \<in> set (trades (orderbook e5))"
  shows "orderToSession e (resting_side_id side t) \<noteq> None"
    and "resting_side_id side t \<noteq> nextOrderId e"
proof -
  note ins = incoming_insertable [OF inv ok, of sid]
  have "orders (orderbook e) (resting_side_id side t) \<noteq> None"
    using trades_resting [OF ins(1,3), of t] t by (simp add: e5_def frame_simps)
  with tracking_untracked [OF engine_invD(2) [OF inv], of "resting_side_id side t"] fresh_id(2) [OF inv]
  show "orderToSession e (resting_side_id side t) \<noteq> None"
    and "resting_side_id side t \<noteq> nextOrderId e" by metis+
qed

text \<open>A finished order is no longer in the index.\<close>

lemma admitted_done:
  fixes sid :: SessionId
  assumes inv: "engine_inv e" and ok: "valid_terms request side orderType" and ids: "ids_left e"
  defines "e5 \<equiv> admitted sid request side orderType e"
  defines "ord \<equiv> obj (orderbook e5) (next_address e)"
  shows "isFilled ord \<or> getOrderStatus ord = CANCELLED \<longleftrightarrow>
    orders (orderbook e5) (nextOrderId e) = None"
proof -
  let ?b = "new_order (next_address e) (incoming_order sid request side orderType e) (orderbook e)"
  note ins = incoming_insertable [OF inv ok, of sid]
  obtain fs r where ref: "refines_add (next_address e) ?b (AddOrder (next_address e) ?b) fs r"
    using AddOrder_keeps(2) [OF ins(1,3)] by blast
  have ord: "ord = final_order (incoming_order sid request side orderType e) r"
    using ref by (simp add: refines_add_def Let_def ord_def e5_def frame_simps)
  have binv: "book_inv {} (orderbook e5)" using admitted_keeps(1) [OF inv ok ids] by (simp add: e5_def)
  show ?thesis
  proof (cases "orders (orderbook e5) (nextOrderId e)")
    case None
    have "isFilled ord \<or> getOrderStatus ord = CANCELLED"
    proof (rule ccontr)
      assume "\<not> (isFilled ord \<or> getOrderStatus ord = CANCELLED)"
      then have r: "r \<noteq> 0" "\<not> isAggressiveOrder (incoming_order sid request side orderType e)"
        by (auto simp: ord final_order_def isFilled_def split: if_splits)
      let ?ord = "incoming_order sid request side orderType e"
      have spec: "spec_add side (crossed ?ord) True (entry ?b (next_address e)) (book_abs ?b) =
          (fs, unat r, book_abs (orderbook e5))"
        using ref r(2) by (simp add: refines_add_def Let_def e5_def frame_simps)
      have "entry ?b (next_address e)\<lparr>e_qty := unat r\<rparr> \<in> set (own_queue side (book_abs (orderbook e5)))"
        using spec_add_queues(2) [OF spec] r(1) by (simp add: unat_gt_0)
      then have "nextOrderId e \<in> e_id ` set (own_queue side (book_abs (orderbook e5)))"
        by (force simp: entry_def frame_simps)
      then have "nextOrderId e \<in> e_id ` set (contra_queue (if side = BUY then SELL else BUY)
          (book_abs (orderbook e5)))"
        by (auto simp: own_queue_def contra_queue_def split: if_splits)
      from abs_indexed [OF binv this] None show False by simp
    qed
    with None show ?thesis by simp
  next
    case (Some y)
    have "y = next_address e"
      using AddOrder_owners(2) [OF ins(1,3), of "nextOrderId e" y] Some fresh_id(2) [OF inv]
      by (auto simp: e5_def frame_simps)
    with book_inv_obj_indexed(6) [OF binv Some] have "0 < getQuantity ord" by (simp add: ord_def)
    then have "\<not> isFilled ord" by (simp add: isFilled_def word_neq_0_conv)
    moreover from this have "getOrderStatus ord \<noteq> CANCELLED"
      by (auto simp: ord final_order_def isFilled_def split: if_splits)
    ultimately show ?thesis using Some by simp
  qed
qed

end
