(* ===== verification/Engine_Effects.thy ===== *)
theory Engine_Effects
  imports Engine_Handlers
begin

text \<open>
  The effect of each message on the engine: the book, the tracking tables, the messages sent,
  and the invariant. The reachable engines are those that any sequence of inbound messages,
  disconnects and consumer reads brings about.
\<close>

section \<open>Accepting a new order\<close>

lemma finish_order_fields [simp]:
  "inboundQueue (finish_order s i ord e) = inboundQueue e"
  "outboundQueue (finish_order s i ord e) = outboundQueue e"
  "feedQueue (finish_order s i ord e) = feedQueue e"
  "orderbook (finish_order s i ord e) = orderbook e"
  "symbol (finish_order s i ord e) = symbol e"
  "nextOrderId (finish_order s i ord e) = nextOrderId e"
  "nextTradeId (finish_order s i ord e) = nextTradeId e"
  "lastTradePrice (finish_order s i ord e) = lastTradePrice e"
  "lastTradeQty (finish_order s i ord e) = lastTradeQty e"
  "tradesExecuted (finish_order s i ord e) = tradesExecuted e"
  "next_address (finish_order s i ord e) = next_address e"
  by (simp_all add: finish_order_def untrack_order_def)

lemma ack_counters [simp]:
  "nextTradeId (sendOrderAck a b c d e) = nextTradeId e"
  "lastTradePrice (sendOrderAck a b c d e) = lastTradePrice e"
  "lastTradeQty (sendOrderAck a b c d e) = lastTradeQty e"
  "tradesExecuted (sendOrderAck a b c d e) = tradesExecuted e"
  "nextTradeId (publishTickUpdate e) = nextTradeId e"
  "lastTradePrice (publishTickUpdate e) = lastTradePrice e"
  "lastTradeQty (publishTickUpdate e) = lastTradeQty e"
  "tradesExecuted (publishTickUpdate e) = tradesExecuted e"
  by (simp_all add: sendOrderAck_def publishTickUpdate_def send_defs push_outbound_def push_feed_def
      Let_def split: prod.splits)

lemma trade_reports_cong:
  "\<forall>t\<in>set ts. owner (resting_side_id side t) = owner' (resting_side_id side t) \<Longrightarrow>
   trade_reports owner sid i side q tid ts = trade_reports owner' sid i side q tid ts"
  by (induction ts arbitrary: tid) auto

text \<open>The messages that an accepted order of the engine \<open>e\<close> causes.\<close>

definition new_order_messages ::
  "SessionId \<Rightarrow> NewOrderRequest \<Rightarrow> BuySell \<Rightarrow> OrderType \<Rightarrow> Engine \<Rightarrow> OutboundMessage list" where
  "new_order_messages sid request side orderType e =
     (let b = orderbook (admitted sid request side orderType e);
          ord = obj b (next_address e)
      in trade_reports (orderToSession e) sid (nextOrderId e) side (getQuantity ord)
           (nextTradeId e) (trades b) @
         [order_ack sid (nor_clientOrderId request) (nextOrderId e) (getOrderStatus ord)])"

definition new_order_feed ::
  "SessionId \<Rightarrow> NewOrderRequest \<Rightarrow> BuySell \<Rightarrow> OrderType \<Rightarrow> Engine \<Rightarrow> MarketDataMessage list" where
  "new_order_feed sid request side orderType e =
     (let b = orderbook (admitted sid request side orderType e)
      in trade_updates (symbol e) side (nextTradeId e) (trades b) @
         [tick_update (symbol e) (last_price (lastTradePrice e) (trades b))
            (last_qty (lastTradeQty e) (trades b)) b])"

declare admitted_orderbook [simp del]

lemma accept_order_effect:
  fixes sid :: SessionId
  assumes inv: "engine_inv e" and ok: "valid_terms request side orderType" and ids: "ids_left e"
  defines "e' \<equiv> accept_order sid request side orderType e"
  defines "b \<equiv> orderbook (admitted sid request side orderType e)"
  shows "engine_inv e'" and "orderbook e' = b"
    and "emits e (new_order_messages sid request side orderType e)
           (new_order_feed sid request side orderType e) e'"
    and "inboundQueue e' = inboundQueue e" and "nextOrderId e' = nextOrderId e + 1"
    and "trade_counters 2 (trades b) e e'"
    and "orderToSession e' = (orderToSession e)
           (nextOrderId e := (if orders b (nextOrderId e) = None then None else Some sid))"
proof -
  let ?e5 = "admitted sid request side orderType e" and ?n = "nextOrderId e"
  let ?x = "next_address e" and ?cid = "nor_clientOrderId request"
  let ?e6 = "report_trades sid ?n side ?x (trades b) ?e5"
  let ?ord = "obj b ?x"
  let ?e7 = "sendOrderAck sid ?cid ?n (getOrderStatus ?ord) ?e6"
  let ?e8 = "finish_order sid ?n ?ord ?e7"
  have b: "orderbook ?e5 = b" by (simp add: b_def)
  note tracked = admitted_trades_tracked [OF inv ok, of _ sid, folded b_def]
  have "\<forall>t\<in>set (trades b). orderToSession ?e5 (resting_side_id side t) \<noteq> None"
    using tracked by auto
  note rep = report_trades_says [OF this, of sid ?n ?x, unfolded b admitted_fields]
  have same6: "same_books ?e5 ?e6" and cnt6: "trade_counters 2 (trades b) ?e5 ?e6"
    using rep by (simp_all add: says_def)
  then have b6: "orderbook ?e6 = b" and sym6: "symbol ?e6 = symbol e"
    by (simp_all add: same_books_def b)
  have e': "e' = publishTickUpdate ?e8"
    by (simp add: e'_def accept_order_eq Let_def b b6)
  note ack = says_sendOrderAck [of ?e6 sid ?cid ?n "getOrderStatus ?ord"]
  note s57 = says_trans [OF conjunct1 [OF rep] ack]
  have same7: "same_books ?e5 ?e7" using s57 by (simp add: says_def)
  then have f7: "orderbook ?e7 = b" "symbol ?e7 = symbol e" "next_address ?e7 = Suc ?x"
    "inboundQueue ?e7 = inboundQueue e" "nextOrderId ?e7 = ?n + 1"
    "orderToSession ?e7 = (orderToSession e)(?n \<mapsto> sid)"
    by (simp_all add: same_books_def b) (simp add: admitted_def)
  note tick = says_publishTickUpdate [of ?e8]
  have same8: "same_books ?e8 e'" using tick by (simp add: says_def e')
  then show ob: "orderbook e' = b" and "inboundQueue e' = inboundQueue e" and "nextOrderId e' = ?n + 1"
    by (simp_all add: same_books_def f7)
  have owners: "trade_reports ((orderToSession e)(?n \<mapsto> sid)) sid ?n side (getQuantity ?ord)
      (nextTradeId e) (trades b) =
      trade_reports (orderToSession e) sid ?n side (getQuantity ?ord) (nextTradeId e) (trades b)"
    using tracked(2) by (intro trade_reports_cong) auto
  have "emits e [] [] ?e5" by (rule emits_silent) simp_all
  also have "emits ?e5 (new_order_messages sid request side orderType e)
      (trade_updates (symbol e) side (nextTradeId e) (trades b)) ?e7"
    using s57 by (simp add: says_def new_order_messages_def Let_def b owners)
  also have "emits ?e7 [] [] ?e8" by (rule emits_silent) simp_all
  also have "emits ?e8 [] [tick_update (symbol e) (last_price (lastTradePrice e) (trades b))
      (last_qty (lastTradeQty e) (trades b)) b] e'"
    using tick cnt6 by (simp add: says_def e' f7 trade_counters_def)
  finally show em: "emits e (new_order_messages sid request side orderType e)
      (new_order_feed sid request side orderType e) e'"
    by (simp add: new_order_feed_def Let_def b)
  show "trade_counters 2 (trades b) e e'"
    using cnt6 by (simp add: e' trade_counters_def) (simp add: admitted_def track_order_def)
  note keeps = admitted_keeps [OF inv ok ids, of sid, unfolded b]
  note closed = admitted_done [OF inv ok ids, of sid, unfolded b]
  have track7: "tracking_ok ?e7" using keeps(2) tracking_same_books [OF same7] by simp
  have "tracking_ok ?e8"
    using track7 untrack_keeps [OF track7, of ?n sid] closed by (simp add: finish_order_def f7)
  then have "tracking_ok e'" using tracking_same_books [OF same8] by simp
  moreover have "addresses_ok e'"
    using keeps(3) same7 same8 by (simp add: addresses_ok_def same_books_def b)
  moreover have "queues_ok e'"
    by (rule says_log(1) [OF engine_invD(4) [OF inv] em]) (use same8 in \<open>simp add: same_books_def f7\<close>)
  ultimately show "engine_inv e'" using keeps(1) by (simp add: engine_inv_def ob)
  show "orderToSession e' = (orderToSession e)
      (?n := (if orders b ?n = None then None else Some sid))"
    using same8 closed by (simp add: same_books_def finish_order_def untrack_order_def f7)
qed

section \<open>handleNewOrder\<close>

lemma ordersProcessed_irrelevant [simp]:
  "engine_inv (e\<lparr>ordersProcessed := n\<rparr>) = engine_inv e"
  "ids_left (e\<lparr>ordersProcessed := n\<rparr>) = ids_left e"
  by (simp_all add: engine_inv_def tracking_ok_def addresses_ok_def queues_ok_def
      orders_of_session_def ids_left_def)

lemma ordersProcessed_messages [simp]:
  "orderbook (admitted sid request side orderType (e\<lparr>ordersProcessed := n\<rparr>)) =
   orderbook (admitted sid request side orderType e)"
  "new_order_messages sid request side orderType (e\<lparr>ordersProcessed := n\<rparr>) =
   new_order_messages sid request side orderType e"
  "new_order_feed sid request side orderType (e\<lparr>ordersProcessed := n\<rparr>) =
   new_order_feed sid request side orderType e"
  "emits (e\<lparr>ordersProcessed := n\<rparr>) outs feeds e' = emits e outs feeds e'"
  by (simp_all add: admitted_orderbook new_order_messages_def new_order_feed_def emits_def
      incoming_order_def)

text \<open>The requests that the exchange takes, by the protocol's codes.\<close>

definition acceptable :: "NewOrderRequest \<Rightarrow> BuySell \<Rightarrow> OrderType \<Rightarrow> bool" where
  "acceptable request side orderType \<longleftrightarrow>
     side \<in> {BUY, SELL} \<and> orderType \<in> {LIMIT, MARKET, IOC} \<and>
     nor_side request = BuySell_code side \<and> nor_orderType request = OrderType_code orderType \<and>
     0 < nor_quantity request \<and> (orderType = LIMIT \<longrightarrow> 0 < sint (nor_price request))"

text \<open>What a reject reason says about the request.\<close>

fun justifies :: "NewOrderRequest \<Rightarrow> RejectReason \<Rightarrow> bool" where
  "justifies request INVALID_SIDE = (nor_side request \<notin> {BuySell_code BUY, BuySell_code SELL})"
| "justifies request INVALID_ORDER_TYPE =
     (nor_orderType request \<notin> {OrderType_code LIMIT, OrderType_code MARKET, OrderType_code IOC})"
| "justifies request INVALID_QUANTITY = (nor_quantity request = 0)"
| "justifies request INVALID_PRICE =
     (nor_orderType request = OrderType_code LIMIT \<and> sint (nor_price request) \<le> 0)"
| "justifies request _ = False"

lemma cast_code_iff:
  "BuySell_cast v = Some s \<longleftrightarrow> v = BuySell_code s"
  "OrderType_cast w = Some t \<longleftrightarrow> w = OrderType_code t"
  by (cases s; auto simp: BuySell_cast_def) (cases t; auto simp: OrderType_cast_def)

lemma handleNewOrder_cases:
  obtains (accepted) side orderType where "acceptable request side orderType"
      and "handleNewOrder sid request e = accept_order sid request side orderType
             (e\<lparr>ordersProcessed := ordersProcessed e + 1\<rparr>)"
  | (rejected) reason where "justifies request reason"
      and "\<And>side orderType. \<not> acceptable request side orderType"
      and "handleNewOrder sid request e = sendOrderReject sid (nor_clientOrderId request) reason
             (e\<lparr>ordersProcessed := ordersProcessed e + 1\<rparr>)"
proof -
  let ?side = "BuySell_cast (nor_side request)" and ?type = "OrderType_cast (nor_orderType request)"
  consider "?side \<noteq> Some BUY \<and> ?side \<noteq> Some SELL"
    | s where "?side = Some s" "s = BUY \<or> s = SELL"
        "?type \<noteq> Some LIMIT \<and> ?type \<noteq> Some MARKET \<and> ?type \<noteq> Some IOC"
    | s t where "?side = Some s" "s = BUY \<or> s = SELL" "?type = Some t"
        "t = LIMIT \<or> t = MARKET \<or> t = IOC"
    by blast
  then show thesis
  proof cases
    case 1
    then show thesis
      by (intro rejected [of INVALID_SIDE])
        (auto simp: handleNewOrder_def Let_def cast_code_iff acceptable_def)
  next
    case (2 s)
    then show thesis
      by (intro rejected [of INVALID_ORDER_TYPE])
        (auto simp: handleNewOrder_def Let_def cast_code_iff acceptable_def)
  next
    case (3 s t)
    then have codes: "nor_side request = BuySell_code s" "nor_orderType request = OrderType_code t"
      by (simp_all add: cast_code_iff)
    consider "nor_quantity request = 0"
      | "nor_quantity request \<noteq> 0" "t = LIMIT" "sint (nor_price request) \<le> 0"
      | "nor_quantity request \<noteq> 0" "t = LIMIT \<longrightarrow> 0 < sint (nor_price request)" by linarith
    then show thesis
    proof cases
      case 1
      with 3 show thesis
        by (intro rejected [of INVALID_QUANTITY])
          (auto simp: handleNewOrder_def Let_def acceptable_def)
    next
      case 2
      with 3 codes show thesis
        by (intro rejected [of INVALID_PRICE])
          (auto simp: handleNewOrder_def Let_def acceptable_def)
    next
      case price: 3
      with 3 codes show thesis
        by (intro accepted [of s t])
          (auto simp: handleNewOrder_def Let_def acceptable_def word_neq_0_conv)
    qed
  qed
qed

lemma acceptable_valid: "acceptable request side orderType \<Longrightarrow> valid_terms request side orderType"
  by (auto simp: acceptable_def valid_terms_def)

lemma acceptable_unique:
  "acceptable request s t \<Longrightarrow> acceptable request s' t' \<Longrightarrow> s' = s \<and> t' = t"
  by (simp add: acceptable_def)

lemma handleNewOrder_accepts:
  assumes "acceptable request side orderType"
  shows "handleNewOrder sid request e = accept_order sid request side orderType
    (e\<lparr>ordersProcessed := ordersProcessed e + 1\<rparr>)"
  using handleNewOrder_cases [of request sid e] acceptable_unique [OF assms] assms
  by metis

lemma handleNewOrder_keeps:
  assumes "engine_inv e" and "ids_left e"
  shows "engine_inv (handleNewOrder sid request e)"
proof (cases rule: handleNewOrder_cases [of request sid e])
  case (accepted side orderType)
  with accept_order_effect(1) [OF _ acceptable_valid] assms show ?thesis by simp
next
  case (rejected reason)
  with says_engine_inv [OF says_sendOrderReject] assms show ?thesis by simp
qed

section \<open>handleCancelOrder\<close>

text \<open>Who may cancel or modify an order: the session that owns it and the dummy session.\<close>

definition may_touch :: "SessionId \<Rightarrow> OrderId \<Rightarrow> Engine \<Rightarrow> bool" where
  "may_touch sid i e \<longleftrightarrow>
     (\<exists>s. orderToSession e i = Some s \<and> (s = sid \<or> sid = DUMMY_SESSION_ID))"

lemma cancel_ack_counters [simp]:
  "lastTradePrice (sendCancelAck a b c e) = lastTradePrice e"
  "lastTradeQty (sendCancelAck a b c e) = lastTradeQty e"
  "lastTradePrice (sendModifyAck a b c p q e) = lastTradePrice e"
  "lastTradeQty (sendModifyAck a b c p q e) = lastTradeQty e"
  "nextTradeId (sendModifyAck a b c p q e) = nextTradeId e"
  "tradesExecuted (sendModifyAck a b c p q e) = tradesExecuted e"
  by (simp_all add: sendCancelAck_def sendModifyAck_def send_defs push_outbound_def)

lemma cancelled_book_keeps:
  assumes inv: "engine_inv e" and s: "orderToSession e i = Some s"
  defines "e1 \<equiv> e\<lparr>orderbook := CancelOrder i (orderbook e)\<rparr>"
  shows "engine_inv e1" and "orders (orderbook e1) i = None"
proof -
  note binv = engine_invD(1) [OF inv] and track = engine_invD(2) [OF inv]
  note idx = CancelOrder_index(1) [OF binv, of i] and own = CancelOrder_owners [OF binv, of i]
  have owners: "same_owner (obj (orderbook e) y) (obj (CancelOrder i (orderbook e)) y)"
    and dom: "(store (CancelOrder i (orderbook e)) y = None) = (store (orderbook e) y = None)" for y
    using own by (simp_all add: keeps_owners_def)
  have "tracking_ok e1"
    using track owners
    by (simp add: tracking_ok_def e1_def idx orders_of_session_def same_owner_def)
  moreover have "addresses_ok e1"
    using engine_invD(3) [OF inv] dom by (simp add: addresses_ok_def e1_def)
  ultimately show "engine_inv e1"
    using inv ob.cancel_inv [OF binv] by (simp add: engine_inv_def e1_def queues_ok_def)
  show "orders (orderbook e1) i = None" by (simp add: e1_def idx)
qed

lemma untrack_engine_inv:
  assumes inv: "engine_inv e" and s: "orderToSession e i = Some s" and out: "orders (orderbook e) i = None"
  shows "engine_inv (untrack_order s i e)"
  using untrack_keeps [OF engine_invD(2) [OF inv] s out] inv
  by (simp add: engine_inv_def addresses_ok_def queues_ok_def untrack_order_def)

lemma handleCancelOrder_effect:
  fixes sid :: SessionId
  assumes inv: "engine_inv e" and may: "may_touch sid (cor_orderId request) e"
  defines "i \<equiv> cor_orderId request"
  defines "e' \<equiv> handleCancelOrder sid request e" and "b \<equiv> CancelOrder (cor_orderId request) (orderbook e)"
  shows "engine_inv e'" and "orderbook e' = b"
    and "orderToSession e' = (orderToSession e)(i := None)"
    and "nextOrderId e' = nextOrderId e" and "inboundQueue e' = inboundQueue e"
    and "emits e [cancel_ack sid (cor_clientOrderId request) i]
           [tick_update (symbol e) (lastTradePrice e) (lastTradeQty e) b] e'"
proof -
  obtain s where s: "orderToSession e i = Some s" and "\<not> (s \<noteq> sid \<and> sid \<noteq> DUMMY_SESSION_ID)"
    using may by (auto simp: may_touch_def i_def)
  let ?e1 = "e\<lparr>orderbook := b\<rparr>"
  let ?e2 = "untrack_order s i ?e1"
  let ?e3 = "sendCancelAck sid (cor_clientOrderId request) i ?e2"
  have e': "e' = publishTickUpdate ?e3"
    using s \<open>\<not> (s \<noteq> sid \<and> sid \<noteq> DUMMY_SESSION_ID)\<close>
    by (auto simp: e'_def handleCancelOrder_def i_def b_def)
  note keeps = cancelled_book_keeps [OF inv s, folded b_def [folded i_def]]
  have inv2: "engine_inv ?e2" using untrack_engine_inv [OF keeps(1) _ keeps(2)] s by simp
  note says = says_trans [OF says_sendCancelAck says_publishTickUpdate, of ?e2 sid "cor_clientOrderId request" i]
  have same: "same_books ?e2 e'" using says by (simp add: says_def e')
  show "engine_inv e'" using says_engine_inv [OF says inv2] by (simp add: e')
  show "orderbook e' = b" "orderToSession e' = (orderToSession e)(i := None)"
    "nextOrderId e' = nextOrderId e" "inboundQueue e' = inboundQueue e"
    using same by (simp_all add: same_books_def untrack_order_def)
  have "emits e [] [] ?e2" by (rule emits_silent) (simp_all add: untrack_order_def)
  also have "emits ?e2 [cancel_ack sid (cor_clientOrderId request) i]
      [tick_update (symbol e) (lastTradePrice e) (lastTradeQty e) b] e'"
  proof -
    have "same_books ?e2 ?e3" using says_sendCancelAck by (simp add: says_def)
    then have "orderbook ?e3 = b" "symbol ?e3 = symbol e"
      by (simp_all add: same_books_def untrack_order_def)
    with says show ?thesis by (simp add: says_def e') (simp add: untrack_order_def)
  qed
  finally show "emits e [cancel_ack sid (cor_clientOrderId request) i]
           [tick_update (symbol e) (lastTradePrice e) (lastTradeQty e) b] e'"
    by simp
qed

lemma handleCancelOrder_refused:
  "\<not> may_touch sid (cor_orderId request) e \<Longrightarrow>
   handleCancelOrder sid request e =
     sendCancelReject sid (cor_clientOrderId request) (cor_orderId request) ORDER_NOT_FOUND e"
  by (auto simp: handleCancelOrder_def may_touch_def split: option.split)

lemma handleCancelOrder_keeps:
  assumes "engine_inv e"
  shows "engine_inv (handleCancelOrder sid request e)"
  using handleCancelOrder_effect(1) [OF assms] handleCancelOrder_refused
    says_engine_inv [OF says_sendCancelReject assms]
  by (cases "may_touch sid (cor_orderId request) e") auto

section \<open>handleModifyOrder\<close>

definition modify_updates :: "8 word list \<Rightarrow> TradeId \<Rightarrow> OrderId \<Rightarrow> Trade list \<Rightarrow> MarketDataMessage list" where
  "modify_updates sym_name tid i ts =
     map (\<lambda>t. trade_update sym_name tid t (if buyOrderId t = i then BUY else SELL)) ts"

lemma report_modify_trade_says:
  "says e [] [trade_update (symbol e) (nextTradeId e) t (if buyOrderId t = i then BUY else SELL)]
     (report_modify_trade i t e) \<and> trade_counters 0 [t] e (report_modify_trade i t e)"
proof -
  let ?e1 = "e\<lparr>tradesExecuted := tradesExecuted e + 1, lastTradePrice := tr_price t,
               lastTradeQty := tr_quantity t\<rparr>"
  have "says e [] [] ?e1" by (rule says_silent) (simp_all add: same_books_def)
  from says_trans [OF this says_publishTradeUpdate] show ?thesis
    by (simp add: report_modify_trade_def Let_def trade_counters_def last_price_def last_qty_def)
qed

lemma report_modify_trades_says:
  "says e [] (modify_updates (symbol e) (nextTradeId e) i ts) (fold (report_modify_trade i) ts e) \<and>
   trade_counters 0 ts e (fold (report_modify_trade i) ts e)"
proof (induction ts arbitrary: e)
  case Nil
  then show ?case
    by (simp add: modify_updates_def says_silent same_books_def trade_counters_def last_price_def
        last_qty_def)
next
  case (Cons t ts)
  let ?e1 = "report_modify_trade i t e"
  note one = report_modify_trade_says [of e t i]
  have same: "symbol ?e1 = symbol e" "nextTradeId ?e1 = nextTradeId e"
    using one by (simp_all add: says_def same_books_def trade_counters_def)
  note rest = Cons.IH [of ?e1, unfolded same]
  show ?case
    using says_trans [OF conjunct1 [OF one] conjunct1 [OF rest]]
      trade_counters_Cons [OF conjunct2 [OF one] conjunct2 [OF rest]]
    by (simp add: modify_updates_def)
qed

definition modifiable :: "ModifyOrderRequest \<Rightarrow> bool" where
  "modifiable request \<longleftrightarrow> 0 < sint (mor_newPrice request) \<and> mor_newQuantity request \<noteq> 0"

lemma modified_book_keeps:
  assumes inv: "engine_inv e" and nq: "0 < nq"
  shows "engine_inv (e\<lparr>orderbook := ModifyOrder i np nq (orderbook e)\<rparr>)"
proof -
  let ?e1 = "e\<lparr>orderbook := ModifyOrder i np nq (orderbook e)\<rparr>"
  note binv = engine_invD(1) [OF inv] and track = engine_invD(2) [OF inv]
  note own = ModifyOrder_owners [OF binv nq, of i np]
  have owners: "same_owner (obj (orderbook e) y) (obj (ModifyOrder i np nq (orderbook e)) y)"
    and dom: "(store (ModifyOrder i np nq (orderbook e)) y = None) = (store (orderbook e) y = None)" for y
    using own(1) by (simp_all add: keeps_owners_def)
  have "tracking_ok ?e1"
    using track owners own(2)
    by (simp add: tracking_ok_def orders_of_session_def same_owner_def)
  moreover have "addresses_ok ?e1"
    using engine_invD(3) [OF inv] dom by (simp add: addresses_ok_def)
  ultimately show ?thesis
    using inv ModifyOrder_keeps [OF binv nq] by (simp add: engine_inv_def queues_ok_def)
qed

lemma handleModifyOrder_effect:
  fixes sid :: SessionId
  assumes inv: "engine_inv e" and may: "may_touch sid (mor_orderId request) e"
    and ok: "modifiable request"
  defines "e' \<equiv> handleModifyOrder sid request e"
    and "b \<equiv> ModifyOrder (mor_orderId request) (mor_newPrice request) (mor_newQuantity request) (orderbook e)"
  shows "engine_inv e'" and "orderbook e' = b" and "orderToSession e' = orderToSession e"
    and "nextOrderId e' = nextOrderId e" and "inboundQueue e' = inboundQueue e"
    and "emits e [modify_ack sid (mor_clientOrderId request) (mor_orderId request)
             (mor_newPrice request) (mor_newQuantity request)]
           (modify_updates (symbol e) (nextTradeId e) (mor_orderId request) (trades b) @
            [tick_update (symbol e) (last_price (lastTradePrice e) (trades b))
               (last_qty (lastTradeQty e) (trades b)) b]) e'"
    and "trade_counters 0 (trades b) e e'"
proof -
  let ?i = "mor_orderId request"
  let ?e1 = "e\<lparr>orderbook := b\<rparr>"
  let ?e2 = "fold (report_modify_trade ?i) (trades b) ?e1"
  let ?e3 = "sendModifyAck sid (mor_clientOrderId request) ?i (mor_newPrice request)
    (mor_newQuantity request) ?e2"
  have e': "e' = publishTickUpdate ?e3"
    using may ok
    by (auto simp: e'_def handleModifyOrder_def may_touch_def modifiable_def b_def GetRecentTrades_def Let_def)
  have "0 < mor_newQuantity request" using ok by (simp add: modifiable_def word_neq_0_conv)
  then have inv1: "engine_inv ?e1" using modified_book_keeps [OF inv] by (simp add: b_def)
  note rep = report_modify_trades_says [of ?e1 ?i "trades b"]
  note says = says_trans [OF conjunct1 [OF rep] says_trans [OF says_sendModifyAck
      says_publishTickUpdate, of ?e2 sid "mor_clientOrderId request" ?i "mor_newPrice request"
      "mor_newQuantity request"]]
  have same: "same_books ?e1 e'" using says by (simp add: says_def e')
  show "engine_inv e'" using says_engine_inv [OF says inv1] by (simp add: e')
  show "orderbook e' = b" "orderToSession e' = orderToSession e"
    "nextOrderId e' = nextOrderId e" "inboundQueue e' = inboundQueue e"
    using same by (simp_all add: same_books_def)
  have "same_books ?e1 ?e3"
    using says_trans [OF conjunct1 [OF rep] says_sendModifyAck] by (simp add: says_def)
  then have "orderbook ?e3 = b" "symbol ?e3 = symbol e" by (simp_all add: same_books_def)
  with says rep have "emits ?e1 [modify_ack sid (mor_clientOrderId request) ?i
             (mor_newPrice request) (mor_newQuantity request)]
           (modify_updates (symbol e) (nextTradeId e) ?i (trades b) @
            [tick_update (symbol e) (last_price (lastTradePrice e) (trades b))
               (last_qty (lastTradeQty e) (trades b)) b]) e'"
    by (simp add: says_def e' trade_counters_def)
  then show "emits e [modify_ack sid (mor_clientOrderId request) ?i
             (mor_newPrice request) (mor_newQuantity request)]
           (modify_updates (symbol e) (nextTradeId e) ?i (trades b) @
            [tick_update (symbol e) (last_price (lastTradePrice e) (trades b))
               (last_qty (lastTradeQty e) (trades b)) b]) e'"
    by (simp add: emits_def)
  show "trade_counters 0 (trades b) e e'"
    using rep by (simp add: e' trade_counters_def)
qed

definition modify_fault :: "SessionId \<Rightarrow> ModifyOrderRequest \<Rightarrow> Engine \<Rightarrow> RejectReason" where
  "modify_fault sid request e =
     (if \<not> may_touch sid (mor_orderId request) e then ORDER_NOT_FOUND
      else if sint (mor_newPrice request) \<le> 0 then INVALID_PRICE else INVALID_QUANTITY)"

lemma handleModifyOrder_refused:
  "\<not> (may_touch sid (mor_orderId request) e \<and> modifiable request) \<Longrightarrow>
   handleModifyOrder sid request e =
     sendModifyReject sid (mor_clientOrderId request) (mor_orderId request)
       (modify_fault sid request e) e"
  by (auto simp: handleModifyOrder_def may_touch_def modifiable_def modify_fault_def
      split: option.split)

lemma handleModifyOrder_keeps:
  assumes "engine_inv e"
  shows "engine_inv (handleModifyOrder sid request e)"
  using handleModifyOrder_effect(1) [OF assms] handleModifyOrder_refused
    says_engine_inv [OF says_sendModifyReject assms]
  by (cases "may_touch sid (mor_orderId request) e \<and> modifiable request") auto

section \<open>cancelSessionOrders\<close>

lemma cancel_session_orders_fold:
  "fold cancel_session_order ids e =
     e\<lparr>orderbook := fold CancelOrder ids (orderbook e),
       orderToSession := (\<lambda>i. if i \<in> set ids then None else orderToSession e i),
       orderToClientOrderId := (\<lambda>i. if i \<in> set ids then None else orderToClientOrderId e i)\<rparr>"
  by (induction ids arbitrary: e) (auto simp: cancel_session_order_def fun_eq_iff)

lemma cancel_all_book:
  assumes "book_inv {} b"
  shows "book_inv {} (fold CancelOrder ids b)" and "keeps_owners b (fold CancelOrder ids b)"
    and "orders (fold CancelOrder ids b) = (\<lambda>i. if i \<in> set ids then None else orders b i)"
    and "bid_queue (book_abs (fold CancelOrder ids b)) =
      filter (\<lambda>e. e_id e \<notin> set ids) (bid_queue (book_abs b))"
    and "ask_queue (book_abs (fold CancelOrder ids b)) =
      filter (\<lambda>e. e_id e \<notin> set ids) (ask_queue (book_abs b))"
proof -
  have "book_inv {} (fold CancelOrder ids b) \<and> keeps_owners b (fold CancelOrder ids b) \<and>
    orders (fold CancelOrder ids b) = (\<lambda>i. if i \<in> set ids then None else orders b i) \<and>
    bid_queue (book_abs (fold CancelOrder ids b)) =
      filter (\<lambda>e. e_id e \<notin> set ids) (bid_queue (book_abs b)) \<and>
    ask_queue (book_abs (fold CancelOrder ids b)) =
      filter (\<lambda>e. e_id e \<notin> set ids) (ask_queue (book_abs b))"
    using assms
  proof (induction ids arbitrary: b)
    case Nil
    then show ?case by (simp add: keeps_owners_store)
  next
    case (Cons i ids)
    have one: "book_inv {} (CancelOrder i b)" using ob.cancel_inv [OF Cons.prems] .
    have "keeps_owners (CancelOrder i b) (fold CancelOrder ids (CancelOrder i b))"
      using Cons.IH [OF one] by blast
    with CancelOrder_owners [OF Cons.prems, of i] have "keeps_owners b (fold CancelOrder (i # ids) b)"
      by (simp add: keeps_owners_trans)
    with Cons.IH [OF one] show ?case
      by (auto simp: CancelOrder_index(1) [OF Cons.prems] ob.cancel_spec [OF Cons.prems]
          spec_cancel_def fun_eq_iff conj_commute)
  qed
  then show "book_inv {} (fold CancelOrder ids b)" and "keeps_owners b (fold CancelOrder ids b)"
    and "orders (fold CancelOrder ids b) = (\<lambda>i. if i \<in> set ids then None else orders b i)"
    and "bid_queue (book_abs (fold CancelOrder ids b)) =
      filter (\<lambda>e. e_id e \<notin> set ids) (bid_queue (book_abs b))"
    and "ask_queue (book_abs (fold CancelOrder ids b)) =
      filter (\<lambda>e. e_id e \<notin> set ids) (ask_queue (book_abs b))" by blast+
qed

lemma cancelSessionOrders_effect:
  assumes inv: "engine_inv e" and ids: "set ids = orders_of_session sid e"
  defines "e' \<equiv> cancelSessionOrders sid ids e"
  shows "engine_inv e'" and "orderbook e' = fold CancelOrder ids (orderbook e)"
    and "orders_of_session sid e' = {}"
    and "orderToSession e' = (\<lambda>i. if i \<in> set ids then None else orderToSession e i)"
proof -
  let ?e2 = "e\<lparr>orderbook := fold CancelOrder ids (orderbook e),
       orderToSession := (\<lambda>i. if i \<in> set ids then None else orderToSession e i),
       orderToClientOrderId := (\<lambda>i. if i \<in> set ids then None else orderToClientOrderId e i),
       sessionOrders := (sessionOrders e)(sid := None)\<rparr>"
  have e': "e' = (if ids \<noteq> [] then publishTickUpdate ?e2 else ?e2)"
    by (auto simp: e'_def cancelSessionOrders_def cancel_session_orders_fold Let_def)
  note track = engine_invD(2) [OF inv] and binv = engine_invD(1) [OF inv]
  note all = cancel_all_book [OF binv, of ids]
  have owners: "same_owner (obj (orderbook e) y) (obj (fold CancelOrder ids (orderbook e)) y)"
    and dom: "(store (fold CancelOrder ids (orderbook e)) y = None) = (store (orderbook e) y = None)" for y
    using all(2) by (simp_all add: keeps_owners_def)
  have sets: "i \<in> orders_of_session s ?e2 \<longleftrightarrow> orderToSession ?e2 i = Some s" for i s
    using tracking_okD(3) [OF track, of i s] tracking_okD(3) [OF track, of i sid] ids
    by (auto simp: orders_of_session_def)
  have "tracking_ok ?e2"
    using track owners sets
    by (simp add: tracking_ok_def all(3) same_owner_def)
  moreover have "addresses_ok ?e2"
    using engine_invD(3) [OF inv] dom by (simp add: addresses_ok_def)
  ultimately have "engine_inv ?e2"
    using inv all(1) by (simp add: engine_inv_def queues_ok_def)
  then show "engine_inv e'"
    unfolding e' using says_engine_inv [OF says_publishTickUpdate, of ?e2] by (split if_split) blast
  have "same_books ?e2 e'" using says_publishTickUpdate [of ?e2] by (auto simp: e' says_def same_books_def)
  then show "orderbook e' = fold CancelOrder ids (orderbook e)" "orders_of_session sid e' = {}"
    "orderToSession e' = (\<lambda>i. if i \<in> set ids then None else orderToSession e i)"
    by (simp_all add: same_books_def orders_of_session_def)
qed

section \<open>Reachable engines\<close>

lemma processInboundMessage_keeps:
  "engine_inv e \<Longrightarrow> ids_left e \<Longrightarrow> engine_inv (processInboundMessage msg e)"
  by (simp add: processInboundMessage_def handleNewOrder_keeps handleCancelOrder_keeps
      handleModifyOrder_keeps split: InboundBody.split)

lemma queue_fields_irrelevant:
  "engine_inv e \<Longrightarrow> mpsc_inv INBOUND_QUEUE_SIZE q \<Longrightarrow> engine_inv (e\<lparr>inboundQueue := q\<rparr>)"
  "engine_inv e \<Longrightarrow> rb_inv OUTBOUND_QUEUE_SIZE oq \<Longrightarrow> engine_inv (e\<lparr>outboundQueue := oq\<rparr>)"
  "engine_inv e \<Longrightarrow> rb_inv FEED_QUEUE_SIZE fq \<Longrightarrow> engine_inv (e\<lparr>feedQueue := fq\<rparr>)"
  "engine_inv (e\<lparr>running := r\<rparr>) = engine_inv e"
  by (simp_all add: engine_inv_def tracking_ok_def addresses_ok_def queues_ok_def
      orders_of_session_def)

lemma inbound_keeps:
  assumes "engine_inv e"
  shows "engine_inv (push_inbound msg e)" and "engine_inv (snd (pop_inbound e))"
proof -
  have q: "mpsc_inv INBOUND_QUEUE_SIZE (inboundQueue e)"
    using engine_invD(4) [OF assms] by (simp add: queues_ok_def)
  show "engine_inv (push_inbound msg e)"
    using queue_fields_irrelevant(1) [OF assms inbound.push_contents(1) [OF q]]
    by (simp add: push_inbound_def)
  show "engine_inv (snd (pop_inbound e))"
    using queue_fields_irrelevant(1) [OF assms inbound.pop_contents(1) [OF q]]
    by (simp add: pop_inbound_def split_beta)
qed

lemma rb_inv_new: "is_capacity capacity \<Longrightarrow> rb_inv capacity (spsc_new d)"
  using capacity_bounds [of capacity] by (simp add: rb_inv_def spsc_new_def)

lemma new_engine_inv:
  "engine_inv (new_engine (mpsc_new d1) (spsc_new d2) (spsc_new d3) sym_name time)"
proof -
  have "mpsc_inv INBOUND_QUEUE_SIZE (mpsc_new d1)"
    using capacity_bounds [OF queue_sizes_are_capacities(1)] queue_sizes_are_capacities(1)
    by (simp add: mpsc_inv_def rb_inv_def mpsc_new_def)
  then show ?thesis
    using book_inv_empty
    by (simp add: rb_inv_new [OF queue_sizes_are_capacities(2)]
        rb_inv_new [OF queue_sizes_are_capacities(3)] engine_inv_def new_engine_def tracking_ok_def addresses_ok_def queues_ok_def
        orders_of_session_def empty_orderbook_def)
qed

inductive engine_reachable :: "Engine \<Rightarrow> bool" where
  engine_new: "engine_reachable (new_engine (mpsc_new d1) (spsc_new d2) (spsc_new d3) sym_name time)"
| engine_process: "engine_reachable e \<Longrightarrow> ids_left e \<Longrightarrow>
    engine_reachable (processInboundMessage msg e)"
| engine_receive: "engine_reachable e \<Longrightarrow> engine_reachable (push_inbound msg e)"
| engine_take: "engine_reachable e \<Longrightarrow> engine_reachable (snd (pop_inbound e))"
| engine_deliver: "engine_reachable e \<Longrightarrow>
    engine_reachable (e\<lparr>outboundQueue := snd (spsc_pop OUTBOUND_QUEUE_SIZE (outboundQueue e))\<rparr>)"
| engine_publish: "engine_reachable e \<Longrightarrow>
    engine_reachable (e\<lparr>feedQueue := snd (spsc_pop FEED_QUEUE_SIZE (feedQueue e))\<rparr>)"
| engine_disconnect: "engine_reachable e \<Longrightarrow> set ids = orders_of_session sid e \<Longrightarrow>
    engine_reachable (cancelSessionOrders sid ids e)"
| engine_switch: "engine_reachable e \<Longrightarrow> engine_reachable (e\<lparr>running := r\<rparr>)"

lemma reachable_engine_inv: "engine_reachable e \<Longrightarrow> engine_inv e"
proof (induction rule: engine_reachable.induct)
  case (engine_deliver e)
  then have "rb_inv OUTBOUND_QUEUE_SIZE (outboundQueue e)"
    using engine_invD(4) by (simp add: queues_ok_def)
  with engine_deliver.IH show ?case by (intro queue_fields_irrelevant(2) outbound.pop_contents(1))
next
  case (engine_publish e)
  then have "rb_inv FEED_QUEUE_SIZE (feedQueue e)"
    using engine_invD(4) by (simp add: queues_ok_def)
  with engine_publish.IH show ?case by (intro queue_fields_irrelevant(3) feed.pop_contents(1))
qed (simp_all add: new_engine_inv processInboundMessage_keeps inbound_keeps
    cancelSessionOrders_effect(1) queue_fields_irrelevant(4))

section \<open>Facts that the properties share\<close>

text \<open>A refusal sends one message and leaves everything else alone.\<close>

lemma refusal_log:
  assumes inv: "engine_inv e" and says: "says e [m] [] e'"
  shows "outbound_log e' = take outbound_room (outbound_log e @ [m]) \<and> feed_log e' = feed_log e \<and>
    same_books e e'"
proof -
  have em: "emits e [m] [] e'" and same: "same_books e e'" using says by (simp_all add: says_def)
  then have "inboundQueue e' = inboundQueue e" by (simp add: same_books_def)
  note log = says_log [OF engine_invD(4) [OF inv] em this]
  have "length (feed_log e) \<le> feed_room"
    using feed.length_bound [of "feedQueue e"] engine_invD(4) [OF inv]
    by (simp add: feed_log_def queues_ok_def FEED_QUEUE_SIZE_def feed_room_def)
  with log same show ?thesis by simp
qed

lemma own_queue_indexed:
  assumes "book_inv E b" and "en \<in> set (own_queue side (book_abs b))"
  shows "orders b (e_id en) \<noteq> None"
  using abs_indexed [OF assms(1), of "e_id en" "if side = BUY then SELL else BUY"] assms(2)
  by (auto simp: own_queue_def contra_queue_def split: if_splits)

lemma engine_tracks_entry:
  assumes inv: "engine_inv e" and en: "en \<in> set (own_queue side (book_abs (orderbook e)))"
  shows "\<exists>x. orders (orderbook e) (e_id en) = Some x \<and> e_id en < nextOrderId e \<and>
    orderToSession e (e_id en) = Some (getSessionId (obj (orderbook e) x)) \<and>
    e_id en \<in> orders_of_session (getSessionId (obj (orderbook e) x)) e"
proof -
  obtain x where x: "orders (orderbook e) (e_id en) = Some x"
    using own_queue_indexed [OF engine_invD(1) [OF inv] en] by blast
  note track = tracking_okD [OF engine_invD(2) [OF inv]]
  from track(1) [OF x] track(2) [OF track(1) [OF x]] track(3) x show ?thesis by blast
qed

end
