(* ===== verification/Engine_Loop.thy ===== *)
theory Engine_Loop
  imports Engine_Effects
begin

text \<open>
  The matching loop: draining the inbound queue ends and processes the queued messages once
  each, in queue order; \<open>matchingLoop\<close> returns and leaves the queue empty.
\<close>

section \<open>Order ids do not run out\<close>

definition id_budget :: "nat \<Rightarrow> Engine \<Rightarrow> bool" where
  "id_budget n e \<longleftrightarrow> unat (nextOrderId e) + n < 2 ^ 64"

lemma id_budget_ids_left: "id_budget (Suc n) e \<Longrightarrow> ids_left e"
proof -
  assume "id_budget (Suc n) e"
  then have "unat (nextOrderId e) + unat (1 :: OrderId) < 2 ^ LENGTH(64)" by (simp add: id_budget_def)
  then have "unat (nextOrderId e + 1) = unat (nextOrderId e) + unat (1 :: OrderId)"
    by (rule unat_add_lem [THEN iffD1])
  then show ?thesis by (auto simp: ids_left_def)
qed

lemma unat_next_id: "ids_left e \<Longrightarrow> unat (nextOrderId e + 1) = Suc (unat (nextOrderId e))"
  unfolding ids_left_def by (metis add.commute unatSuc)

lemma processInboundMessage_frame:
  assumes inv: "engine_inv e" and ids: "ids_left e"
  shows "inboundQueue (processInboundMessage msg e) = inboundQueue e"
    and "nextOrderId (processInboundMessage msg e) = nextOrderId e \<or>
         nextOrderId (processInboundMessage msg e) = nextOrderId e + 1"
proof -
  let ?sid = "im_sessionId msg"
  have "inboundQueue (processInboundMessage msg e) = inboundQueue e \<and>
    (nextOrderId (processInboundMessage msg e) = nextOrderId e \<or>
     nextOrderId (processInboundMessage msg e) = nextOrderId e + 1)"
  proof (cases "im_body msg")
    case (NewOrderBody request)
    show ?thesis
    proof (cases rule: handleNewOrder_cases [of request ?sid e])
      case (accepted side orderType)
      with accept_order_effect(4,5) [OF _ acceptable_valid, of "e\<lparr>ordersProcessed := ordersProcessed e + 1\<rparr>"]
        inv ids NewOrderBody show ?thesis
        by (simp add: processInboundMessage_def)
    next
      case (rejected reason)
      have "same_books (e\<lparr>ordersProcessed := ordersProcessed e + 1\<rparr>)
          (sendOrderReject ?sid (nor_clientOrderId request) reason
            (e\<lparr>ordersProcessed := ordersProcessed e + 1\<rparr>))"
        using says_sendOrderReject by (simp add: says_def)
      with rejected NewOrderBody show ?thesis
        by (simp add: processInboundMessage_def same_books_def)
    qed
  next
    case (CancelOrderBody request)
    have "same_books e (sendCancelReject ?sid (cor_clientOrderId request) (cor_orderId request) ORDER_NOT_FOUND e)"
      using says_sendCancelReject by (simp add: says_def)
    with CancelOrderBody handleCancelOrder_effect(4,5) [OF inv] handleCancelOrder_refused
    show ?thesis
      by (cases "may_touch ?sid (cor_orderId request) e")
        (simp_all add: processInboundMessage_def same_books_def)
  next
    case (ModifyOrderBody request)
    have "same_books e (sendModifyReject ?sid (mor_clientOrderId request) (mor_orderId request)
        (modify_fault ?sid request e) e)"
      using says_sendModifyReject by (simp add: says_def)
    with ModifyOrderBody handleModifyOrder_effect(4,5) [OF inv] handleModifyOrder_refused
    show ?thesis
      by (cases "may_touch ?sid (mor_orderId request) e \<and> modifiable request")
        (simp_all add: processInboundMessage_def same_books_def)
  qed
  then show "inboundQueue (processInboundMessage msg e) = inboundQueue e"
    and "nextOrderId (processInboundMessage msg e) = nextOrderId e \<or>
         nextOrderId (processInboundMessage msg e) = nextOrderId e + 1" by blast+
qed

lemma process_budget:
  assumes inv: "engine_inv e" and ids: "id_budget (Suc n) e"
  shows "id_budget n (processInboundMessage msg e)"
  using processInboundMessage_frame(2) [OF inv id_budget_ids_left [OF ids], of msg] ids
    unat_next_id [OF id_budget_ids_left [OF ids]]
  by (auto simp: id_budget_def)

section \<open>Draining\<close>

definition pending :: "Engine \<Rightarrow> InboundMessage list" where
  "pending e = rb_list INBOUND_QUEUE_SIZE (inboundQueue e)"

text \<open>One round: take the oldest message and process it.\<close>

definition process_next :: "InboundMessage \<Rightarrow> Engine \<Rightarrow> Engine" where
  "process_next msg e = processInboundMessage msg (snd (pop_inbound e))"

lemma pop_inbound_pending:
  assumes "engine_inv e"
  shows "fst (pop_inbound e) = (case pending e of [] \<Rightarrow> None | m # ms \<Rightarrow> Some m)"
    and "pending (snd (pop_inbound e)) = tl (pending e)"
    and "nextOrderId (snd (pop_inbound e)) = nextOrderId e"
proof -
  have q: "mpsc_inv INBOUND_QUEUE_SIZE (inboundQueue e)"
    using engine_invD(4) [OF assms] by (simp add: queues_ok_def)
  show "fst (pop_inbound e) = (case pending e of [] \<Rightarrow> None | m # ms \<Rightarrow> Some m)"
    "pending (snd (pop_inbound e)) = tl (pending e)"
    using inbound.pop_contents [OF q] by (simp_all add: pending_def pop_inbound_def split_beta)
  show "nextOrderId (snd (pop_inbound e)) = nextOrderId e"
    by (simp add: pop_inbound_def split_beta)
qed

lemma drain_inbound_processes:
  "engine_inv e \<Longrightarrow> id_budget (length (pending e) + k) e \<Longrightarrow>
   drain_inbound processed e =
     Some (processed \<or> pending e \<noteq> [], snd (pop_inbound (fold process_next (pending e) e))) \<and>
   engine_inv (snd (pop_inbound (fold process_next (pending e) e))) \<and>
   pending (snd (pop_inbound (fold process_next (pending e) e))) = [] \<and>
   id_budget k (snd (pop_inbound (fold process_next (pending e) e)))"
proof (induction "pending e" arbitrary: e processed)
  case Nil
  note pop = pop_inbound_pending [OF Nil.prems(1)]
  obtain e1 where "pop_inbound e = (None, e1)"
    using pop(1) Nil.hyps [symmetric] by (cases "pop_inbound e") simp
  then have "drain_inbound processed e = Some (processed, snd (pop_inbound e))"
    by (subst drain_inbound.simps) simp
  with pop Nil.hyps [symmetric] inbound_keeps(2) [OF Nil.prems(1)] Nil.prems(2) show ?case
    by (simp add: id_budget_def)
next
  case (Cons m ms)
  note pop = pop_inbound_pending [OF Cons.prems(1)]
  let ?e1 = "snd (pop_inbound e)" and ?e2 = "process_next m e"
  obtain e1 where m: "pop_inbound e = (Some m, e1)"
    using pop(1) Cons.hyps(2) [symmetric] by (cases "pop_inbound e") simp
  have inv1: "engine_inv ?e1" by (rule inbound_keeps(2) [OF Cons.prems(1)])
  have bud1: "id_budget (Suc (length ms + k)) ?e1"
    using Cons.prems(2) Cons.hyps(2) [symmetric] pop(3) by (simp add: id_budget_def)
  have inv2: "engine_inv ?e2"
    unfolding process_next_def by (rule processInboundMessage_keeps [OF inv1 id_budget_ids_left [OF bud1]])
  have bud2: "id_budget (length ms + k) ?e2"
    unfolding process_next_def by (rule process_budget [OF inv1 bud1])
  have ms: "ms = pending ?e2"
    using processInboundMessage_frame(1) [OF inv1 id_budget_ids_left [OF bud1], of m] pop(2)
      Cons.hyps(2) [symmetric] by (simp add: pending_def process_next_def)
  have step: "drain_inbound processed e = drain_inbound True ?e2"
    by (subst drain_inbound.simps) (simp add: m process_next_def)
  have "drain_inbound True ?e2 =
      Some (True, snd (pop_inbound (fold process_next ms ?e2))) \<and>
      engine_inv (snd (pop_inbound (fold process_next ms ?e2))) \<and>
      pending (snd (pop_inbound (fold process_next ms ?e2))) = [] \<and>
      id_budget k (snd (pop_inbound (fold process_next ms ?e2)))"
    using Cons.hyps(1) [OF ms inv2, of True] bud2 ms by simp
  then show ?case using step Cons.hyps(2) [symmetric] by simp
qed

section \<open>The loop\<close>

lemma pending_bound:
  assumes "engine_inv e"
  shows "length (pending e) \<le> 65535"
  using inbound.length_bound [of "inboundQueue e"] engine_invD(4) [OF assms]
  by (simp add: pending_def queues_ok_def INBOUND_QUEUE_SIZE_def)

lemma push_inbound_pending:
  "engine_inv e \<Longrightarrow> engine_inv (fold push_inbound msgs e) \<and>
   pending (fold push_inbound msgs e) = take 65535 (pending e @ msgs) \<and>
   nextOrderId (fold push_inbound msgs e) = nextOrderId e"
proof (induction msgs arbitrary: e)
  case Nil
  with pending_bound show ?case by simp
next
  case (Cons m ms)
  have q: "mpsc_inv INBOUND_QUEUE_SIZE (inboundQueue e)"
    using engine_invD(4) [OF Cons.prems] by (simp add: queues_ok_def)
  have one: "pending (push_inbound m e) = take 65535 (pending e @ [m])"
    "length (pending e) \<le> 65535"
    using inbound.push_contents(2) [OF q, of m] inbound.length_bound [OF q]
    by (simp_all add: pending_def push_inbound_def INBOUND_QUEUE_SIZE_def)
  then have "take 65535 (pending (push_inbound m e) @ ms) = take 65535 (pending e @ m # ms)"
    by (cases "length (pending e) < 65535") auto
  with Cons.IH [OF inbound_keeps(1) [OF Cons.prems, of m]] show ?case
    by (simp add: push_inbound_def)
qed

lemma matchingLoop_returns:
  "engine_inv e \<Longrightarrow> id_budget (length (pending e) + length (concat rounds) + length late) e \<Longrightarrow>
   \<exists>e'. matchingLoop rounds late e = Some e' \<and> engine_inv e' \<and> pending e' = []"
proof (induction rounds late e rule: matchingLoop.induct)
  case (1 late e)
  let ?e = "fold push_inbound late e"
  note push = push_inbound_pending [OF "1.prems"(1), of late]
  have "id_budget (length (pending ?e) + 0) ?e"
    using "1.prems"(2) push by (auto simp: id_budget_def)
  from drain_inbound_processes [OF conjunct1 [OF push] this, of False] show ?case by simp
next
  case (2 arrivals rounds late e)
  let ?e = "fold push_inbound arrivals e"
  let ?k = "length (concat rounds) + length late"
  note push = push_inbound_pending [OF "2.prems"(1), of arrivals]
  have "id_budget (length (pending ?e) + ?k) ?e"
    using "2.prems"(2) push by (auto simp: id_budget_def)
  note drain = drain_inbound_processes [OF conjunct1 [OF push] this, of False]
  from "2.IH" drain show ?case by simp
qed

end
