(* ===== verification/Engine_Properties.thy ===== *)
theory Engine_Properties
  imports Engine_Loop Book_Properties
begin

text \<open>
  The properties of the matching engine: what each request makes it do to the book, to the
  tracking tables and to the two outgoing message streams. \<open>outbound_log\<close> and \<open>feed_log\<close> are
  the contents of the queues without timestamps; a full queue loses what does not fit, which is
  the \<open>take\<close> in the statements.
\<close>

section \<open>A concrete engine\<close>

definition example_engine :: Engine where
  "example_engine = new_engine (mpsc_new default_InboundMessage) (spsc_new default_OutboundMessage)
     (spsc_new default_MarketDataMessage) [83, 89, 77, 49] (\<lambda>n. 1000 + word_of_nat n)"

definition example_request :: "BuySell \<Rightarrow> OrderType \<Rightarrow> Price \<Rightarrow> Quantity \<Rightarrow> ClientOrderId \<Rightarrow> NewOrderRequest" where
  "example_request side type price qty cid =
     \<lparr>nor_header = zero_header, nor_clientOrderId = cid, nor_side = BuySell_code side,
      nor_orderType = OrderType_code type, nor_price = price, nor_quantity = qty\<rparr>"

definition example_cancel :: "ClientOrderId \<Rightarrow> OrderId \<Rightarrow> CancelOrderRequest" where
  "example_cancel cid i = \<lparr>cor_header = zero_header, cor_clientOrderId = cid, cor_orderId = i\<rparr>"

definition example_modify :: "ClientOrderId \<Rightarrow> OrderId \<Rightarrow> Price \<Rightarrow> Quantity \<Rightarrow> ModifyOrderRequest" where
  "example_modify cid i price qty =
     \<lparr>mor_header = zero_header, mor_clientOrderId = cid, mor_orderId = i, mor_newPrice = price,
      mor_newQuantity = qty\<rparr>"

lemma example_engine_reachable: "engine_reachable example_engine"
  unfolding example_engine_def by (rule engine_new)

lemmas example_engine_inv = reachable_engine_inv [OF example_engine_reachable]

lemma example_engine_fields:
  "nextOrderId example_engine = 1" "orderbook example_engine = empty_orderbook"
  "orderToSession example_engine = Map.empty" "next_address example_engine = 0"
  "ids_left example_engine"
  by (simp_all add: example_engine_def new_engine_def ids_left_def)

lemma example_acceptable:
  "side \<in> {BUY, SELL} \<Longrightarrow> type \<in> {LIMIT, MARKET, IOC} \<Longrightarrow> 0 < qty \<Longrightarrow> 0 < sint price \<Longrightarrow>
   acceptable (example_request side type price qty cid) side type"
  by (auto simp: acceptable_def example_request_def)

text \<open>Session 7 sells 5 at 100: the order has id 1 and rests.\<close>

definition example_sold :: Engine where
  "example_sold = handleNewOrder 7 (example_request SELL LIMIT 100 5 70) example_engine"

lemma example_sold_inv: "engine_inv example_sold"
  unfolding example_sold_def
  by (rule handleNewOrder_keeps [OF example_engine_inv example_engine_fields(5)])

lemma example_sold_effect:
  "orderToSession example_sold = [1 \<mapsto> 7]" "nextOrderId example_sold = 2"
  "asks (orderbook example_sold) = [(100, [0])]" "bids (orderbook example_sold) = []"
  "orders (orderbook example_sold) = [1 \<mapsto> 0]"
  "getQuantity (obj (orderbook example_sold) 0) = 5" "getPrice (obj (orderbook example_sold) 0) = 100"
  "getOrderId (obj (orderbook example_sold) 0) = 1" "trades (orderbook example_sold) = []"
  "getBuySell (obj (orderbook example_sold) 0) = SELL"
proof -
  let ?e = "example_engine\<lparr>ordersProcessed := ordersProcessed example_engine + 1\<rparr>"
  let ?r = "example_request SELL LIMIT 100 5 70"
  have acc: "acceptable ?r SELL LIMIT" by (rule example_acceptable) simp_all
  have eq: "example_sold = accept_order 7 ?r SELL LIMIT ?e"
    unfolding example_sold_def by (rule handleNewOrder_accepts [OF acc])
  note eff = accept_order_effect [of ?e ?r SELL LIMIT 7, simplified, OF example_engine_inv
      acceptable_valid [OF acc] example_engine_fields(5), folded eq]
  note book = eff(2)[unfolded admitted_orderbook, simplified example_engine_fields]
  show "asks (orderbook example_sold) = [(100, [0])]" "bids (orderbook example_sold) = []"
    "orders (orderbook example_sold) = [1 \<mapsto> 0]"
    "getQuantity (obj (orderbook example_sold) 0) = 5" "getPrice (obj (orderbook example_sold) 0) = 100"
    "getOrderId (obj (orderbook example_sold) 0) = 1" "trades (orderbook example_sold) = []"
    "getBuySell (obj (orderbook example_sold) 0) = SELL"
    by (simp_all add: book example_simps incoming_order_def example_request_def
        example_engine_fields fun_eq_iff)
  then show "orderToSession example_sold = [1 \<mapsto> 7]" "nextOrderId example_sold = 2"
    using eff by (simp_all add: example_engine_fields)
qed

lemma example_sold_reachable: "engine_reachable example_sold"
  using engine_process [OF example_engine_reachable example_engine_fields(5),
      of "\<lparr>im_sessionId = 7, im_body = NewOrderBody (example_request SELL LIMIT 100 5 70)\<rparr>"]
  by (simp add: processInboundMessage_def example_sold_def)

lemma example_sold_ids: "ids_left example_sold"
  by (simp add: ids_left_def example_sold_effect)

text \<open>Session 8 then buys 5 at 100: the trade fills both orders and empties the book.\<close>

definition example_bought :: Engine where
  "example_bought = handleNewOrder 8 (example_request BUY LIMIT 100 5 80) example_sold"

lemma example_bought_reachable: "engine_reachable example_bought"
  using engine_process [OF example_sold_reachable example_sold_ids,
      of "\<lparr>im_sessionId = 8, im_body = NewOrderBody (example_request BUY LIMIT 100 5 80)\<rparr>"]
  by (simp add: processInboundMessage_def example_bought_def)

lemma example_bought_effect:
  "asks (orderbook example_bought) = []" "bids (orderbook example_bought) = []"
  "orders (orderbook example_bought) 1 = None" "length (trades (orderbook example_bought)) = 1"
  "orderToSession example_bought 1 = Some 7"
  "map (resting_side_id BUY) (trades (orderbook example_bought)) = [1]"
  "map tr_quantity (trades (orderbook example_bought)) = [5]"
proof -
  let ?e = "example_sold\<lparr>ordersProcessed := ordersProcessed example_sold + 1\<rparr>"
  let ?r = "example_request BUY LIMIT 100 5 80"
  have acc: "acceptable ?r BUY LIMIT" by (rule example_acceptable) simp_all
  have eq: "example_bought = accept_order 8 ?r BUY LIMIT ?e"
    unfolding example_bought_def by (rule handleNewOrder_accepts [OF acc])
  note eff = accept_order_effect [of ?e ?r BUY LIMIT 8, simplified, OF example_sold_inv
      acceptable_valid [OF acc] example_sold_ids, folded eq]
  have old: "next_address example_sold \<noteq> 0"
    using engine_invD(3) [OF example_sold_inv] book_inv_obj_indexed(1)
      [OF engine_invD(1) [OF example_sold_inv], of 1 0]
    by (auto simp: addresses_ok_def example_sold_effect)
  note book = eff(2) [unfolded admitted_orderbook, simplified]
  show "asks (orderbook example_bought) = []" "bids (orderbook example_bought) = []"
    "orders (orderbook example_bought) 1 = None" "length (trades (orderbook example_bought)) = 1"
    "map (resting_side_id BUY) (trades (orderbook example_bought)) = [1]"
    "map tr_quantity (trades (orderbook example_bought)) = [5]"
    using old
    by (simp_all add: resting_side_id_def book AddOrder_def addToBook_def match_order_def frame_simps order_defs Let_def
        incoming_order_def example_request_def priceCrossed_def execute_against_def
        example_sold_effect)
  show "orderToSession example_bought 1 = Some 7"
    using eff(7) by (simp add: example_sold_effect)
qed

section \<open>The invariant of every reachable engine\<close>

text \<open>
  Property C10. In every reachable engine the book is well formed, and every order in it has an
  id that was handed out and is tracked under exactly one session, the one that its order object
  carries; the per-session sets and the owner table name the same orders.
\<close>

theorem reachable_engine_tracks_book:
  assumes "engine_reachable e"
  shows "book_inv {} (orderbook e) \<and>
    (\<forall>side. \<forall>en\<in>set (own_queue side (book_abs (orderbook e))).
       \<exists>x. orders (orderbook e) (e_id en) = Some x \<and> e_id en < nextOrderId e \<and>
           orderToSession e (e_id en) = Some (getSessionId (obj (orderbook e) x)) \<and>
           e_id en \<in> orders_of_session (getSessionId (obj (orderbook e) x)) e) \<and>
    (\<forall>i s. i \<in> orders_of_session s e \<longleftrightarrow> orderToSession e i = Some s)"
  using reachable_engine_inv [OF assms] engine_tracks_entry
  by (auto simp: engine_inv_def tracking_okD(3))

theorem reachable_engine_tracks_book_witness:
  "orderToSession example_sold 1 = Some (getSessionId (obj (orderbook example_sold) 0)) \<and>
   1 \<in> orders_of_session (getSessionId (obj (orderbook example_sold) 0)) example_sold"
proof -
  let ?b = "orderbook example_sold"
  have "entry ?b 0 \<in> set (own_queue SELL (book_abs ?b))" "e_id (entry ?b 0) = 1"
    by (simp_all add: example_sold_effect book_abs_def own_queue_def entry_def)
  with reachable_engine_tracks_book [OF example_sold_reachable] show ?thesis
    by (fastforce simp: example_sold_effect)
qed

section \<open>New orders\<close>

text \<open>
  Property C4. An acceptable request is handled completely: the book is the one \<open>AddOrder\<close>
  yields for an order with a fresh id and the request's terms; the client gets, for each trade in
  order, its own execution report followed by the resting owner's, and then one acknowledgement
  with the order's final status; the feed gets one update per trade and then the new best prices.
  Trade ids are consecutive, two per trade.
\<close>

theorem handleNewOrder_accepted:
  fixes sid :: SessionId
  assumes "engine_reachable e" and "ids_left e" and "acceptable request side orderType"
  defines "e' \<equiv> handleNewOrder sid request e"
  shows "orders (orderbook e) (nextOrderId e) = None \<and> orderToSession e (nextOrderId e) = None \<and>
    orderbook e' = AddOrder (next_address e)
      (new_order (next_address e) (incoming_order sid request side orderType e) (orderbook e)) \<and>
    nextOrderId e' = nextOrderId e + 1 \<and>
    nextTradeId e' = nextTradeId e + word_of_nat (2 * length (trades (orderbook e'))) \<and>
    outbound_log e' = take outbound_room (outbound_log e @
      trade_reports (orderToSession e) sid (nextOrderId e) side
        (getQuantity (obj (orderbook e') (next_address e))) (nextTradeId e) (trades (orderbook e')) @
      [order_ack sid (nor_clientOrderId request) (nextOrderId e)
        (getOrderStatus (obj (orderbook e') (next_address e)))]) \<and>
    feed_log e' = take feed_room (feed_log e @
      trade_updates (symbol e) side (nextTradeId e) (trades (orderbook e')) @
      [tick_update (symbol e) (last_price (lastTradePrice e) (trades (orderbook e')))
        (last_qty (lastTradeQty e) (trades (orderbook e'))) (orderbook e')])"
proof -
  note inv = reachable_engine_inv [OF assms(1)] and valid = acceptable_valid [OF assms(3)]
  let ?e = "e\<lparr>ordersProcessed := ordersProcessed e + 1\<rparr>"
  have e': "e' = accept_order sid request side orderType ?e"
    unfolding e'_def by (rule handleNewOrder_accepts [OF assms(3)])
  note eff = accept_order_effect [of ?e request side orderType sid, simplified, OF inv valid assms(2), folded e']
  note log = says_log [OF engine_invD(4) [OF inv] eff(3,4)]
  show ?thesis
    using fresh_id [OF inv] eff log
    by (simp add: new_order_messages_def new_order_feed_def Let_def trade_counters_def
        admitted_orderbook)
qed

text \<open>Session 8 buys 5 at 100 and gets the whole resting order of session 7.\<close>

theorem handleNewOrder_accepted_witness:
  "let request = example_request BUY LIMIT 100 5 80; e' = handleNewOrder 8 request example_sold in
   nextOrderId e' = 3 \<and>
   outbound_log e' = take outbound_room (outbound_log example_sold @
     trade_reports [1 \<mapsto> 7] 8 2 BUY (getQuantity (obj (orderbook e') (next_address example_sold)))
       (nextTradeId example_sold) (trades (orderbook e')) @
     [order_ack 8 80 2 (getOrderStatus (obj (orderbook e') (next_address example_sold)))])"
  using handleNewOrder_accepted [OF example_sold_reachable example_sold_ids
      example_acceptable [of BUY LIMIT 5 100 80], of 8]
  by (simp add: Let_def example_sold_effect) (simp add: example_request_def)

text \<open>
  Property C17. Any other request is refused with exactly one reject message to its sender, whose
  reason is true of the request; the book, the tracking tables, the feed and the ids stay as they
  are.
\<close>

theorem handleNewOrder_refused:
  fixes sid :: SessionId
  assumes "engine_reachable e" and "\<nexists>side orderType. acceptable request side orderType"
  defines "e' \<equiv> handleNewOrder sid request e"
  shows "\<exists>reason. justifies request reason \<and>
    outbound_log e' =
      take outbound_room (outbound_log e @ [order_reject sid (nor_clientOrderId request) reason]) \<and>
    feed_log e' = feed_log e \<and> orderbook e' = orderbook e \<and> nextOrderId e' = nextOrderId e \<and>
    orderToSession e' = orderToSession e \<and> sessionOrders e' = sessionOrders e"
proof (cases rule: handleNewOrder_cases [of request sid e])
  case (accepted side orderType)
  with assms(2) show ?thesis by blast
next
  case (rejected reason)
  have "engine_inv (e\<lparr>ordersProcessed := ordersProcessed e + 1\<rparr>)"
    using reachable_engine_inv [OF assms(1)] by simp
  from refusal_log [OF this says_sendOrderReject] rejected(1,3) show ?thesis
    by (auto simp: e'_def same_books_def outbound_log_def feed_log_def)
qed

theorem handleNewOrder_refused_witness:
  "\<exists>reason. justifies (example_request BUY LIMIT 0 5 80) reason \<and>
     outbound_log (handleNewOrder 8 (example_request BUY LIMIT 0 5 80) example_engine) =
       take outbound_room (outbound_log example_engine @ [order_reject 8 80 reason])"
proof -
  have "\<nexists>side orderType. acceptable (example_request BUY LIMIT 0 5 80) side orderType"
    by (auto simp: acceptable_def example_request_def)
  from handleNewOrder_refused [OF example_engine_reachable this, of 8] show ?thesis
    by (auto simp: example_request_def)
qed

section \<open>Cancelling\<close>

text \<open>
  A cancel request by the owner of a tracked order, or by the dummy session, takes
  the order out of the book and out of tracking and is answered by one acknowledgement; the feed
  gets the new best prices.
\<close>

theorem handleCancelOrder_accepted:
  fixes sid :: SessionId
  assumes "engine_reachable e" and "may_touch sid (cor_orderId request) e"
  defines "e' \<equiv> handleCancelOrder sid request e"
  shows "book_abs (orderbook e') = spec_cancel (cor_orderId request) (book_abs (orderbook e)) \<and>
    orders (orderbook e') = (orders (orderbook e))(cor_orderId request := None) \<and>
    orderToSession e' = (orderToSession e)(cor_orderId request := None) \<and>
    outbound_log e' = take outbound_room (outbound_log e @
      [cancel_ack sid (cor_clientOrderId request) (cor_orderId request)]) \<and>
    feed_log e' = take feed_room (feed_log e @
      [tick_update (symbol e) (lastTradePrice e) (lastTradeQty e) (orderbook e')])"
proof -
  note inv = reachable_engine_inv [OF assms(1)]
  note eff = handleCancelOrder_effect [OF inv assms(2), folded e'_def]
  note log = says_log [OF engine_invD(4) [OF inv] eff(6,5)]
  show ?thesis
    using eff log CancelOrder_keeps(2) [OF engine_invD(1) [OF inv]]
      CancelOrder_index(1) [OF engine_invD(1) [OF inv]] by simp
qed

theorem handleCancelOrder_accepted_witness:
  "orders (orderbook (handleCancelOrder 7 (example_cancel 71 1) example_sold)) 1 = None \<and>
   outbound_log (handleCancelOrder 7 (example_cancel 71 1) example_sold) =
     take outbound_room (outbound_log example_sold @ [cancel_ack 7 71 1])"
  using handleCancelOrder_accepted [OF example_sold_reachable, of 7 "example_cancel 71 1"]
  by (simp add: may_touch_def example_cancel_def example_sold_effect)

text \<open>
  Property C18. Nobody else can cancel an order: the request is answered by one reject with
  \<open>ORDER_NOT_FOUND\<close>, whether the order is unknown or another session's, and nothing else changes.
\<close>

theorem handleCancelOrder_unauthorised:
  fixes sid :: SessionId
  assumes "engine_reachable e" and "\<not> may_touch sid (cor_orderId request) e"
  defines "e' \<equiv> handleCancelOrder sid request e"
  shows "orderbook e' = orderbook e \<and> orderToSession e' = orderToSession e \<and>
    sessionOrders e' = sessionOrders e \<and> feed_log e' = feed_log e \<and>
    outbound_log e' = take outbound_room (outbound_log e @
      [cancel_reject sid (cor_clientOrderId request) (cor_orderId request) ORDER_NOT_FOUND])"
  using refusal_log [OF reachable_engine_inv [OF assms(1)] says_sendCancelReject]
  by (simp add: e'_def handleCancelOrder_refused [OF assms(2)] same_books_def)

theorem handleCancelOrder_unauthorised_witness:
  "orderbook (handleCancelOrder 8 (example_cancel 81 1) example_sold) = orderbook example_sold"
  using handleCancelOrder_unauthorised [OF example_sold_reachable, of 8 "example_cancel 81 1"]
  by (simp add: may_touch_def example_cancel_def example_sold_effect DUMMY_SESSION_ID_def)

section \<open>Modifying\<close>

text \<open>
  Property C19. A modify request by an authorised session with a positive price and quantity
  applies \<open>ModifyOrder\<close> to the book and is answered by one acknowledgement with the new terms;
  the feed gets an update per trade listed by the book and then the new best prices. The owner
  table does not change, and no execution report is sent, neither for the modified order nor for
  those it trades with.
\<close>

theorem handleModifyOrder_accepted:
  fixes sid :: SessionId
  assumes "engine_reachable e" and "may_touch sid (mor_orderId request) e" and "modifiable request"
  defines "e' \<equiv> handleModifyOrder sid request e"
  shows "orderbook e' = ModifyOrder (mor_orderId request) (mor_newPrice request)
      (mor_newQuantity request) (orderbook e) \<and>
    book_inv {} (orderbook e') \<and> orderToSession e' = orderToSession e \<and>
    outbound_log e' = take outbound_room (outbound_log e @
      [modify_ack sid (mor_clientOrderId request) (mor_orderId request) (mor_newPrice request)
        (mor_newQuantity request)]) \<and>
    feed_log e' = take feed_room (feed_log e @
      modify_updates (symbol e) (nextTradeId e) (mor_orderId request) (trades (orderbook e')) @
      [tick_update (symbol e) (last_price (lastTradePrice e) (trades (orderbook e')))
        (last_qty (lastTradeQty e) (trades (orderbook e'))) (orderbook e')])"
proof -
  note inv = reachable_engine_inv [OF assms(1)]
  note eff = handleModifyOrder_effect [OF inv assms(2,3), folded e'_def]
  note log = says_log [OF engine_invD(4) [OF inv] eff(6,5)]
  show ?thesis
    using eff(2,3) log engine_invD(1) [OF eff(1)] by simp
qed

theorem handleModifyOrder_accepted_witness:
  "let e' = handleModifyOrder 7 (example_modify 71 1 99 4) example_sold in
   orderbook e' = ModifyOrder 1 99 4 (orderbook example_sold) \<and>
   outbound_log e' = take outbound_room (outbound_log example_sold @ [modify_ack 7 71 1 99 4])"
  using handleModifyOrder_accepted [OF example_sold_reachable, of 7 "example_modify 71 1 99 4"]
  by (simp add: may_touch_def modifiable_def example_modify_def example_sold_effect Let_def)

text \<open>
  Property C20. Every other modify request is answered by one reject and changes nothing: an
  order that is unknown or another session's is not found, and then the price and the quantity
  are checked, in this order.
\<close>

theorem handleModifyOrder_refused_unchanged:
  fixes sid :: SessionId
  assumes "engine_reachable e" and "\<not> (may_touch sid (mor_orderId request) e \<and> modifiable request)"
  defines "e' \<equiv> handleModifyOrder sid request e"
  shows "orderbook e' = orderbook e \<and> orderToSession e' = orderToSession e \<and>
    sessionOrders e' = sessionOrders e \<and> feed_log e' = feed_log e \<and>
    outbound_log e' = take outbound_room (outbound_log e @
      [modify_reject sid (mor_clientOrderId request) (mor_orderId request)
        (if \<not> may_touch sid (mor_orderId request) e then ORDER_NOT_FOUND
         else if sint (mor_newPrice request) \<le> 0 then INVALID_PRICE else INVALID_QUANTITY)])"
  using refusal_log [OF reachable_engine_inv [OF assms(1)] says_sendModifyReject]
  by (simp add: e'_def handleModifyOrder_refused [OF assms(2)] same_books_def modify_fault_def)

theorem handleModifyOrder_refused_unchanged_witness:
  "outbound_log (handleModifyOrder 7 (example_modify 71 1 0 4) example_sold) =
     take outbound_room (outbound_log example_sold @ [modify_reject 7 71 1 INVALID_PRICE])"
  using handleModifyOrder_refused_unchanged [OF example_sold_reachable, of 7 "example_modify 71 1 0 4"]
  by (simp add: may_touch_def modifiable_def example_modify_def example_sold_effect)

section \<open>Disconnects\<close>

text \<open>
  Cancelling the orders of a session, in whatever order its id set is walked, takes
  exactly these orders out of the book and of the owner table; the session then owns nothing, and
  the invariant is kept.
\<close>

theorem cancelSessionOrders_removes_session:
  fixes sid :: SessionId
  assumes "engine_reachable e" and "set ids = orders_of_session sid e"
  defines "e' \<equiv> cancelSessionOrders sid ids e"
  shows "bid_queue (book_abs (orderbook e')) =
      filter (\<lambda>en. orderToSession e (e_id en) \<noteq> Some sid) (bid_queue (book_abs (orderbook e))) \<and>
    ask_queue (book_abs (orderbook e')) =
      filter (\<lambda>en. orderToSession e (e_id en) \<noteq> Some sid) (ask_queue (book_abs (orderbook e))) \<and>
    orders_of_session sid e' = {} \<and> engine_inv e'"
proof -
  note inv = reachable_engine_inv [OF assms(1)]
  note eff = cancelSessionOrders_effect [OF inv assms(2), folded e'_def]
  have mem: "i \<in> set ids \<longleftrightarrow> orderToSession e i = Some sid" for i
    using tracking_okD(3) [OF engine_invD(2) [OF inv]] by (simp add: assms(2))
  show ?thesis
    using eff cancel_all_book(4,5) [OF engine_invD(1) [OF inv], of ids] by (simp add: mem)
qed

theorem cancelSessionOrders_removes_session_witness:
  "ask_queue (book_abs (orderbook (cancelSessionOrders 7 [1] example_sold))) = []"
proof -
  have "i \<in> orders_of_session 7 example_sold \<longleftrightarrow> i = 1" for i
    unfolding tracking_okD(3) [OF engine_invD(2) [OF example_sold_inv]]
    by (simp add: example_sold_effect)
  then have "orders_of_session 7 example_sold = {1}" by blast
  then have "set [1] = orders_of_session 7 example_sold" by simp
  from cancelSessionOrders_removes_session [OF example_sold_reachable this]
  have "ask_queue (book_abs (orderbook (cancelSessionOrders 7 [1] example_sold))) =
      filter (\<lambda>en. orderToSession example_sold (e_id en) \<noteq> Some 7)
        (ask_queue (book_abs (orderbook example_sold)))" by blast
  then show ?thesis
    by (simp add: book_abs_def entries_def example_sold_effect entry_def)
qed

section \<open>What the code does beyond its comments\<close>

text \<open>
  Property C39. An order that another order fills completely stays in the owner table: the clean-up
  of finished orders reaches the incoming order only. Session \<open>taker\<close> enters an order that trades
  with a resting order of another (or the same) session for the whole quantity that this one had
  left: the resting order leaves the book but stays tracked under its owner, and when the owner or
  the dummy session then asks to cancel it, the book does not change and the answer is an
  acknowledgement, not a reject.
\<close>

theorem filled_order_cancel_is_acked:
  fixes taker :: SessionId
  assumes "engine_reachable e" and "ids_left e" and "acceptable request side orderType"
    and "orders (orderbook e) i = Some x"
    and "t \<in> set (trades (orderbook (handleNewOrder taker request e)))"
    and "resting_side_id side t = i" and "tr_quantity t = getQuantity (obj (orderbook e) x)"
    and "sid = getSessionId (obj (orderbook e) x) \<or> sid = DUMMY_SESSION_ID"
    and "cor_orderId cancel = i"
  defines "e1 \<equiv> handleNewOrder taker request e"
  defines "e2 \<equiv> handleCancelOrder sid cancel e1"
  shows "orders (orderbook e1) i = None \<and>
    orderToSession e1 i = Some (getSessionId (obj (orderbook e) x)) \<and>
    orderbook e2 = orderbook e1 \<and>
    outbound_log e2 = take outbound_room
      (outbound_log e1 @ [cancel_ack sid (cor_clientOrderId cancel) i])"
proof -
  note inv = reachable_engine_inv [OF assms(1)] and valid = acceptable_valid [OF assms(3)]
  let ?e = "e\<lparr>ordersProcessed := ordersProcessed e + 1\<rparr>"
  have e1: "e1 = accept_order taker request side orderType ?e"
    unfolding e1_def by (rule handleNewOrder_accepts [OF assms(3)])
  note eff = accept_order_effect [of ?e request side orderType taker, simplified, OF inv valid assms(2), folded e1]
  note ins = incoming_insertable [OF inv valid, of taker]
  have owner: "orderToSession e i = Some (getSessionId (obj (orderbook e) x))"
    by (rule tracking_okD(1) [OF engine_invD(2) [OF inv] assms(4)])
  have new: "i \<noteq> nextOrderId e" using owner fresh_id(1) [OF inv] by auto
  have old: "x \<noteq> next_address e"
    using book_inv_obj_indexed(1) [OF engine_invD(1) [OF inv] assms(4)] fresh_id(3) [OF inv] by auto
  have gone: "orders (orderbook e1) i = None"
    using AddOrder_full_fill_leaves [OF ins(1,3), of i x t] assms(4-7) old eff(2)
    by (simp add: e1_def [symmetric] admitted_orderbook frame_simps)
  have tracked: "orderToSession e1 i = Some (getSessionId (obj (orderbook e) x))"
    using eff(7) new owner by simp
  then have may: "may_touch sid (cor_orderId cancel) e1" using assms(8,9) by (auto simp: may_touch_def)
  note eff2 = handleCancelOrder_effect [OF eff(1) may, folded e2_def]
  note log = says_log [OF engine_invD(4) [OF eff(1)] eff2(6,5)]
  show ?thesis using gone tracked eff2(2) log assms(9) by (simp add: CancelOrder_def)
qed

text \<open>Session 8 buys all of session 7's order; session 7 cancels it and is told that it did.\<close>

theorem filled_order_cancel_is_acked_witness:
  "orders (orderbook example_bought) 1 = None \<and>
   orderbook (handleCancelOrder 7 (example_cancel 71 1) example_bought) = orderbook example_bought \<and>
   outbound_log (handleCancelOrder 7 (example_cancel 71 1) example_bought) =
     take outbound_room (outbound_log example_bought @ [cancel_ack 7 71 1])"
proof -
  obtain t where t: "trades (orderbook example_bought) = [t]" "resting_side_id BUY t = 1" "tr_quantity t = 5"
    using example_bought_effect(6,7) by (auto simp: map_eq_Cons_conv)
  have "getSessionId (obj (orderbook example_sold) 0) = 7"
    using tracking_okD(1) [OF engine_invD(2) [OF example_sold_inv], of 1 0]
    by (simp add: example_sold_effect)
  then show ?thesis
    using filled_order_cancel_is_acked [OF example_sold_reachable example_sold_ids
        example_acceptable [of BUY LIMIT 5 100 80], of 1 0 t 8 7 "example_cancel 71 1"] t
    unfolding example_bought_def [symmetric]
    by (simp add: example_sold_effect) (simp add: example_cancel_def)
qed

text \<open>
  Property C40. A modify request that \<open>ModifyOrder\<close> has nothing to do for, because the order left
  the book or because it already has the price and the quantity asked for, is acknowledged, and the
  trades of the previous operation are published and counted once more: the trade counter grows by
  their number and the feed gets an update for each of them, although nothing was traded.
\<close>

theorem idle_modify_republishes_trades:
  fixes sid :: SessionId
  assumes "engine_reachable e" and "may_touch sid (mor_orderId request) e" and "modifiable request"
    and "case orders (orderbook e) (mor_orderId request) of
        None \<Rightarrow> True
      | Some x \<Rightarrow> getPrice (obj (orderbook e) x) = mor_newPrice request \<and>
          getQuantity (obj (orderbook e) x) = mor_newQuantity request"
  defines "e' \<equiv> handleModifyOrder sid request e"
  shows "orderbook e' = orderbook e \<and>
    tradesExecuted e' = tradesExecuted e + word_of_nat (length (trades (orderbook e))) \<and>
    nextTradeId e' = nextTradeId e \<and>
    outbound_log e' = take outbound_room (outbound_log e @
      [modify_ack sid (mor_clientOrderId request) (mor_orderId request)
        (mor_newPrice request) (mor_newQuantity request)]) \<and>
    feed_log e' = take feed_room (feed_log e @
      map (\<lambda>t. trade_update (symbol e) (nextTradeId e) t
        (if buyOrderId t = mor_orderId request then BUY else SELL)) (trades (orderbook e)) @
      [tick_update (symbol e) (last_price (lastTradePrice e) (trades (orderbook e)))
        (last_qty (lastTradeQty e) (trades (orderbook e))) (orderbook e)])"
proof -
  note inv = reachable_engine_inv [OF assms(1)]
  note eff = handleModifyOrder_effect [OF inv assms(2,3), folded e'_def]
  note log = says_log [OF engine_invD(4) [OF inv] eff(6,5)]
  have idle: "ModifyOrder (mor_orderId request) (mor_newPrice request) (mor_newQuantity request)
      (orderbook e) = orderbook e"
    using assms(4) book_inv_obj_indexed(1) [OF engine_invD(1) [OF inv]]
    by (auto simp: ModifyOrder_noop split: option.splits)
  show ?thesis
    using eff(2) log eff(7) idle by (simp add: modify_updates_def trade_counters_def)
qed

text \<open>
  After the trade between sessions 8 and 7, session 7 modifies its filled order: the trade is
  published a second time, as a sale, and counted a second time. Before the trade, a modify request
  that asks for the terms the order already has is such a request too.
\<close>

theorem idle_modify_republishes_trades_witness:
  "let e' = handleModifyOrder 7 (example_modify 71 1 90 3) example_bought in
   length (trades (orderbook example_bought)) = 1 \<and> tradesExecuted e' = tradesExecuted example_bought + 1 \<and>
   feed_log e' = take feed_room (feed_log example_bought @
     map (\<lambda>t. trade_update (symbol example_bought) (nextTradeId example_bought) t
       (if buyOrderId t = 1 then BUY else SELL)) (trades (orderbook example_bought)) @
     [tick_update (symbol example_bought)
       (last_price (lastTradePrice example_bought) (trades (orderbook example_bought)))
       (last_qty (lastTradeQty example_bought) (trades (orderbook example_bought)))
       (orderbook example_bought)]) \<and>
   orderbook (handleModifyOrder 7 (example_modify 71 1 100 5) example_sold) = orderbook example_sold"
  using idle_modify_republishes_trades [OF example_bought_reachable, of 7 "example_modify 71 1 90 3"]
    idle_modify_republishes_trades [OF example_sold_reachable, of 7 "example_modify 71 1 100 5"]
  by (simp add: may_touch_def modifiable_def example_bought_effect example_sold_effect example_modify_def Let_def)

section \<open>The matching loop\<close>

text \<open>
  Draining the inbound queue returns: it takes the queued messages in queue order,
  processes each once, and leaves the queue empty and the invariant in place. The result says
  whether there was anything to process.
\<close>

theorem drain_inbound_total:
  assumes "engine_reachable e" and "unat (nextOrderId e) + length (pending e) < 2 ^ 64"
  shows "\<exists>e'. drain_inbound False e = Some (pending e \<noteq> [], e') \<and>
    e' = snd (pop_inbound (fold (\<lambda>msg e. processInboundMessage msg (snd (pop_inbound e))) (pending e) e)) \<and>
    pending e' = [] \<and> engine_inv e'"
  using drain_inbound_processes [OF reachable_engine_inv [OF assms(1)], of 0 False] assms(2)
  by (simp add: id_budget_def process_next_def [abs_def])

theorem drain_inbound_total_witness:
  "\<exists>e'. drain_inbound False (push_inbound default_InboundMessage example_engine) =
      Some (pending (push_inbound default_InboundMessage example_engine) \<noteq> [], e') \<and> pending e' = []"
proof -
  let ?e = "push_inbound default_InboundMessage example_engine"
  have "length (pending ?e) \<le> 65535"
    by (rule pending_bound [OF inbound_keeps(1) [OF example_engine_inv]])
  moreover have "nextOrderId ?e = 1" by (simp add: push_inbound_def example_engine_fields)
  ultimately have "unat (nextOrderId ?e) + length (pending ?e) < 2 ^ 64" by simp
  from drain_inbound_total [OF engine_receive [OF example_engine_reachable] this] show ?thesis by blast
qed

text \<open>
  Property C27. However many rounds it runs and whatever the producers push meanwhile, the loop
  of the matching thread returns after \<open>stop\<close>, and every message that was queued by then has been
  taken off the queue.
\<close>

theorem matchingLoop_total:
  assumes "engine_reachable e"
    and "unat (nextOrderId e) + length (pending e) + length (concat rounds) + length late < 2 ^ 64"
  shows "\<exists>e'. matchingLoop rounds late e = Some e' \<and> pending e' = [] \<and> engine_inv e'"
  using matchingLoop_returns [OF reachable_engine_inv [OF assms(1)], of rounds late] assms(2)
  by (auto simp: id_budget_def add.assoc)

theorem matchingLoop_total_witness:
  "\<exists>e'. matchingLoop [[default_InboundMessage], []] [default_InboundMessage] example_engine = Some e' \<and>
     pending e' = [] \<and> engine_inv e'"
proof (rule matchingLoop_total [OF example_engine_reachable])
  have "length (pending example_engine) \<le> 65535"
    by (rule pending_bound [OF example_engine_inv])
  then show "unat (nextOrderId example_engine) + length (pending example_engine) +
      length (concat [[default_InboundMessage], []]) + length [default_InboundMessage] < 2 ^ 64"
    by (simp add: example_engine_fields)
qed

end
