(* ===== verification/Protocol_Wire.thy ===== *)
theory Protocol_Wire
  imports Protocol_Msgs
begin

text \<open>
  The messages as bytes. The structs of \<^verbatim>\<open>include/Protocol.h\<close> are packed
  (\<^verbatim>\<open>#pragma pack(push, 1)\<close>) and the code copies them to and from the wire as memory, on a
  little-endian machine: a struct is the concatenation of its fields' bytes. \<open>put_*\<close> is that
  layout, \<open>get_*\<close> what a cast of a byte buffer to the struct reads.
\<close>

type_synonym bytes = "8 word list"

section \<open>Little-endian words\<close>

fun le :: "nat \<Rightarrow> 'a::len word \<Rightarrow> bytes" where
  "le 0 w = []"
| "le (Suc n) w = ucast w # le n (drop_bit 8 w)"

fun unle :: "bytes \<Rightarrow> 'a::len word" where
  "unle [] = 0"
| "unle (b # bs) = or (ucast b) (push_bit 8 (unle bs))"

lemma length_le [simp]: "length (le n w) = n"
  by (induction n arbitrary: w) simp_all

lemma unle_le_take: "unle (le n w) = take_bit (8 * n) w" for w :: "'a::len word"
proof (induction n arbitrary: w)
  case (Suc n)
  have "or (ucast (ucast w :: 8 word)) (push_bit 8 (take_bit (8 * n) (drop_bit 8 w))) =
      take_bit (8 * Suc n) w"
    by (rule bit_eqI) (auto simp: bit_simps)
  then show ?case using Suc by simp
qed simp

lemma unle_le [simp]:
  "unle (le 2 w2) = (w2 :: 16 word)" "unle (le 4 w4) = (w4 :: 32 word)"
  "unle (le 8 w8) = (w8 :: 64 word)"
  by (simp_all add: unle_le_take take_bit_length_eq [where 'a = 16, simplified]
      take_bit_length_eq [where 'a = 32, simplified] take_bit_length_eq [where 'a = 64, simplified])

text \<open>The field of \<open>n\<close> bytes at an offset, and the byte at an offset.\<close>

definition field :: "nat \<Rightarrow> nat \<Rightarrow> bytes \<Rightarrow> 'a::len word" where
  "field off n bs = unle (take n (drop off bs))"

definition byte_at :: "nat \<Rightarrow> bytes \<Rightarrow> 8 word" where
  "byte_at off bs = (case drop off bs of [] \<Rightarrow> 0 | b # _ \<Rightarrow> b)"

section \<open>Headers and requests\<close>

definition put_header :: "MessageHeader \<Rightarrow> bytes" where
  "put_header h = [mh_type h] @ le 2 (mh_length h) @ le 8 (mh_timestamp h)"

definition get_header :: "bytes \<Rightarrow> MessageHeader" where
  "get_header bs = \<lparr>mh_type = byte_at 0 bs, mh_length = field 1 2 bs, mh_timestamp = field 3 8 bs\<rparr>"

definition put_NewOrderRequest :: "NewOrderRequest \<Rightarrow> bytes" where
  "put_NewOrderRequest m =
     put_header (nor_header m) @ le 8 (nor_clientOrderId m) @ [nor_side m] @ [nor_orderType m] @
     le 4 (nor_price m) @ le 4 (nor_quantity m)"

definition get_NewOrderRequest :: "bytes \<Rightarrow> NewOrderRequest" where
  "get_NewOrderRequest bs =
     \<lparr>nor_header = get_header bs, nor_clientOrderId = field 11 8 bs, nor_side = byte_at 19 bs,
      nor_orderType = byte_at 20 bs, nor_price = field 21 4 bs, nor_quantity = field 25 4 bs\<rparr>"

definition put_CancelOrderRequest :: "CancelOrderRequest \<Rightarrow> bytes" where
  "put_CancelOrderRequest m =
     put_header (cor_header m) @ le 8 (cor_clientOrderId m) @ le 8 (cor_orderId m)"

definition get_CancelOrderRequest :: "bytes \<Rightarrow> CancelOrderRequest" where
  "get_CancelOrderRequest bs =
     \<lparr>cor_header = get_header bs, cor_clientOrderId = field 11 8 bs, cor_orderId = field 19 8 bs\<rparr>"

definition put_ModifyOrderRequest :: "ModifyOrderRequest \<Rightarrow> bytes" where
  "put_ModifyOrderRequest m =
     put_header (mor_header m) @ le 8 (mor_clientOrderId m) @ le 8 (mor_orderId m) @
     le 4 (mor_newPrice m) @ le 4 (mor_newQuantity m)"

definition get_ModifyOrderRequest :: "bytes \<Rightarrow> ModifyOrderRequest" where
  "get_ModifyOrderRequest bs =
     \<lparr>mor_header = get_header bs, mor_clientOrderId = field 11 8 bs, mor_orderId = field 19 8 bs,
      mor_newPrice = field 27 4 bs, mor_newQuantity = field 31 4 bs\<rparr>"

section \<open>Responses\<close>

primrec put_response :: "OutboundBody \<Rightarrow> bytes" where
  "put_response (OrderAckBody m) =
     put_header (oa_header m) @ le 8 (oa_clientOrderId m) @ le 8 (oa_orderId m) @ [oa_status m]"
| "put_response (OrderRejectBody m) =
     put_header (or_header m) @ le 8 (or_clientOrderId m) @ [RejectReason_code (or_reason m)]"
| "put_response (ExecReportBody m) =
     put_header (er_header m) @ le 8 (er_orderId m) @ le 8 (er_tradeId m) @ le 4 (er_execPrice m) @
     le 4 (er_execQty m) @ le 4 (er_leavesQty m) @ [er_side m]"
| "put_response (CancelAckBody m) =
     put_header (ca_header m) @ le 8 (ca_clientOrderId m) @ le 8 (ca_orderId m)"
| "put_response (CancelRejectBody m) =
     put_header (cr_header m) @ le 8 (cr_clientOrderId m) @ le 8 (cr_orderId m) @
     [RejectReason_code (cr_reason m)]"
| "put_response (ModifyAckBody m) =
     put_header (ma_header m) @ le 8 (ma_clientOrderId m) @ le 8 (ma_orderId m) @
     le 4 (ma_newPrice m) @ le 4 (ma_newQuantity m)"
| "put_response (ModifyRejectBody m) =
     put_header (mr_header m) @ le 8 (mr_clientOrderId m) @ le 8 (mr_orderId m) @
     [RejectReason_code (mr_reason m)]"

primrec sizeof_response :: "OutboundBody \<Rightarrow> nat" where
  "sizeof_response (OrderAckBody m) = sizeof_OrderAck"
| "sizeof_response (OrderRejectBody m) = sizeof_OrderReject"
| "sizeof_response (ExecReportBody m) = sizeof_ExecutionReport"
| "sizeof_response (CancelAckBody m) = sizeof_CancelAck"
| "sizeof_response (CancelRejectBody m) = sizeof_CancelReject"
| "sizeof_response (ModifyAckBody m) = sizeof_ModifyAck"
| "sizeof_response (ModifyRejectBody m) = sizeof_ModifyReject"

section \<open>Market data\<close>

definition put_PriceLevel :: "PriceLevel \<Rightarrow> bytes" where
  "put_PriceLevel l = le 4 (pl_price l) @ le 4 (pl_quantity l) @ le 4 (pl_orderCount l)"

primrec put_market_data :: "MarketDataMessage \<Rightarrow> bytes" where
  "put_market_data (TickMsg m) =
     put_header (tick_header m) @ tick_symbol m @ le 4 (tick_lastPrice m) @ le 4 (tick_lastQty m) @
     le 4 (tick_bidPrice m) @ le 4 (tick_askPrice m) @ le 4 (tick_bidQty m) @ le 4 (tick_askQty m)"
| "put_market_data (TradeMsg m) =
     put_header (tu_header m) @ tu_symbol m @ le 8 (tu_tradeId m) @ le 4 (tu_price m) @
     le 4 (tu_quantity m) @ [tu_aggressorSide m]"
| "put_market_data (SnapshotMsg m) =
     put_header (obs_header m) @ obs_symbol m @ [obs_bidLevels m] @ [obs_askLevels m] @
     concat (map put_PriceLevel (obs_bids m)) @ concat (map put_PriceLevel (obs_asks m))"

section \<open>Lengths and round trips\<close>

lemma length_put_header [simp]: "length (put_header h) = sizeof_MessageHeader"
  by (simp add: put_header_def sizeof_defs)

lemma length_put_requests [simp]:
  "length (put_NewOrderRequest n) = sizeof_NewOrderRequest"
  "length (put_CancelOrderRequest c) = sizeof_CancelOrderRequest"
  "length (put_ModifyOrderRequest m) = sizeof_ModifyOrderRequest"
  by (simp_all add: put_NewOrderRequest_def put_CancelOrderRequest_def put_ModifyOrderRequest_def
      sizeof_defs)

lemma length_put_response: "length (put_response m) = sizeof_response m"
  by (cases m) (simp_all add: sizeof_defs)

lemma get_put_header: "get_header (put_header h @ rest) = h"
  by (simp add: get_header_def put_header_def field_def byte_at_def)

lemma request_round_trips:
  "get_NewOrderRequest (put_NewOrderRequest n @ rest) = n"
  "get_CancelOrderRequest (put_CancelOrderRequest c @ rest) = c"
  "get_ModifyOrderRequest (put_ModifyOrderRequest m @ rest) = m"
proof -
  show "get_NewOrderRequest (put_NewOrderRequest n @ rest) = n"
    using get_put_header [of "nor_header n"]
    by (simp add: get_NewOrderRequest_def put_NewOrderRequest_def field_def byte_at_def sizeof_defs)
  show "get_CancelOrderRequest (put_CancelOrderRequest c @ rest) = c"
    using get_put_header [of "cor_header c"]
    by (simp add: get_CancelOrderRequest_def put_CancelOrderRequest_def field_def sizeof_defs)
  show "get_ModifyOrderRequest (put_ModifyOrderRequest m @ rest) = m"
    using get_put_header [of "mor_header m"]
    by (simp add: get_ModifyOrderRequest_def put_ModifyOrderRequest_def field_def sizeof_defs)
qed

end
