(* ===== verification/Std_Text.thy ===== *)
theory Std_Text
  imports Exchange_Prelude
begin

text \<open>
  What the two programs use of the standard library's text conversions, on strings as character
  lists: \<^verbatim>\<open>std::istream >> std::string\<close>, \<^verbatim>\<open>std::istream >> integer\<close> (base 10, the "C"
  locale) and \<^verbatim>\<open>std::atoi\<close>. A failed extraction is \<open>None\<close>. For \<^verbatim>\<open>atoi\<close> the C standard leaves
  a value outside the range of \<^verbatim>\<open>int\<close> undefined; that is \<open>None\<close> too.
\<close>

section \<open>Scanning\<close>

definition is_space :: "char \<Rightarrow> bool" where
  "is_space c \<longleftrightarrow> c = CHR '' '' \<or> (9 :: nat) \<le> of_char c \<and> of_char c \<le> (13 :: nat)"

definition is_digit :: "char \<Rightarrow> bool" where
  "is_digit c \<longleftrightarrow> (48 :: nat) \<le> of_char c \<and> of_char c \<le> (57 :: nat)"

definition digit_value :: "char \<Rightarrow> nat" where
  "digit_value c = of_char c - 48"

definition decimal_value :: "string \<Rightarrow> nat" where
  "decimal_value ds = foldl (\<lambda>n d. 10 * n + digit_value d) 0 ds"

text \<open>White space, a sign, digits: the sign, the magnitude (if there was a digit) and the rest.\<close>

fun scan_sign :: "string \<Rightarrow> bool \<times> string" where
  "scan_sign [] = (False, [])"
| "scan_sign (c # cs) =
     (if c = CHR ''-'' then (True, cs) else if c = CHR ''+'' then (False, cs) else (False, c # cs))"

definition scan_number :: "string \<Rightarrow> (bool \<times> nat \<times> string) option" where
  "scan_number s =
     (let (negative, cs) = scan_sign (dropWhile is_space s);
          ds = takeWhile is_digit cs
      in if ds = [] then None else Some (negative, decimal_value ds, dropWhile is_digit cs))"

definition scan_word :: "string \<Rightarrow> (string \<times> string) option" where
  "scan_word s =
     (let cs = dropWhile is_space s
      in if cs = [] then None
         else Some (takeWhile (\<lambda>c. \<not> is_space c) cs, dropWhile (\<lambda>c. \<not> is_space c) cs))"

text \<open>An unsigned extraction takes a minus sign and wraps; a magnitude out of range fails.\<close>

definition scan_unsigned :: "string \<Rightarrow> ('a::len word \<times> string) option" where
  "scan_unsigned s =
     (case scan_number s of
        None \<Rightarrow> None
      | Some (negative, n, rest) \<Rightarrow>
          if n < 2 ^ LENGTH('a)
          then Some (if negative then - word_of_nat n else word_of_nat n, rest) else None)"

definition signed_value :: "bool \<Rightarrow> nat \<Rightarrow> int" where
  "signed_value negative n = (if negative then - int n else int n)"

definition fits_int32 :: "int \<Rightarrow> bool" where
  "fits_int32 v \<longleftrightarrow> - (2 ^ 31) \<le> v \<and> v < 2 ^ 31"

definition scan_int32 :: "string \<Rightarrow> (32 word \<times> string) option" where
  "scan_int32 s =
     (case scan_number s of
        None \<Rightarrow> None
      | Some (negative, n, rest) \<Rightarrow>
          if fits_int32 (signed_value negative n)
          then Some (word_of_int (signed_value negative n), rest) else None)"

definition atoi :: "string \<Rightarrow> 32 word option" where
  "atoi s =
     (case scan_number s of
        None \<Rightarrow> Some 0
      | Some (negative, n, rest) \<Rightarrow>
          if fits_int32 (signed_value negative n)
          then Some (word_of_int (signed_value negative n)) else None)"

section \<open>Printing a number and scanning it\<close>

fun decimal_digits :: "nat \<Rightarrow> string" where
  "decimal_digits n =
     (if n < 10 then [char_of (48 + n)] else decimal_digits (n div 10) @ [char_of (48 + n mod 10)])"

declare decimal_digits.simps [simp del]

lemma digit_char:
  assumes "n < 10"
  shows "is_digit (char_of (48 + n))" and "digit_value (char_of (48 + n)) = n"
  using assms by (simp_all add: is_digit_def digit_value_def)

lemma decimal_value_append: "decimal_value (ds @ [d]) = 10 * decimal_value ds + digit_value d"
  by (simp add: decimal_value_def)

lemma decimal_digits_ok:
  "list_all is_digit (decimal_digits n)" "decimal_digits n \<noteq> []"
  "decimal_value (decimal_digits n) = n"
proof -
  have "list_all is_digit (decimal_digits n) \<and> decimal_digits n \<noteq> [] \<and>
      decimal_value (decimal_digits n) = n"
  proof (induction n rule: decimal_digits.induct)
    case (1 n)
    show ?case
    proof (cases "n < 10")
      case True
      then show ?thesis
        using digit_char [OF True] by (simp add: decimal_digits.simps [of n] decimal_value_def)
    next
      case False
      have "n mod 10 < 10" by simp
      from digit_char [OF this] 1 [OF False] False show ?thesis
        by (subst (1 2 3) decimal_digits.simps) (simp add: decimal_value_append)
    qed
  qed
  then show "list_all is_digit (decimal_digits n)" "decimal_digits n \<noteq> []"
    "decimal_value (decimal_digits n) = n" by blast+
qed

lemma digit_not_space_or_sign:
  "is_digit c \<Longrightarrow> \<not> is_space c \<and> c \<noteq> CHR ''-'' \<and> c \<noteq> CHR ''+''"
  by (auto simp: is_digit_def is_space_def)

lemma scan_number_digits:
  assumes "rest = [] \<or> \<not> is_digit (hd rest)"
  shows "scan_number (decimal_digits n @ rest) = Some (False, n, rest)"
proof -
  have digits: "\<And>c. c \<in> set (decimal_digits n) \<Longrightarrow> is_digit c"
    using decimal_digits_ok(1) [of n] by (simp add: list_all_iff)
  obtain c cs where c: "decimal_digits n = c # cs" using decimal_digits_ok(2) [of n] by (cases "decimal_digits n") auto
  with digits digit_not_space_or_sign [of c]
  have "scan_sign (dropWhile is_space (decimal_digits n @ rest)) = (False, decimal_digits n @ rest)"
    by simp
  moreover have "takeWhile is_digit rest = []" "dropWhile is_digit rest = rest"
    using assms by (cases rest, auto)+
  ultimately show ?thesis
    using digits decimal_digits_ok(2,3) [of n] by (simp add: scan_number_def Let_def)
qed

lemma scan_unsigned_digits:
  assumes "rest = [] \<or> \<not> is_digit (hd rest)" and "n < 2 ^ LENGTH('a)"
  shows "scan_unsigned (decimal_digits n @ rest) = Some (word_of_nat n :: 'a::len word, rest)"
  using scan_number_digits [OF assms(1), of n] assms(2) by (simp add: scan_unsigned_def)

text \<open>Leading white space is skipped.\<close>

lemma scan_space [simp]:
  "scan_number (CHR '' '' # s) = scan_number s"
  "scan_word (CHR '' '' # s) = scan_word s"
  by (simp_all add: scan_number_def scan_word_def is_space_def)

lemma scan_space_values [simp]:
  "scan_unsigned (CHR '' '' # s) = scan_unsigned s"
  "scan_int32 (CHR '' '' # s) = scan_int32 s"
  by (simp_all add: scan_unsigned_def scan_int32_def)

end
