(* ===== verification/Client.thy ===== *)
theory Client
  imports Protocol_Wire Std_Text
begin

text \<open>
  The example client of \<^verbatim>\<open>cpp_client/\<close>: \<^verbatim>\<open>src/main.cpp\<close> (commands to requests, responses and
  market data to printed lines) and \<^verbatim>\<open>src/UdpMulticastReceiver.cpp\<close>. A printed line is a
  \<open>ClientLine\<close> with the values that the stream operators print. The sockets are not modelled:
  what \<^verbatim>\<open>dealer.recv\<close> will return is a list of frames with their \<^verbatim>\<open>rcvmore\<close> flag, what
  \<^verbatim>\<open>recvfrom\<close> will return a list of results, and every multi-part message that is sent is
  collected. \<^verbatim>\<open>usage\<close> prints a fixed text.
\<close>

section \<open>Requests of the client\<close>

text \<open>The default constructors of the request structs, with the fields the client then sets.\<close>

definition new_NewOrderRequest ::
  "Timestamp \<Rightarrow> 64 word \<Rightarrow> 8 word \<Rightarrow> 8 word \<Rightarrow> 32 word \<Rightarrow> 32 word \<Rightarrow> NewOrderRequest" where
  "new_NewOrderRequest now clientOrderId side orderType price quantity =
     \<lparr>nor_header = new_MessageHeader NEW_ORDER_REQUEST (word_of_nat sizeof_NewOrderRequest) now,
      nor_clientOrderId = clientOrderId, nor_side = side, nor_orderType = orderType,
      nor_price = price, nor_quantity = quantity\<rparr>"

definition new_CancelOrderRequest :: "Timestamp \<Rightarrow> 64 word \<Rightarrow> 64 word \<Rightarrow> CancelOrderRequest" where
  "new_CancelOrderRequest now clientOrderId orderId =
     \<lparr>cor_header = new_MessageHeader CANCEL_ORDER_REQUEST (word_of_nat sizeof_CancelOrderRequest) now,
      cor_clientOrderId = clientOrderId, cor_orderId = orderId\<rparr>"

definition new_ModifyOrderRequest ::
  "Timestamp \<Rightarrow> 64 word \<Rightarrow> 64 word \<Rightarrow> 32 word \<Rightarrow> 32 word \<Rightarrow> ModifyOrderRequest" where
  "new_ModifyOrderRequest now clientOrderId orderId newPrice newQuantity =
     \<lparr>mor_header = new_MessageHeader MODIFY_ORDER_REQUEST (word_of_nat sizeof_ModifyOrderRequest) now,
      mor_clientOrderId = clientOrderId, mor_orderId = orderId, mor_newPrice = newPrice,
      mor_newQuantity = newQuantity\<rparr>"

definition parseSide :: "string \<Rightarrow> 8 word" where
  "parseSide s =
     (if s = ''buy'' then BuySell_code BUY else if s = ''sell'' then BuySell_code SELL
      else BuySell_code BuySell_DEFAULT)"

definition parseOrderType :: "string \<Rightarrow> 8 word" where
  "parseOrderType s =
     (if s = ''limit'' then OrderType_code LIMIT else if s = ''market'' then OrderType_code MARKET
      else if s = ''ioc'' then OrderType_code IOC else OrderType_code OrderType_DEFAULT)"

text \<open>\<open>Exit n\<close> is \<^verbatim>\<open>exit(n)\<close> or \<^verbatim>\<open>return n\<close> from \<^verbatim>\<open>main\<close>; \<open>Undefined\<close> an \<^verbatim>\<open>atoi\<close> out of range.\<close>

datatype 'a outcome = Exit nat | Undefined | Run 'a

record Args =
  arg_host :: string
  arg_port :: "16 word"
  arg_identity :: string
  arg_mcastGroup :: string
  arg_mcastPort :: "16 word"
  arg_demo :: bool
  arg_demoSide :: string
  arg_demoType :: string
  arg_demoPrice :: "32 word"
  arg_demoQty :: "32 word"

definition default_Args :: Args where
  "default_Args =
     \<lparr>arg_host = ''127.0.0.1'', arg_port = 12345, arg_identity = ''client1'',
      arg_mcastGroup = ''239.255.0.1'', arg_mcastPort = 12346, arg_demo = False,
      arg_demoSide = ''buy'', arg_demoType = ''limit'', arg_demoPrice = 1000, arg_demoQty = 10\<rparr>"

text \<open>The lambda \<open>need\<close>, followed by \<^verbatim>\<open>atoi\<close> where the option is a number.\<close>

definition need_number :: "(32 word \<Rightarrow> 'a outcome) \<Rightarrow> string \<Rightarrow> 'a outcome" where
  "need_number k s = (case atoi s of None \<Rightarrow> Undefined | Some w \<Rightarrow> k w)"

fun parseArgs :: "Args \<Rightarrow> string list \<Rightarrow> Args outcome" where
  "parseArgs a [] = Run a"
| "parseArgs a (arg # rest) =
     (if arg = ''--help'' \<or> arg = ''-h'' then Exit 0
      else if arg = ''--demo'' then parseArgs (a\<lparr>arg_demo := True\<rparr>) rest
      else if arg \<in> {''--host'', ''--port'', ''--id'', ''--mcast-group'', ''--mcast-port'',
                     ''--side'', ''--type'', ''--price'', ''--qty''} then
        (case rest of
           [] \<Rightarrow> Exit 2
         | v # rest' \<Rightarrow>
             if arg = ''--host'' then parseArgs (a\<lparr>arg_host := v\<rparr>) rest'
             else if arg = ''--port'' then
               need_number (\<lambda>w. parseArgs (a\<lparr>arg_port := ucast w\<rparr>) rest') v
             else if arg = ''--id'' then parseArgs (a\<lparr>arg_identity := v\<rparr>) rest'
             else if arg = ''--mcast-group'' then parseArgs (a\<lparr>arg_mcastGroup := v\<rparr>) rest'
             else if arg = ''--mcast-port'' then
               need_number (\<lambda>w. parseArgs (a\<lparr>arg_mcastPort := ucast w\<rparr>) rest') v
             else if arg = ''--side'' then parseArgs (a\<lparr>arg_demoSide := v\<rparr>) rest'
             else if arg = ''--type'' then parseArgs (a\<lparr>arg_demoType := v\<rparr>) rest'
             else if arg = ''--price'' then
               need_number (\<lambda>w. parseArgs (a\<lparr>arg_demoPrice := w\<rparr>) rest') v
             else need_number (\<lambda>w. parseArgs (a\<lparr>arg_demoQty := w\<rparr>) rest') v)
      else Exit 2)"

section \<open>Printing responses and market data\<close>

datatype ClientLine =
  ResponseTooSmall nat
| OrderAckLine "64 word" "64 word" "8 word"
| OrderRejectLine "64 word" "8 word"
| ExecLine "64 word" "64 word" "32 word" "32 word" "32 word" "8 word"
| CancelAckLine "64 word" "64 word"
| CancelRejectLine "64 word" "64 word" "8 word"
| ModifyAckLine "64 word" "64 word" "32 word" "32 word"
| ModifyRejectLine "64 word" "64 word" "8 word"
| UnknownTypeLine "8 word" "16 word"
| NoResponseLine
| UsageLine string
| UnknownCommandLine string
| TickLine bytes "32 word" "32 word" "32 word" "32 word" "32 word" "32 word"
| TradeLine bytes "64 word" "32 word" "32 word" "8 word"
| SnapLine bytes "8 word" "8 word"

text \<open>The result is \<open>None\<close> where the function returns without printing.\<close>

definition printResponse :: "bytes \<Rightarrow> ClientLine option" where
  "printResponse payload =
     (if length payload < sizeof_MessageHeader then Some (ResponseTooSmall (length payload))
      else
        let hdr = get_header payload; t = mh_type hdr
        in if t = ORDER_ACK then
             if length payload < sizeof_OrderAck then None
             else Some (OrderAckLine (field 11 8 payload) (field 19 8 payload) (byte_at 27 payload))
           else if t = ORDER_REJECT then
             if length payload < sizeof_OrderReject then None
             else Some (OrderRejectLine (field 11 8 payload) (byte_at 19 payload))
           else if t = EXECUTION_REPORT then
             if length payload < sizeof_ExecutionReport then None
             else Some (ExecLine (field 11 8 payload) (field 19 8 payload) (field 27 4 payload)
                    (field 31 4 payload) (field 35 4 payload) (byte_at 39 payload))
           else if t = CANCEL_ACK then
             if length payload < sizeof_CancelAck then None
             else Some (CancelAckLine (field 11 8 payload) (field 19 8 payload))
           else if t = CANCEL_REJECT then
             if length payload < sizeof_CancelReject then None
             else Some (CancelRejectLine (field 11 8 payload) (field 19 8 payload) (byte_at 27 payload))
           else if t = MODIFY_ACK then
             if length payload < sizeof_ModifyAck then None
             else Some (ModifyAckLine (field 11 8 payload) (field 19 8 payload)
                    (field 27 4 payload) (field 31 4 payload))
           else if t = MODIFY_REJECT then
             if length payload < sizeof_ModifyReject then None
             else Some (ModifyRejectLine (field 11 8 payload) (field 19 8 payload) (byte_at 27 payload))
           else Some (UnknownTypeLine t (mh_length hdr)))"

text \<open>\<open>printSymbol\<close>: the characters of the field up to the first zero.\<close>

definition symbol_at :: "nat \<Rightarrow> bytes \<Rightarrow> bytes" where
  "symbol_at off bs = takeWhile (\<lambda>c. c \<noteq> 0) (take SYMBOL_LENGTH (drop off bs))"

definition handleMarketData :: "MessageHeader \<Rightarrow> bytes \<Rightarrow> nat \<Rightarrow> ClientLine option" where
  "handleMarketData header payload len =
     (if mh_type header = TICK_UPDATE then
        if len < sizeof_TickUpdate then None
        else Some (TickLine (symbol_at 11 payload) (field 19 4 payload) (field 23 4 payload)
               (field 27 4 payload) (field 35 4 payload) (field 31 4 payload) (field 39 4 payload))
      else if mh_type header = TRADE_UPDATE then
        if len < sizeof_TradeUpdate then None
        else Some (TradeLine (symbol_at 11 payload) (field 19 8 payload) (field 27 4 payload)
               (field 31 4 payload) (byte_at 35 payload))
      else if mh_type header = ORDERBOOK_SNAPSHOT then
        if len < sizeof_OrderbookSnapshot then None
        else Some (SnapLine (symbol_at 11 payload) (byte_at 19 payload) (byte_at 20 payload))
      else None)"

section \<open>The command loop\<close>

datatype ClientAction =
  SkipLine
| QuitLoop
| SendRequest InboundBody
| Complain ClientLine

definition new_usage :: string where
  "new_usage = ''Usage: new <clientOrderId> <buy|sell> <limit|market|ioc> <price> <qty>''"

definition cancel_usage :: string where
  "cancel_usage = ''Usage: cancel <clientOrderId> <orderId>''"

definition modify_usage :: string where
  "modify_usage = ''Usage: modify <clientOrderId> <orderId> <newPrice> <newQty>''"

text \<open>One extraction after the other; the chain fails where one of them does.\<close>

definition and_then :: "('a \<times> string) option \<Rightarrow> ('a \<Rightarrow> string \<Rightarrow> 'b option) \<Rightarrow> 'b option" where
  "and_then r k = (case r of None \<Rightarrow> None | Some (v, rest) \<Rightarrow> k v rest)"

definition parse_new :: "Timestamp \<Rightarrow> string \<Rightarrow> InboundBody option" where
  "parse_new now s =
     and_then (scan_unsigned s) (\<lambda>clientOrderId s1.
     and_then (scan_word s1) (\<lambda>sideS s2.
     and_then (scan_word s2) (\<lambda>typeS s3.
     and_then (scan_int32 s3) (\<lambda>price s4.
     and_then (scan_unsigned s4) (\<lambda>qty _.
       Some (NewOrderBody (new_NewOrderRequest now clientOrderId (parseSide sideS)
               (parseOrderType typeS) price qty)))))))"

definition parse_cancel :: "Timestamp \<Rightarrow> string \<Rightarrow> InboundBody option" where
  "parse_cancel now s =
     and_then (scan_unsigned s) (\<lambda>clientOrderId s1.
     and_then (scan_unsigned s1) (\<lambda>orderId _.
       Some (CancelOrderBody (new_CancelOrderRequest now clientOrderId orderId))))"

definition parse_modify :: "Timestamp \<Rightarrow> string \<Rightarrow> InboundBody option" where
  "parse_modify now s =
     and_then (scan_unsigned s) (\<lambda>clientOrderId s1.
     and_then (scan_unsigned s1) (\<lambda>orderId s2.
     and_then (scan_int32 s2) (\<lambda>newPx s3.
     and_then (scan_unsigned s3) (\<lambda>newQty _.
       Some (ModifyOrderBody (new_ModifyOrderRequest now clientOrderId orderId newPx newQty))))))"

definition or_usage :: "string \<Rightarrow> InboundBody option \<Rightarrow> ClientAction" where
  "or_usage u r = (case r of None \<Rightarrow> Complain (UsageLine u) | Some body \<Rightarrow> SendRequest body)"

definition client_command :: "Timestamp \<Rightarrow> string \<Rightarrow> ClientAction" where
  "client_command now line =
     (case scan_word line of
        None \<Rightarrow> SkipLine
      | Some (cmd, rest) \<Rightarrow>
          if cmd = ''quit'' \<or> cmd = ''exit'' then QuitLoop
          else if cmd = ''new'' then or_usage new_usage (parse_new now rest)
          else if cmd = ''cancel'' then or_usage cancel_usage (parse_cancel now rest)
          else if cmd = ''modify'' then or_usage modify_usage (parse_modify now rest)
          else Complain (UnknownCommandLine cmd))"

primrec put_request :: "InboundBody \<Rightarrow> bytes" where
  "put_request (NewOrderBody r) = put_NewOrderRequest r"
| "put_request (CancelOrderBody r) = put_CancelOrderRequest r"
| "put_request (ModifyOrderBody r) = put_ModifyOrderRequest r"

primrec request_header :: "InboundBody \<Rightarrow> MessageHeader" where
  "request_header (NewOrderBody r) = nor_header r"
| "request_header (CancelOrderBody r) = cor_header r"
| "request_header (ModifyOrderBody r) = mor_header r"

primrec request_type :: "InboundBody \<Rightarrow> MessageType" where
  "request_type (NewOrderBody r) = NEW_ORDER_REQUEST"
| "request_type (CancelOrderBody r) = CANCEL_ORDER_REQUEST"
| "request_type (ModifyOrderBody r) = MODIFY_ORDER_REQUEST"

text \<open>
  The DEALER socket: \<open>cl_incoming\<close> are the frames that the coming calls of \<^verbatim>\<open>recv\<close> return, each
  with the \<^verbatim>\<open>rcvmore\<close> flag after it (none left: \<^verbatim>\<open>recv\<close> returns no value), \<open>cl_sent\<close> the
  multi-part messages sent.
\<close>

record ClientState =
  cl_clock :: "nat \<Rightarrow> Timestamp"
  cl_incoming :: "(bytes \<times> bool) list"
  cl_sent :: "bytes list list"
  cl_output :: "ClientLine list"

definition zmqSendStruct :: "InboundBody \<Rightarrow> ClientState \<Rightarrow> ClientState" where
  "zmqSendStruct body c = c\<lparr>cl_sent := cl_sent c @ [[[], put_request body]]\<rparr>"

definition zmqRecvPayload :: "ClientState \<Rightarrow> bytes option \<times> ClientState" where
  "zmqRecvPayload c =
     (case cl_incoming c of
        [] \<Rightarrow> (None, c)
      | (f1, rcvmore) # rest \<Rightarrow>
          let c1 = c\<lparr>cl_incoming := rest\<rparr>
          in if \<not> rcvmore then (Some f1, c1)
             else case rest of
                    [] \<Rightarrow> (None, c1)
                  | (f2, _) # rest' \<Rightarrow> (Some f2, c\<lparr>cl_incoming := rest'\<rparr>))"

definition print_line :: "ClientLine option \<Rightarrow> ClientState \<Rightarrow> ClientState" where
  "print_line l c = (case l of None \<Rightarrow> c | Some x \<Rightarrow> c\<lparr>cl_output := cl_output c @ [x]\<rparr>)"

text \<open>The end of an iteration: one response is read and printed.\<close>

definition await_response :: "ClientState \<Rightarrow> ClientState" where
  "await_response c =
     (case zmqRecvPayload c of
        (None, c') \<Rightarrow> print_line (Some NoResponseLine) c'
      | (Some payload, c') \<Rightarrow> print_line (printResponse payload) c')"

text \<open>
  The loop over the lines of the input. Each request that is built takes its timestamp from one
  reading of the clock.
\<close>

fun client_loop :: "string list \<Rightarrow> ClientState \<Rightarrow> ClientState" where
  "client_loop [] c = c"
| "client_loop (line # lines) c =
     (case client_command (cl_clock c 0) line of
        SkipLine \<Rightarrow> client_loop lines c
      | QuitLoop \<Rightarrow> c
      | Complain l \<Rightarrow> client_loop lines (print_line (Some l) c)
      | SendRequest body \<Rightarrow>
          client_loop lines
            (await_response (zmqSendStruct body (c\<lparr>cl_clock := \<lambda>n. cl_clock c (Suc n)\<rparr>))))"

text \<open>The demo order that is sent before the loop.\<close>

definition send_demo :: "Args \<Rightarrow> ClientState \<Rightarrow> ClientState" where
  "send_demo a c =
     (if arg_demo a then
        await_response (zmqSendStruct
          (NewOrderBody (new_NewOrderRequest (cl_clock c 0) 1 (parseSide (arg_demoSide a))
             (parseOrderType (arg_demoType a)) (arg_demoPrice a) (arg_demoQty a)))
          (c\<lparr>cl_clock := \<lambda>n. cl_clock c (Suc n)\<rparr>))
      else c)"

section \<open>The multicast receiver\<close>

record Receiver =
  rx_socketFd :: int
  rx_running :: bool

text \<open>
  \<open>start\<close> with the results of \<^verbatim>\<open>socket\<close>, \<^verbatim>\<open>bind\<close>, \<^verbatim>\<open>inet_pton\<close> and of joining the group; a
  failure of the reuse option is only reported.
\<close>

definition receiver_start :: "int \<Rightarrow> bool \<Rightarrow> bool \<Rightarrow> bool \<Rightarrow> Receiver \<Rightarrow> bool \<times> Receiver" where
  "receiver_start fd bind_ok pton_ok join_ok r =
     (if rx_running r then (False, r)
      else
        let r1 = r\<lparr>rx_running := True, rx_socketFd := fd\<rparr>
        in if fd < 0 then (False, r1\<lparr>rx_running := False\<rparr>)
           else if \<not> bind_ok then (False, r1\<lparr>rx_socketFd := -1, rx_running := False\<rparr>)
           else if \<not> pton_ok then (False, r1\<lparr>rx_socketFd := -1, rx_running := False\<rparr>)
           else if \<not> join_ok then (False, r1\<lparr>rx_socketFd := -1, rx_running := False\<rparr>)
           else (True, r1))"

definition receiver_stop :: "Receiver \<Rightarrow> Receiver" where
  "receiver_stop r =
     (if \<not> rx_running r then r
      else let r1 = r\<lparr>rx_running := False\<rparr>
           in if rx_socketFd r1 \<ge> 0 then r1\<lparr>rx_socketFd := -1\<rparr> else r1)"

text \<open>
  One round of \<open>loop\<close>: \<open>None\<close> is a \<^verbatim>\<open>recvfrom\<close> that returned nothing; a datagram is cut to the
  buffer. The handler sees the buffer, of which the datagram is the beginning: \<open>rest\<close> are the
  bytes behind it.
\<close>

definition MAX_DATAGRAM :: nat where "MAX_DATAGRAM = 2048"

definition receive_round :: "bytes \<Rightarrow> bytes option \<Rightarrow> ClientLine option" where
  "receive_round rest result =
     (case map_option (take MAX_DATAGRAM) result of
        None \<Rightarrow> None
      | Some dgram \<Rightarrow>
          if length dgram < sizeof_MessageHeader then None
          else
            let buffer = dgram @ rest;
                header = get_header buffer;
                declaredLen = unat (mh_length header);
                actualLen = length dgram;
                useLen = (if declaredLen > 0 \<and> declaredLen \<le> actualLen then declaredLen else actualLen)
            in handleMarketData header buffer useLen)"

text \<open>The lines printed by \<open>loop\<close> until \<open>stop\<close> ends it; the behaviour of each round is its own.\<close>

definition receive_loop :: "(bytes \<times> bytes option) list \<Rightarrow> ClientLine list" where
  "receive_loop rounds =
     concat (map (\<lambda>(rest, result). case receive_round rest result of None \<Rightarrow> [] | Some l \<Rightarrow> [l]) rounds)"

section \<open>The whole program\<close>

text \<open>
  \<open>main\<close>, with the results of the receiver's socket calls and the lines of the standard input:
  a run that ends normally leaves its sockets' traffic and the stopped receiver. Making the ZMQ
  socket and connecting it are taken to succeed.
\<close>

definition client_main ::
  "string list \<Rightarrow> int \<Rightarrow> bool \<Rightarrow> bool \<Rightarrow> bool \<Rightarrow> string list \<Rightarrow> ClientState \<Rightarrow>
   (Receiver \<times> ClientState) outcome" where
  "client_main args fd bind_ok pton_ok join_ok lines c =
     (case parseArgs default_Args args of
        Exit n \<Rightarrow> Exit n
      | Undefined \<Rightarrow> Undefined
      | Run a \<Rightarrow>
          let (started, r) = receiver_start fd bind_ok pton_ok join_ok \<lparr>rx_socketFd = -1, rx_running = False\<rparr>
          in if \<not> started then Exit 1
             else Run (receiver_stop r, client_loop lines (send_demo a c)))"

text \<open>The requests that the typed lines ask for, up to the line that ends the loop.\<close>

fun typed_requests :: "(nat \<Rightarrow> Timestamp) \<Rightarrow> string list \<Rightarrow> InboundBody list" where
  "typed_requests now [] = []"
| "typed_requests now (line # lines) =
     (case client_command (now 0) line of
        QuitLoop \<Rightarrow> []
      | SendRequest body \<Rightarrow> body # typed_requests (\<lambda>n. now (Suc n)) lines
      | _ \<Rightarrow> typed_requests now lines)"

lemma await_response_keeps [simp]:
  "cl_sent (await_response c) = cl_sent c" "cl_clock (await_response c) = cl_clock c"
  by (auto simp: await_response_def print_line_def zmqRecvPayload_def Let_def
      split: option.splits prod.splits list.splits if_splits)

lemma print_line_keeps [simp]:
  "cl_sent (print_line l c) = cl_sent c" "cl_clock (print_line l c) = cl_clock c"
  by (simp_all add: print_line_def split: option.split)

lemma client_loop_sends:
  "cl_sent (client_loop lines c) = cl_sent c @ map (\<lambda>b. [[], put_request b]) (typed_requests (cl_clock c) lines)"
  by (induction lines c rule: client_loop.induct) (simp_all add: zmqSendStruct_def split: ClientAction.split)

text \<open>Whatever is answered, the client sends the demo order, if asked to, and then one message a command.\<close>

lemma client_main_sends:
  assumes "client_main args fd bind_ok pton_ok join_ok lines c = Run (r, c')"
  obtains a where "parseArgs default_Args args = Run a" "\<not> rx_running r"
    "cl_sent c' = cl_sent (send_demo a c) @
       map (\<lambda>b. [[], put_request b]) (typed_requests (cl_clock (send_demo a c)) lines)"
    "length (cl_sent (send_demo a c)) = length (cl_sent c) + (if arg_demo a then 1 else 0)"
proof -
  from assms obtain a where a: "parseArgs default_Args args = Run a" "c' = client_loop lines (send_demo a c)"
    "\<not> rx_running r"
    by (auto simp: client_main_def Let_def receiver_stop_def split: outcome.splits prod.splits if_splits)
  moreover have "length (cl_sent (send_demo a c)) = length (cl_sent c) + (if arg_demo a then 1 else 0)"
    by (simp add: send_demo_def zmqSendStruct_def)
  ultimately show thesis using that client_loop_sends by blast
qed

section \<open>The client prints what the exchange sent\<close>

text \<open>A response that says of itself what it is, as \<open>MatchingEngine\<close> builds them.\<close>

primrec response_header :: "OutboundBody \<Rightarrow> MessageHeader" where
  "response_header (OrderAckBody m) = oa_header m"
| "response_header (OrderRejectBody m) = or_header m"
| "response_header (ExecReportBody m) = er_header m"
| "response_header (CancelAckBody m) = ca_header m"
| "response_header (CancelRejectBody m) = cr_header m"
| "response_header (ModifyAckBody m) = ma_header m"
| "response_header (ModifyRejectBody m) = mr_header m"

primrec response_type :: "OutboundBody \<Rightarrow> MessageType" where
  "response_type (OrderAckBody m) = ORDER_ACK"
| "response_type (OrderRejectBody m) = ORDER_REJECT"
| "response_type (ExecReportBody m) = EXECUTION_REPORT"
| "response_type (CancelAckBody m) = CANCEL_ACK"
| "response_type (CancelRejectBody m) = CANCEL_REJECT"
| "response_type (ModifyAckBody m) = MODIFY_ACK"
| "response_type (ModifyRejectBody m) = MODIFY_REJECT"

definition framed_response :: "OutboundBody \<Rightarrow> bool" where
  "framed_response body \<longleftrightarrow> mh_type (response_header body) = response_type body \<and>
     unat (mh_length (response_header body)) = sizeof_response body"

primrec response_line :: "OutboundBody \<Rightarrow> ClientLine" where
  "response_line (OrderAckBody m) = OrderAckLine (oa_clientOrderId m) (oa_orderId m) (oa_status m)"
| "response_line (OrderRejectBody m) = OrderRejectLine (or_clientOrderId m) (RejectReason_code (or_reason m))"
| "response_line (ExecReportBody m) = ExecLine (er_orderId m) (er_tradeId m) (er_execPrice m)
     (er_execQty m) (er_leavesQty m) (er_side m)"
| "response_line (CancelAckBody m) = CancelAckLine (ca_clientOrderId m) (ca_orderId m)"
| "response_line (CancelRejectBody m) = CancelRejectLine (cr_clientOrderId m) (cr_orderId m)
     (RejectReason_code (cr_reason m))"
| "response_line (ModifyAckBody m) = ModifyAckLine (ma_clientOrderId m) (ma_orderId m)
     (ma_newPrice m) (ma_newQuantity m)"
| "response_line (ModifyRejectBody m) = ModifyRejectLine (mr_clientOrderId m) (mr_orderId m)
     (RejectReason_code (mr_reason m))"

lemma get_header_response: "get_header (put_response body) = response_header body"
  by (cases body) (simp_all add: get_put_header)

lemma printResponse_put:
  assumes "framed_response body"
  shows "printResponse (put_response body) = Some (response_line body)"
proof -
  have "sizeof_MessageHeader \<le> sizeof_response body" by (cases body) (simp_all add: sizeof_defs)
  then show ?thesis
    using assms get_header_response [of body] length_put_response [of body]
    by (cases body) (simp_all add: printResponse_def framed_response_def Let_def message_type_defs
        field_def byte_at_def sizeof_defs)
qed

end
