(* ===== verification/Engine_Framing.thy ===== *)
theory Engine_Framing
  imports Engine_Properties Client
begin

text \<open>
  What the engine puts on its two outgoing queues is always well framed: the header names the
  struct that follows and its \<^verbatim>\<open>sizeof\<close>, and a symbol field has its eight bytes. The receiving
  side (\<open>printResponse\<close>, the multicast receiver) therefore decodes every message, and prints
  exactly the fields that the engine filled in.
\<close>

section \<open>Framed market data\<close>

primrec market_header :: "MarketDataMessage \<Rightarrow> MessageHeader" where
  "market_header (TickMsg m) = tick_header m"
| "market_header (TradeMsg m) = tu_header m"
| "market_header (SnapshotMsg m) = obs_header m"

primrec market_type :: "MarketDataMessage \<Rightarrow> MessageType" where
  "market_type (TickMsg m) = TICK_UPDATE"
| "market_type (TradeMsg m) = TRADE_UPDATE"
| "market_type (SnapshotMsg m) = ORDERBOOK_SNAPSHOT"

primrec market_shape :: "MarketDataMessage \<Rightarrow> bool" where
  "market_shape (TickMsg m) = (length (tick_symbol m) = SYMBOL_LENGTH)"
| "market_shape (TradeMsg m) = (length (tu_symbol m) = SYMBOL_LENGTH)"
| "market_shape (SnapshotMsg m) = (length (obs_symbol m) = SYMBOL_LENGTH \<and>
     length (obs_bids m) = MAX_DEPTH_LEVELS \<and> length (obs_asks m) = MAX_DEPTH_LEVELS)"

primrec sizeof_market :: "MarketDataMessage \<Rightarrow> nat" where
  "sizeof_market (TickMsg m) = sizeof_TickUpdate"
| "sizeof_market (TradeMsg m) = sizeof_TradeUpdate"
| "sizeof_market (SnapshotMsg m) = sizeof_OrderbookSnapshot"

definition framed_market :: "MarketDataMessage \<Rightarrow> bool" where
  "framed_market m \<longleftrightarrow> mh_type (market_header m) = market_type m \<and>
     unat (mh_length (market_header m)) = sizeof_market m \<and> market_shape m"

definition shown_symbol :: "bytes \<Rightarrow> bytes" where
  "shown_symbol s = takeWhile (\<lambda>c. c \<noteq> 0) s"

primrec market_line :: "MarketDataMessage \<Rightarrow> ClientLine" where
  "market_line (TickMsg m) = TickLine (shown_symbol (tick_symbol m)) (tick_lastPrice m)
     (tick_lastQty m) (tick_bidPrice m) (tick_bidQty m) (tick_askPrice m) (tick_askQty m)"
| "market_line (TradeMsg m) = TradeLine (shown_symbol (tu_symbol m)) (tu_tradeId m) (tu_price m)
     (tu_quantity m) (tu_aggressorSide m)"
| "market_line (SnapshotMsg m) = SnapLine (shown_symbol (obs_symbol m)) (obs_bidLevels m) (obs_askLevels m)"

lemma length_put_levels:
  "length (concat (map put_PriceLevel ls)) = sizeof_PriceLevel * length ls"
  by (induction ls) (simp_all add: put_PriceLevel_def sizeof_defs)

lemma length_put_market_data:
  "market_shape m \<Longrightarrow> length (put_market_data m) = sizeof_market m"
  by (cases m) (simp_all add: length_put_levels sizeof_defs SYMBOL_LENGTH_def MAX_DEPTH_LEVELS_def)

lemma get_header_market: "get_header (put_market_data m @ rest) = market_header m"
  by (cases m) (simp_all add: get_put_header)

lemma handleMarketData_put:
  assumes "framed_market m"
  shows "handleMarketData (market_header m) (put_market_data m @ rest) (sizeof_market m) = Some (market_line m)"
  using assms
  by (cases m) (simp_all add: framed_market_def handleMarketData_def message_type_defs
      symbol_at_def shown_symbol_def field_def byte_at_def sizeof_defs SYMBOL_LENGTH_def)

lemma receive_round_put:
  assumes "framed_market m"
  shows "receive_round rest (Some (put_market_data m)) = Some (market_line m)"
proof -
  have len: "length (put_market_data m) = sizeof_market m"
    using assms by (simp add: framed_market_def length_put_market_data)
  have size: "sizeof_MessageHeader \<le> sizeof_market m" "sizeof_market m \<le> MAX_DATAGRAM"
    "0 < sizeof_market m"
    by (cases m; simp add: sizeof_defs MAX_DATAGRAM_def)+
  with len assms handleMarketData_put [OF assms, of rest] get_header_market [of m rest] show ?thesis
    by (simp add: receive_round_def Let_def framed_market_def)
qed

section \<open>Every message the engine sends is framed\<close>

definition well_framed :: "Engine \<Rightarrow> bool" where
  "well_framed e \<longleftrightarrow>
     rb_inv OUTBOUND_QUEUE_SIZE (outboundQueue e) \<and> rb_inv FEED_QUEUE_SIZE (feedQueue e) \<and>
     (\<forall>m\<in>set (rb_list OUTBOUND_QUEUE_SIZE (outboundQueue e)). framed_response (om_body m)) \<and>
     (\<forall>m\<in>set (rb_list FEED_QUEUE_SIZE (feedQueue e)). framed_market m)"

lemma well_framed_queues:
  "outboundQueue e' = outboundQueue e \<Longrightarrow> feedQueue e' = feedQueue e \<Longrightarrow> well_framed e' = well_framed e"
  by (simp add: well_framed_def)

text \<open>A push adds nothing to the queue but the pushed message.\<close>

context bounded_queue
begin

lemma push_all_members:
  assumes "inv q" and "Ball (set (contents q)) P" and "P x"
  shows "Ball (set (contents (snd (push x q)))) P"
  using assms push_contents(2) [OF assms(1), of x] by (auto dest: in_set_takeD)

end

lemma well_framed_fields [simp]:
  "well_framed (e\<lparr>clock := f\<rparr>) = well_framed e"
  "well_framed (e\<lparr>clock := f, nextTradeId := tid\<rparr>) = well_framed e"
  "well_framed (e\<lparr>orderbook := b\<rparr>) = well_framed e"
  "well_framed (e\<lparr>orderbook := b, next_address := x\<rparr>) = well_framed e"
  "well_framed (e\<lparr>nextOrderId := i\<rparr>) = well_framed e"
  "well_framed (e\<lparr>ordersProcessed := n\<rparr>) = well_framed e"
  "well_framed (e\<lparr>tradesExecuted := n, lastTradePrice := p, lastTradeQty := q\<rparr>) = well_framed e"
  "well_framed (e\<lparr>sessionOrders := so, orderToSession := os, orderToClientOrderId := oc\<rparr>) = well_framed e"
  "well_framed (e\<lparr>sessionOrders := so\<rparr>) = well_framed e"
  "well_framed (e\<lparr>orderbook := b, orderToSession := os, orderToClientOrderId := oc\<rparr>) = well_framed e"
  "well_framed (e\<lparr>inboundQueue := iq\<rparr>) = well_framed e"
  "well_framed (e\<lparr>running := r\<rparr>) = well_framed e"
  by (simp_all add: well_framed_def)

lemma framed_push_outbound:
  assumes "well_framed e" and "framed_response body"
  shows "well_framed (push_outbound sid body e)"
  using assms outbound.push_contents(1) [of "outboundQueue e"]
    outbound.push_all_members [of "outboundQueue e" "\<lambda>m. framed_response (om_body m)"
      "\<lparr>om_sessionId = sid, om_body = body\<rparr>"]
  by (simp add: push_outbound_def well_framed_def)

lemma framed_push_feed:
  assumes "well_framed e" and "framed_market m"
  shows "well_framed (push_feed m e)"
  using assms feed.push_contents(1) [of "feedQueue e"]
    feed.push_all_members [of "feedQueue e" framed_market]
  by (simp add: push_feed_def well_framed_def)

lemmas sender_defs = sendOrderAck_def sendOrderReject_def sendExecutionReport_def sendCancelAck_def
  sendCancelReject_def sendModifyAck_def sendModifyReject_def publishTradeUpdate_def
  publishTickUpdate_def make_header_def read_clock_def new_MessageHeader_def Let_def

lemma framed_senders [intro]:
  assumes "well_framed e"
  shows "well_framed (sendOrderAck sid cid oid status e)"
    and "well_framed (sendOrderReject sid cid reason e)"
    and "well_framed (sendExecutionReport sid oid p q leaves side e)"
    and "well_framed (sendCancelAck sid cid oid e)"
    and "well_framed (sendCancelReject sid cid oid reason e)"
    and "well_framed (sendModifyAck sid cid oid p q e)"
    and "well_framed (sendModifyReject sid cid oid reason e)"
    and "well_framed (publishTradeUpdate trade side e)"
    and "well_framed (publishTickUpdate e)"
  unfolding sender_defs prod.case using assms
  by (auto intro!: framed_push_outbound framed_push_feed split: prod.splits
      simp: framed_response_def framed_market_def sizeof_defs length_symbol_field)

section \<open>Every handler keeps the queues framed\<close>

lemma framed_track [simp]:
  "well_framed (track_order sid orderId cid e) = well_framed e"
  "well_framed (untrack_order sid orderId e) = well_framed e"
  "well_framed (cancel_session_order orderId e) = well_framed e"
  by (simp_all add: track_order_def untrack_order_def cancel_session_order_def well_framed_def)

lemma framed_report_trade: "well_framed e \<Longrightarrow> well_framed (report_trade sid orderId side x trade e)"
  by (auto simp: report_trade_def Let_def intro!: framed_senders split: option.split)

lemma framed_report_modify_trade: "well_framed e \<Longrightarrow> well_framed (report_modify_trade orderId trade e)"
  by (auto simp: report_modify_trade_def Let_def intro!: framed_senders)

lemma framed_fold: "(\<And>x e. well_framed e \<Longrightarrow> well_framed (f x e)) \<Longrightarrow> well_framed e \<Longrightarrow> well_framed (fold f xs e)"
  by (induction xs arbitrary: e) auto

lemma framed_accept: "well_framed e \<Longrightarrow> well_framed (accept_order sid request side orderType e)"
  unfolding accept_order_def read_clock_def make_shared_def report_trades_def Let_def prod.case
  by (auto intro!: framed_senders framed_fold framed_report_trade)

lemma framed_handlers:
  assumes "well_framed e"
  shows "well_framed (handleNewOrder sid nr e)"
    and "well_framed (handleCancelOrder sid cr e)"
    and "well_framed (handleModifyOrder sid mr e)"
    and "well_framed (cancelSessionOrders sid ids e)"
  using assms
  by (auto simp: handleNewOrder_def handleCancelOrder_def handleModifyOrder_def
      cancelSessionOrders_def Let_def
      intro!: framed_senders framed_fold framed_accept framed_report_modify_trade split: option.split)

lemma framed_new_engine:
  "well_framed (new_engine (mpsc_new d1) (spsc_new d2) (spsc_new d3) sym_name time)"
  using rb_inv_new [OF queue_sizes_are_capacities(2), of d2] rb_inv_new [OF queue_sizes_are_capacities(3), of d3]
  by (simp add: well_framed_def new_engine_def rb_list_def rb_count_def spsc_new_def)

lemma in_set_tl: "x \<in> set (tl xs) \<Longrightarrow> x \<in> set xs"
  by (cases xs) simp_all

lemma framed_pops:
  assumes "well_framed e"
  shows "well_framed (e\<lparr>outboundQueue := snd (spsc_pop OUTBOUND_QUEUE_SIZE (outboundQueue e))\<rparr>)"
    and "well_framed (e\<lparr>feedQueue := snd (spsc_pop FEED_QUEUE_SIZE (feedQueue e))\<rparr>)"
  using assms outbound.pop_contents(1,2) [of "outboundQueue e"] feed.pop_contents(1,2) [of "feedQueue e"]
  by (auto simp: well_framed_def dest: in_set_tl)

lemma reachable_well_framed: "engine_reachable e \<Longrightarrow> well_framed e"
proof (induction rule: engine_reachable.induct)
  case (engine_process e msg)
  then show ?case
    by (simp add: processInboundMessage_def framed_handlers split: InboundBody.split)
qed (simp_all add: framed_new_engine framed_pops framed_handlers push_inbound_def pop_inbound_def
    split: prod.split)

section \<open>Property\<close>

text \<open>
  Property C32. Whatever the engine has been through, every message that waits on its outgoing
  queues is well typed on the wire: the header carries the type of the struct and the number of its
  bytes, and the receiving programs decode the bytes back to exactly the fields that the engine
  filled in, whatever follows them in the receive buffer.
\<close>

theorem queued_messages_decode:
  assumes "engine_reachable e"
  shows "(\<forall>m\<in>set (rb_list OUTBOUND_QUEUE_SIZE (outboundQueue e)).
       mh_type (get_header (put_response (om_body m))) = response_type (om_body m) \<and>
       unat (mh_length (get_header (put_response (om_body m)))) = length (put_response (om_body m)) \<and>
       printResponse (put_response (om_body m)) = Some (response_line (om_body m))) \<and>
    (\<forall>m\<in>set (rb_list FEED_QUEUE_SIZE (feedQueue e)).
       mh_type (get_header (put_market_data m)) = market_type m \<and>
       unat (mh_length (get_header (put_market_data m))) = length (put_market_data m) \<and>
       receive_round rest (Some (put_market_data m)) = Some (market_line m))"
  using reachable_well_framed [OF assms] get_header_market [of _ "[]"]
  by (auto simp: well_framed_def framed_response_def framed_market_def get_header_response
      length_put_response length_put_market_data printResponse_put receive_round_put)

text \<open>A cancel of an order that does not exist, as the client sees the answer.\<close>

theorem queued_messages_decode_witness:
  "\<exists>m. rb_list OUTBOUND_QUEUE_SIZE (outboundQueue
         (processInboundMessage \<lparr>im_sessionId = 7, im_body = CancelOrderBody (example_cancel 5 9)\<rparr>
            example_engine)) = [m] \<and>
     printResponse (put_response (om_body m)) = Some (CancelRejectLine 5 9 (RejectReason_code ORDER_NOT_FOUND))"
proof -
  let ?msg = "\<lparr>im_sessionId = 7, im_body = CancelOrderBody (example_cancel 5 9)\<rparr>"
  let ?e = "processInboundMessage ?msg example_engine"
  have "\<exists>m. rb_list OUTBOUND_QUEUE_SIZE (outboundQueue ?e) = [m] \<and>
      response_line (om_body m) = CancelRejectLine 5 9 (RejectReason_code ORDER_NOT_FOUND)"
    by (simp add: processInboundMessage_def handleCancelOrder_def example_engine_def new_engine_def
        example_cancel_def sender_defs push_outbound_def spsc_push_def OUTBOUND_QUEUE_SIZE_def
        spsc_new_def rb_list_def rb_count_def rb_index_def)
  then obtain m where m: "rb_list OUTBOUND_QUEUE_SIZE (outboundQueue ?e) = [m]"
    "response_line (om_body m) = CancelRejectLine 5 9 (RejectReason_code ORDER_NOT_FOUND)" by blast
  have "engine_reachable ?e"
    by (rule engine_process [OF example_engine_reachable example_engine_fields(5)])
  from queued_messages_decode [OF this] m show ?thesis by auto
qed

end
