(* ===== verification/Engine_Actions.thy ===== *)
theory Engine_Actions
  imports Engine_Framing
begin

text \<open>
  A handler of \<open>MatchingEngine\<close> as the sequence of its pushes. What the handler computes before its
  first push touches only the members that no other thread reads (\<open>begin_message\<close>); after it come
  the pushes in the order of the code, each with the private code beside it, as a list of
  \<open>EngineAction\<close>s. Running the list without interruption is the handler (\<open>begin_message_run\<close>);
  in \<open>Exchange_System\<close> the other threads move between any two of them.
\<close>

section \<open>Actions\<close>

datatype EngineAction =
    PublishTrade Trade BuySell
  | ReportAggressor SessionId OrderId BuySell OrderPointer Trade
  | ReportPassive BuySell Trade
  | AckOrder SessionId ClientOrderId OrderId OrderPointer
  | RejectOrder SessionId ClientOrderId RejectReason
  | AckCancel SessionId ClientOrderId OrderId
  | RejectCancel SessionId ClientOrderId OrderId RejectReason
  | AckModify SessionId ClientOrderId OrderId Price Quantity
  | RejectModify SessionId ClientOrderId OrderId RejectReason
  | PublishTick

primrec do_action :: "EngineAction \<Rightarrow> Engine \<Rightarrow> Engine" where
  "do_action (PublishTrade trade side) e =
     publishTradeUpdate trade side
       (e\<lparr>tradesExecuted := tradesExecuted e + 1,
          lastTradePrice := tr_price trade, lastTradeQty := tr_quantity trade\<rparr>)"
| "do_action (ReportAggressor sid orderId side x trade) e =
     sendExecutionReport sid orderId (tr_price trade) (tr_quantity trade)
       (getQuantity (obj (orderbook e) x)) side e"
| "do_action (ReportPassive side trade) e =
     (let passiveOrderId = (if side = BUY then sellOrderId trade else buyOrderId trade)
      in case orderToSession e passiveOrderId of
           None \<Rightarrow> e
         | Some passiveSessionId \<Rightarrow>
             sendExecutionReport passiveSessionId passiveOrderId (tr_price trade)
               (tr_quantity trade) 0 (if side = BUY then SELL else BUY) e)"
| "do_action (AckOrder sid clientOrderId orderId x) e =
     (let ord = obj (orderbook e) x;
          e' = sendOrderAck sid clientOrderId orderId (getOrderStatus ord) e
      in if isFilled ord \<or> getOrderStatus ord = CANCELLED then untrack_order sid orderId e' else e')"
| "do_action (RejectOrder sid clientOrderId reason) e = sendOrderReject sid clientOrderId reason e"
| "do_action (AckCancel sid clientOrderId orderId) e = sendCancelAck sid clientOrderId orderId e"
| "do_action (RejectCancel sid clientOrderId orderId reason) e =
     sendCancelReject sid clientOrderId orderId reason e"
| "do_action (AckModify sid clientOrderId orderId newPrice newQty) e =
     sendModifyAck sid clientOrderId orderId newPrice newQty e"
| "do_action (RejectModify sid clientOrderId orderId reason) e =
     sendModifyReject sid clientOrderId orderId reason e"
| "do_action PublishTick e = publishTickUpdate e"

definition run_actions :: "EngineAction list \<Rightarrow> Engine \<Rightarrow> Engine" where
  "run_actions actions e = fold do_action actions e"

lemma run_actions_simps [simp]:
  "run_actions [] e = e"
  "run_actions (a # as) e = run_actions as (do_action a e)"
  "run_actions (as @ bs) e = run_actions bs (run_actions as e)"
  by (simp_all add: run_actions_def)

section \<open>Up to the first push\<close>

definition trade_actions :: "SessionId \<Rightarrow> OrderId \<Rightarrow> BuySell \<Rightarrow> OrderPointer \<Rightarrow> Trade \<Rightarrow> EngineAction list" where
  "trade_actions sid orderId side x trade =
     [PublishTrade trade side, ReportAggressor sid orderId side x trade, ReportPassive side trade]"

definition begin_accept ::
  "SessionId \<Rightarrow> NewOrderRequest \<Rightarrow> BuySell \<Rightarrow> OrderType \<Rightarrow> Engine \<Rightarrow> Engine \<times> EngineAction list" where
  "begin_accept sid request side orderType e =
     (let orderId = nextOrderId e;
          e1 = e\<lparr>nextOrderId := orderId + 1\<rparr>;
          (timestamp, e2) = read_clock e1;
          (x, e3) = make_shared
            \<lparr>getPrice = nor_price request, getQuantity = nor_quantity request,
             getTimestamp = timestamp, getOrderId = orderId, getOrderType = orderType,
             getBuySell = side, getOrderStatus = NEW, getSessionId = sid,
             getClientOrderId = nor_clientOrderId request\<rparr> e2;
          e4 = track_order sid orderId (nor_clientOrderId request) e3;
          e5 = e4\<lparr>orderbook := AddOrder x (orderbook e4)\<rparr>
      in (e5, concat (map (trade_actions sid orderId side x) (GetRecentTrades (orderbook e5))) @
            [AckOrder sid (nor_clientOrderId request) orderId x, PublishTick]))"

definition begin_new_order :: "SessionId \<Rightarrow> NewOrderRequest \<Rightarrow> Engine \<Rightarrow> Engine \<times> EngineAction list" where
  "begin_new_order sid request e0 =
     (let e = e0\<lparr>ordersProcessed := ordersProcessed e0 + 1\<rparr>;
          side = BuySell_cast (nor_side request);
          orderType = OrderType_cast (nor_orderType request);
          reject = (\<lambda>reason. (e, [RejectOrder sid (nor_clientOrderId request) reason]))
      in if side \<noteq> Some BUY \<and> side \<noteq> Some SELL then reject INVALID_SIDE
         else if orderType \<noteq> Some LIMIT \<and> orderType \<noteq> Some MARKET \<and> orderType \<noteq> Some IOC
         then reject INVALID_ORDER_TYPE
         else if nor_quantity request = 0 then reject INVALID_QUANTITY
         else if orderType = Some LIMIT \<and> sint (nor_price request) \<le> 0 then reject INVALID_PRICE
         else begin_accept sid request (the side) (the orderType) e)"

definition begin_cancel :: "SessionId \<Rightarrow> CancelOrderRequest \<Rightarrow> Engine \<Rightarrow> Engine \<times> EngineAction list" where
  "begin_cancel sid request e =
     (let reject = (e, [RejectCancel sid (cor_clientOrderId request) (cor_orderId request) ORDER_NOT_FOUND])
      in case orderToSession e (cor_orderId request) of
           None \<Rightarrow> reject
         | Some orderSessionId \<Rightarrow>
             if orderSessionId \<noteq> sid \<and> sid \<noteq> DUMMY_SESSION_ID then reject
             else (untrack_order orderSessionId (cor_orderId request)
                     (e\<lparr>orderbook := CancelOrder (cor_orderId request) (orderbook e)\<rparr>),
                   [AckCancel sid (cor_clientOrderId request) (cor_orderId request), PublishTick]))"

definition begin_modify :: "SessionId \<Rightarrow> ModifyOrderRequest \<Rightarrow> Engine \<Rightarrow> Engine \<times> EngineAction list" where
  "begin_modify sid request e =
     (let i = mor_orderId request;
          reject = (\<lambda>reason. (e, [RejectModify sid (mor_clientOrderId request) i reason]))
      in case orderToSession e i of
           None \<Rightarrow> reject ORDER_NOT_FOUND
         | Some orderSessionId \<Rightarrow>
             if orderSessionId \<noteq> sid \<and> sid \<noteq> DUMMY_SESSION_ID then reject ORDER_NOT_FOUND
             else if sint (mor_newPrice request) \<le> 0 then reject INVALID_PRICE
             else if mor_newQuantity request = 0 then reject INVALID_QUANTITY
             else
               let b = ModifyOrder i (mor_newPrice request) (mor_newQuantity request) (orderbook e)
               in (e\<lparr>orderbook := b\<rparr>,
                   map (\<lambda>t. PublishTrade t (if buyOrderId t = i then BUY else SELL)) (GetRecentTrades b) @
                   [AckModify sid (mor_clientOrderId request) i (mor_newPrice request) (mor_newQuantity request),
                    PublishTick]))"

definition begin_message :: "InboundMessage \<Rightarrow> Engine \<Rightarrow> Engine \<times> EngineAction list" where
  "begin_message msg e =
     (case im_body msg of
        NewOrderBody request \<Rightarrow> begin_new_order (im_sessionId msg) request e
      | CancelOrderBody request \<Rightarrow> begin_cancel (im_sessionId msg) request e
      | ModifyOrderBody request \<Rightarrow> begin_modify (im_sessionId msg) request e)"

section \<open>Run without interruption, the actions are the handler\<close>

lemma publish_keeps_books [simp]:
  "orderbook (publishTradeUpdate t side e) = orderbook e"
  "orderToSession (publishTradeUpdate t side e) = orderToSession e"
  "symbol (publishTradeUpdate t side e) = symbol e"
  using says_publishTradeUpdate [of e t side] by (simp_all add: says_def same_books_def)

lemma report_trade_actions: "run_actions (trade_actions sid i side x t) e = report_trade sid i side x t e"
  by (simp add: trade_actions_def report_trade_def Let_def split: option.split)

lemma report_trades_actions:
  "run_actions (concat (map (trade_actions sid i side x) ts)) e = report_trades sid i side x ts e"
  by (induction ts arbitrary: e) (simp_all add: report_trades_def report_trade_actions)

lemma modify_trades_actions:
  "run_actions (map (\<lambda>t. PublishTrade t (if buyOrderId t = i then BUY else SELL)) ts) e =
   fold (report_modify_trade i) ts e"
  by (induction ts arbitrary: e) (simp_all add: report_modify_trade_def Let_def)

lemma begin_accept_run:
  "(case begin_accept sid request side type e of (e', as) \<Rightarrow> run_actions as e') =
   accept_order sid request side type e"
  by (simp add: begin_accept_def accept_order_def report_trades_actions Let_def split_beta)

lemma begin_message_run:
  "(case begin_message msg e of (e', as) \<Rightarrow> run_actions as e') = processInboundMessage msg e"
  by (auto simp: begin_message_def processInboundMessage_def begin_new_order_def handleNewOrder_def
      begin_accept_run begin_cancel_def handleCancelOrder_def begin_modify_def handleModifyOrder_def
      modify_trades_actions Let_def split: InboundBody.split option.split)

end
