(* ===== verification/Market_Spec.thy ===== *)
theory Market_Spec
  imports Engine_Effects
begin

text \<open>
  The exchange as its clients see it: a sequential market that takes one request after the other,
  answers it at once and publishes market data. It has two queues of entries instead of levels
  and pointers, no message queues, no clock and no order objects; everything it decides it
  decides from the request, the owner table and the abstract book of \<open>Book_Spec\<close>. All
  definitions compute. \<open>Market_Refinement\<close> shows that \<open>MatchingEngine\<close> is this market.
\<close>

section \<open>The market\<close>

record Market =
  mk_book :: Book
  mk_owner :: "OrderId \<rightharpoonup> SessionId"
  mk_orderId :: OrderId
  mk_tradeId :: TradeId
  mk_lastPrice :: Price
  mk_lastQty :: Quantity
  mk_trades :: "Trade list"

definition new_market :: Market where
  "new_market = \<lparr>mk_book = \<lparr>bid_queue = [], ask_queue = []\<rparr>, mk_owner = Map.empty, mk_orderId = 1,
     mk_tradeId = 1, mk_lastPrice = 0, mk_lastQty = 0, mk_trades = []\<rparr>"

text \<open>What a request makes the market say to clients and to the feed, and the market afterwards.\<close>

type_synonym Reaction = "OutboundMessage list \<times> MarketDataMessage list \<times> Market"

text \<open>
  The best price of a side with the quantity there. The quantity is shown in 32 bits, and a price
  whose quantity shows as 0 is not shown at all.
\<close>

definition shown_quote :: "Entry list \<Rightarrow> Price \<times> Quantity" where
  "shown_quote es =
     (if es = [] \<or> 2 ^ 32 dvd best_depth es then (0, 0)
      else (e_price (hd es), word_of_nat (best_depth es)))"

definition market_tick :: "8 word list \<Rightarrow> Market \<Rightarrow> MarketDataMessage" where
  "market_tick sym_name M =
     (let (bidPrice, bidQty) = shown_quote (bid_queue (mk_book M));
          (askPrice, askQty) = shown_quote (ask_queue (mk_book M))
      in TickMsg \<lparr>tick_header = new_MessageHeader TICK_UPDATE (word_of_nat sizeof_TickUpdate) 0,
           tick_symbol = symbol_field sym_name, tick_lastPrice = mk_lastPrice M, tick_lastQty = mk_lastQty M,
           tick_bidPrice = bidPrice, tick_askPrice = askPrice, tick_bidQty = bidQty, tick_askQty = askQty\<rparr>)"

text \<open>The prices that an order trades at: every price, or those no worse than its own.\<close>

definition takes_price :: "BuySell \<Rightarrow> OrderType \<Rightarrow> Price \<Rightarrow> Price \<Rightarrow> bool" where
  "takes_price side type limit p \<longleftrightarrow> type = MARKET \<or> type = IOC \<or>
     (if side = BUY then sint p \<le> sint limit else sint limit \<le> sint p)"

text \<open>The trades of a book operation, and the last trade after it.\<close>

definition with_trades :: "Trade list \<Rightarrow> Market \<Rightarrow> Market" where
  "with_trades ts M = M\<lparr>mk_trades := ts, mk_lastPrice := last_price (mk_lastPrice M) ts,
     mk_lastQty := last_qty (mk_lastQty M) ts\<rparr>"

section \<open>New orders\<close>

definition order_fault :: "NewOrderRequest \<Rightarrow> RejectReason option" where
  "order_fault request =
     (if nor_side request \<notin> {BuySell_code BUY, BuySell_code SELL} then Some INVALID_SIDE
      else if nor_orderType request \<notin> {OrderType_code LIMIT, OrderType_code MARKET, OrderType_code IOC}
      then Some INVALID_ORDER_TYPE
      else if nor_quantity request = 0 then Some INVALID_QUANTITY
      else if nor_orderType request = OrderType_code LIMIT \<and> sint (nor_price request) \<le> 0 then Some INVALID_PRICE
      else None)"

lemma order_fault_none:
  assumes "order_fault request = None"
  obtains side type where "acceptable request side type"
proof -
  have ok: "nor_side request \<in> {BuySell_code BUY, BuySell_code SELL}"
    "nor_orderType request \<in> {OrderType_code LIMIT, OrderType_code MARKET, OrderType_code IOC}"
    "nor_quantity request \<noteq> 0" "nor_orderType request = OrderType_code LIMIT \<Longrightarrow> 0 < sint (nor_price request)"
    using assms unfolding order_fault_def by (metis option.distinct(1) not_less)+
  from ok(1) obtain side where "side \<in> {BUY, SELL}" "nor_side request = BuySell_code side" by blast
  moreover from ok(2) obtain type where
    "type \<in> {LIMIT, MARKET, IOC}" "nor_orderType request = OrderType_code type" by blast
  ultimately show thesis
    using ok(3,4) by (intro that [of side type]) (auto simp: acceptable_def word_neq_0_conv)
qed

definition status_after :: "OrderType \<Rightarrow> nat \<Rightarrow> nat \<Rightarrow> OrderStatus" where
  "status_after type qty r =
     (if r = 0 then TRADED else if type \<noteq> LIMIT then CANCELLED else if r < qty then MODIFY else NEW)"

definition market_accept ::
  "8 word list \<Rightarrow> SessionId \<Rightarrow> NewOrderRequest \<Rightarrow> BuySell \<Rightarrow> OrderType \<Rightarrow> Market \<Rightarrow> Reaction" where
  "market_accept sym_name sid request side type M =
     (let i = mk_orderId M;
          qty = unat (nor_quantity request);
          (fs, r, B) = spec_add side (takes_price side type (nor_price request)) (type = LIMIT)
            \<lparr>e_price = nor_price request, e_id = i, e_qty = qty\<rparr> (mk_book M);
          ts = map (trade_of side i) fs;
          rests = (type = LIMIT \<and> 0 < r);
          M' = with_trades ts (M\<lparr>mk_book := B, mk_orderId := i + 1,
            mk_tradeId := mk_tradeId M + word_of_nat (2 * length fs),
            mk_owner := if rests then (mk_owner M)(i \<mapsto> sid) else mk_owner M\<rparr>)
      in (trade_reports (mk_owner M) sid i side (if rests then word_of_nat r else 0) (mk_tradeId M) ts @
            [order_ack sid (nor_clientOrderId request) i (status_after type qty r)],
          trade_updates sym_name side (mk_tradeId M) ts @ [market_tick sym_name M'], M'))"

definition market_new :: "8 word list \<Rightarrow> SessionId \<Rightarrow> NewOrderRequest \<Rightarrow> Market \<Rightarrow> Reaction" where
  "market_new sym_name sid request M =
     (case order_fault request of
        Some reason \<Rightarrow> ([order_reject sid (nor_clientOrderId request) reason], [], M)
      | None \<Rightarrow> market_accept sym_name sid request (the (BuySell_cast (nor_side request)))
          (the (OrderType_cast (nor_orderType request))) M)"

section \<open>Cancelling and modifying\<close>

definition permitted :: "SessionId \<Rightarrow> OrderId \<Rightarrow> Market \<Rightarrow> bool" where
  "permitted sid i M =
     (case mk_owner M i of None \<Rightarrow> False | Some s \<Rightarrow> s = sid \<or> sid = DUMMY_SESSION_ID)"

definition market_cancel :: "8 word list \<Rightarrow> SessionId \<Rightarrow> CancelOrderRequest \<Rightarrow> Market \<Rightarrow> Reaction" where
  "market_cancel sym_name sid request M =
     (let i = cor_orderId request; cid = cor_clientOrderId request;
          M' = M\<lparr>mk_book := spec_cancel i (mk_book M), mk_owner := (mk_owner M)(i := None)\<rparr>
      in if permitted sid i M then ([cancel_ack sid cid i], [market_tick sym_name M'], M')
         else ([cancel_reject sid cid i ORDER_NOT_FOUND], [], M))"

definition locate :: "OrderId \<Rightarrow> Book \<Rightarrow> (BuySell \<times> Entry) option" where
  "locate i B =
     (case List.find (\<lambda>e. e_id e = i) (bid_queue B) of
        Some e \<Rightarrow> Some (BUY, e)
      | None \<Rightarrow> map_option (Pair SELL) (List.find (\<lambda>e. e_id e = i) (ask_queue B)))"

text \<open>
  The book after a modify, and the trades it lists: an order that is not in the book, or already
  has the terms, leaves both as they are, the trades of the previous operation included.
\<close>

definition spec_modify ::
  "OrderId \<Rightarrow> Price \<Rightarrow> Quantity \<Rightarrow> Trade list \<Rightarrow> Book \<Rightarrow> Trade list \<times> Book" where
  "spec_modify i np nq before B =
     (case locate i B of
        None \<Rightarrow> (before, B)
      | Some (side, e) \<Rightarrow>
          if e_price e = np \<and> e_qty e = unat nq then (before, B)
          else (case spec_add side (takes_price side LIMIT np) True
                       \<lparr>e_price = np, e_id = i, e_qty = unat nq\<rparr> (spec_cancel i B) of
                  (fs, _, B') \<Rightarrow> (map (trade_of side i) fs, B')))"

definition market_modify :: "8 word list \<Rightarrow> SessionId \<Rightarrow> ModifyOrderRequest \<Rightarrow> Market \<Rightarrow> Reaction" where
  "market_modify sym_name sid request M =
     (let i = mor_orderId request; cid = mor_clientOrderId request;
          np = mor_newPrice request; nq = mor_newQuantity request;
          reject = (\<lambda>reason. ([modify_reject sid cid i reason], [], M))
      in if \<not> permitted sid i M then reject ORDER_NOT_FOUND
         else if sint np \<le> 0 then reject INVALID_PRICE
         else if nq = 0 then reject INVALID_QUANTITY
         else (case spec_modify i np nq (mk_trades M) (mk_book M) of
                 (ts, B) \<Rightarrow>
                   let M' = with_trades ts (M\<lparr>mk_book := B\<rparr>)
                   in ([modify_ack sid cid i np nq],
                       modify_updates sym_name (mk_tradeId M) i ts @ [market_tick sym_name M'], M')))"

section \<open>Requests\<close>

definition market_step :: "8 word list \<Rightarrow> InboundMessage \<Rightarrow> Market \<Rightarrow> Reaction" where
  "market_step sym_name msg M =
     (case im_body msg of
        NewOrderBody request \<Rightarrow> market_new sym_name (im_sessionId msg) request M
      | CancelOrderBody request \<Rightarrow> market_cancel sym_name (im_sessionId msg) request M
      | ModifyOrderBody request \<Rightarrow> market_modify sym_name (im_sessionId msg) request M)"

fun market_run ::
  "8 word list \<Rightarrow> InboundMessage list \<Rightarrow> Market \<Rightarrow>
   (OutboundMessage list \<times> MarketDataMessage list) list \<times> Market" where
  "market_run sym_name [] M = ([], M)"
| "market_run sym_name (msg # msgs) M =
     (let (outs, feeds, M1) = market_step sym_name msg M; (reactions, M2) = market_run sym_name msgs M1
      in ((outs, feeds) # reactions, M2))"

lemma market_run_snoc:
  "market_run sym_name (msgs @ [msg]) M =
     (let (reactions, M1) = market_run sym_name msgs M; (outs, feeds, M2) = market_step sym_name msg M1
      in (reactions @ [(outs, feeds)], M2))"
  by (induction msgs arbitrary: M) (simp_all add: Let_def split: prod.split)

end
