(* ===== verification/Action_Effects.thy ===== *)
theory Action_Effects
  imports Engine_Actions Market_Spec
begin

text \<open>
  What one action of a handler does: the message it hands to a queue, the invariant \<open>engine_ok\<close> of
  the engine between two actions, and the condition \<open>todo_ok\<close> on the actions that are left.
  An action reads and writes the engine's private members and the tail of an outgoing queue; so
  nothing that another thread does to the queues changes what the rest of the handler says
  (\<open>same_private\<close>).
\<close>

section \<open>What an action says\<close>

primrec action_outs :: "EngineAction \<Rightarrow> Engine \<Rightarrow> OutboundMessage list" where
  "action_outs (PublishTrade trade side) e = []"
| "action_outs (ReportAggressor sid orderId side x trade) e =
     [execution_report sid orderId (nextTradeId e) (tr_price trade) (tr_quantity trade)
        (getQuantity (obj (orderbook e) x)) side]"
| "action_outs (ReportPassive side trade) e =
     (case orderToSession e (resting_side_id side trade) of
        None \<Rightarrow> []
      | Some sid \<Rightarrow> [execution_report sid (resting_side_id side trade) (nextTradeId e) (tr_price trade)
          (tr_quantity trade) 0 (if side = BUY then SELL else BUY)])"
| "action_outs (AckOrder sid clientOrderId orderId x) e =
     [order_ack sid clientOrderId orderId (getOrderStatus (obj (orderbook e) x))]"
| "action_outs (RejectOrder sid clientOrderId reason) e = [order_reject sid clientOrderId reason]"
| "action_outs (AckCancel sid clientOrderId orderId) e = [cancel_ack sid clientOrderId orderId]"
| "action_outs (RejectCancel sid clientOrderId orderId reason) e =
     [cancel_reject sid clientOrderId orderId reason]"
| "action_outs (AckModify sid clientOrderId orderId newPrice newQty) e =
     [modify_ack sid clientOrderId orderId newPrice newQty]"
| "action_outs (RejectModify sid clientOrderId orderId reason) e =
     [modify_reject sid clientOrderId orderId reason]"
| "action_outs PublishTick e = []"

primrec action_feeds :: "EngineAction \<Rightarrow> Engine \<Rightarrow> MarketDataMessage list" where
  "action_feeds (PublishTrade trade side) e = [trade_update (symbol e) (nextTradeId e) trade side]"
| "action_feeds (ReportAggressor sid orderId side x trade) e = []"
| "action_feeds (ReportPassive side trade) e = []"
| "action_feeds (AckOrder sid clientOrderId orderId x) e = []"
| "action_feeds (RejectOrder sid clientOrderId reason) e = []"
| "action_feeds (AckCancel sid clientOrderId orderId) e = []"
| "action_feeds (RejectCancel sid clientOrderId orderId reason) e = []"
| "action_feeds (AckModify sid clientOrderId orderId newPrice newQty) e = []"
| "action_feeds (RejectModify sid clientOrderId orderId reason) e = []"
| "action_feeds PublishTick e = [tick_update (symbol e) (lastTradePrice e) (lastTradeQty e) (orderbook e)]"

text \<open>All actions but the acknowledgement of an order only send.\<close>

fun is_ack :: "EngineAction \<Rightarrow> bool" where
  "is_ack (AckOrder sid clientOrderId orderId x) = True"
| "is_ack _ = False"

lemma do_action_ack:
  "do_action (AckOrder sid cid i x) e =
   finish_order sid i (obj (orderbook e) x) (sendOrderAck sid cid i (getOrderStatus (obj (orderbook e) x)) e)"
  by (simp add: finish_order_def Let_def)

lemma do_action_says:
  assumes "\<not> is_ack a"
  shows "says e (action_outs a e) (action_feeds a e) (do_action a e)"
proof (cases a)
  case (PublishTrade t side)
  let ?e1 = "e\<lparr>tradesExecuted := tradesExecuted e + 1, lastTradePrice := tr_price t,
    lastTradeQty := tr_quantity t\<rparr>"
  have "says e [] [] ?e1" by (rule says_silent) (simp_all add: same_books_def)
  from says_trans [OF this says_publishTradeUpdate] PublishTrade show ?thesis by simp
next
  case (ReportPassive side t)
  show ?thesis
  proof (cases "orderToSession e (resting_side_id side t)")
    case None
    with ReportPassive show ?thesis
      by (simp add: resting_side_id_def [symmetric] Let_def) (simp add: says_silent same_books_def)
  next
    case (Some sid)
    with ReportPassive says_sendExecutionReport show ?thesis
      by (simp add: resting_side_id_def [symmetric] Let_def)
  qed
qed (use assms in \<open>simp_all add: says_sendExecutionReport says_sendOrderReject says_sendCancelAck
    says_sendCancelReject says_sendModifyAck says_sendModifyReject says_publishTickUpdate\<close>)

lemma do_action_emits: "emits e (action_outs a e) (action_feeds a e) (do_action a e)"
proof (cases "is_ack a")
  case True
  then obtain sid cid i x where a: "a = AckOrder sid cid i x" by (cases a) simp_all
  let ?ord = "obj (orderbook e) x"
  have "emits e (action_outs a e) (action_feeds a e) (sendOrderAck sid cid i (getOrderStatus ?ord) e)"
    using says_sendOrderAck [of e sid cid i "getOrderStatus ?ord"] by (simp add: says_def a)
  moreover have "emits e1 [] [] (finish_order sid i ?ord e1)" for e1
    by (rule emits_silent) simp_all
  ultimately have "emits e (action_outs a e @ []) (action_feeds a e @ [])
      (finish_order sid i ?ord (sendOrderAck sid cid i (getOrderStatus ?ord) e))"
    by (rule emits_trans)
  then show ?thesis unfolding a do_action_ack append_Nil2 .
next
  case False
  with do_action_says show ?thesis by (simp add: says_def)
qed

lemma do_action_frame [simp]:
  "inboundQueue (do_action a e) = inboundQueue e" "running (do_action a e) = running e"
  "orderbook (do_action a e) = orderbook e" "symbol (do_action a e) = symbol e"
  "nextOrderId (do_action a e) = nextOrderId e" "next_address (do_action a e) = next_address e"
proof -
  have "inboundQueue (do_action a e) = inboundQueue e \<and> running (do_action a e) = running e \<and>
    orderbook (do_action a e) = orderbook e \<and> symbol (do_action a e) = symbol e \<and>
    nextOrderId (do_action a e) = nextOrderId e \<and> next_address (do_action a e) = next_address e"
  proof (cases "is_ack a")
    case True
    then obtain sid cid i x where a: "a = AckOrder sid cid i x" by (cases a) simp_all
    let ?ord = "obj (orderbook e) x"
    show ?thesis
      using says_sendOrderAck [of e sid cid i "getOrderStatus ?ord"]
      by (auto simp: a says_def same_books_def untrack_order_def Let_def)
  next
    case False
    with do_action_says [of a e] show ?thesis by (simp add: says_def same_books_def)
  qed
  then show "inboundQueue (do_action a e) = inboundQueue e" "running (do_action a e) = running e"
    "orderbook (do_action a e) = orderbook e" "symbol (do_action a e) = symbol e"
    "nextOrderId (do_action a e) = nextOrderId e" "next_address (do_action a e) = next_address e"
    by blast+
qed

lemma run_actions_frame [simp]:
  "inboundQueue (run_actions as e) = inboundQueue e" "running (run_actions as e) = running e"
  "orderbook (run_actions as e) = orderbook e" "symbol (run_actions as e) = symbol e"
  "nextOrderId (run_actions as e) = nextOrderId e" "next_address (run_actions as e) = next_address e"
  by (induction as arbitrary: e) simp_all

section \<open>The private members\<close>

text \<open>The members that only the engine's own thread touches are equal.\<close>

definition same_private :: "Engine \<Rightarrow> Engine \<Rightarrow> bool" where
  "same_private e e' \<longleftrightarrow>
     orderbook e' = orderbook e \<and> symbol e' = symbol e \<and> nextOrderId e' = nextOrderId e \<and>
     nextTradeId e' = nextTradeId e \<and> sessionOrders e' = sessionOrders e \<and>
     orderToSession e' = orderToSession e \<and> orderToClientOrderId e' = orderToClientOrderId e \<and>
     lastTradePrice e' = lastTradePrice e \<and> lastTradeQty e' = lastTradeQty e \<and>
     ordersProcessed e' = ordersProcessed e \<and> tradesExecuted e' = tradesExecuted e \<and>
     clock e' = clock e \<and> next_address e' = next_address e"

lemma same_private_refl [simp]: "same_private e e"
  by (simp add: same_private_def)

lemma same_private_sym: "same_private e e' \<Longrightarrow> same_private e' e"
  by (simp add: same_private_def)

lemma same_private_fields [simp]:
  "same_private e (e\<lparr>inboundQueue := iq\<rparr>)" "same_private e (e\<lparr>outboundQueue := oq\<rparr>)"
  "same_private e (e\<lparr>feedQueue := fq\<rparr>)" "same_private e (e\<lparr>running := r\<rparr>)"
  by (simp_all add: same_private_def)

lemma same_privateD:
  assumes "same_private e e'"
  shows "orderbook e' = orderbook e" "symbol e' = symbol e" "nextOrderId e' = nextOrderId e"
    "nextTradeId e' = nextTradeId e" "sessionOrders e' = sessionOrders e"
    "orderToSession e' = orderToSession e" "orderToClientOrderId e' = orderToClientOrderId e"
    "lastTradePrice e' = lastTradePrice e" "lastTradeQty e' = lastTradeQty e"
    "ordersProcessed e' = ordersProcessed e" "tradesExecuted e' = tradesExecuted e"
    "clock e' = clock e" "next_address e' = next_address e"
  using assms by (simp_all add: same_private_def)

lemma same_private_senders:
  assumes "same_private e e'"
  shows "same_private (sendOrderAck sid cid oid status e) (sendOrderAck sid cid oid status e')"
    and "same_private (sendOrderReject sid cid reason e) (sendOrderReject sid cid reason e')"
    and "same_private (sendExecutionReport sid oid p q leaves side e) (sendExecutionReport sid oid p q leaves side e')"
    and "same_private (sendCancelAck sid cid oid e) (sendCancelAck sid cid oid e')"
    and "same_private (sendCancelReject sid cid oid reason e) (sendCancelReject sid cid oid reason e')"
    and "same_private (sendModifyAck sid cid oid p q e) (sendModifyAck sid cid oid p q e')"
    and "same_private (sendModifyReject sid cid oid reason e) (sendModifyReject sid cid oid reason e')"
    and "same_private (publishTradeUpdate trade side e) (publishTradeUpdate trade side e')"
    and "same_private (publishTickUpdate e) (publishTickUpdate e')"
  using same_privateD [OF assms]
  by (simp_all add: same_private_def sender_defs push_outbound_def push_feed_def split_beta)

lemma do_action_private:
  assumes "same_private e e'"
  shows "same_private (do_action a e) (do_action a e')"
proof (cases a)
  case (PublishTrade t side)
  have "same_private (e\<lparr>tradesExecuted := tradesExecuted e + 1, lastTradePrice := tr_price t,
      lastTradeQty := tr_quantity t\<rparr>) (e'\<lparr>tradesExecuted := tradesExecuted e' + 1,
      lastTradePrice := tr_price t, lastTradeQty := tr_quantity t\<rparr>)"
    using assms by (simp add: same_private_def)
  with PublishTrade show ?thesis by (simp add: same_private_senders(8))
next
  case (AckOrder sid cid i x)
  have "same_private (untrack_order sid i f) (untrack_order sid i f')" if "same_private f f'" for f f'
    using that by (simp add: same_private_def untrack_order_def orders_of_session_def)
  with AckOrder same_private_senders(1) [OF assms] same_privateD(1) [OF assms] show ?thesis
    by (simp add: Let_def)
qed (use same_private_senders [OF assms] same_privateD(1,6) [OF assms] assms in
    \<open>simp_all add: Let_def split: option.split\<close>)

lemma action_says_private:
  assumes "same_private e e'"
  shows "action_outs a e' = action_outs a e" and "action_feeds a e' = action_feeds a e"
  by (cases a; simp add: same_privateD [OF assms] split: option.split)
    (cases a; simp add: same_privateD [OF assms])

text \<open>What is still to be said.\<close>

fun todo_outs :: "EngineAction list \<Rightarrow> Engine \<Rightarrow> OutboundMessage list" where
  "todo_outs [] e = []"
| "todo_outs (a # as) e = action_outs a e @ todo_outs as (do_action a e)"

fun todo_feeds :: "EngineAction list \<Rightarrow> Engine \<Rightarrow> MarketDataMessage list" where
  "todo_feeds [] e = []"
| "todo_feeds (a # as) e = action_feeds a e @ todo_feeds as (do_action a e)"

lemma todo_append [simp]:
  "todo_outs (as @ bs) e = todo_outs as e @ todo_outs bs (run_actions as e)"
  "todo_feeds (as @ bs) e = todo_feeds as e @ todo_feeds bs (run_actions as e)"
  by (induction as arbitrary: e) simp_all

lemma todo_private:
  "same_private e e' \<Longrightarrow> todo_outs as e' = todo_outs as e \<and> todo_feeds as e' = todo_feeds as e"
  by (induction as arbitrary: e e') (simp_all add: action_says_private do_action_private)

lemma run_actions_private: "same_private e e' \<Longrightarrow> same_private (run_actions as e) (run_actions as e')"
  by (induction as arbitrary: e e') (simp_all add: do_action_private)

lemma todo_emits: "emits e (todo_outs as e) (todo_feeds as e) (run_actions as e)"
proof (induction as arbitrary: e)
  case (Cons a as)
  from emits_trans [OF do_action_emits Cons.IH, of e a] show ?case by simp
qed (simp add: emits_silent)

section \<open>The engine between two actions\<close>

definition engine_ok :: "Engine \<Rightarrow> bool" where
  "engine_ok e \<longleftrightarrow> engine_inv e \<and> well_framed e"

lemma engine_okD: "engine_ok e \<Longrightarrow> engine_inv e" "engine_ok e \<Longrightarrow> well_framed e"
  by (simp_all add: engine_ok_def)

lemma reachable_ok: "engine_reachable e \<Longrightarrow> engine_ok e"
  by (simp add: engine_ok_def reachable_engine_inv reachable_well_framed)

text \<open>An order that is filled or cancelled is untracked with its acknowledgement: it must be tracked, and out of the book.\<close>

fun action_ok :: "Engine \<Rightarrow> EngineAction \<Rightarrow> bool" where
  "action_ok e (AckOrder sid clientOrderId orderId x) =
     (let ord = obj (orderbook e) x
      in isFilled ord \<or> getOrderStatus ord = CANCELLED \<longrightarrow>
         orderToSession e orderId = Some sid \<and> orders (orderbook e) orderId = None)"
| "action_ok e _ = True"

fun todo_ok :: "Engine \<Rightarrow> EngineAction list \<Rightarrow> bool" where
  "todo_ok e [] = True"
| "todo_ok e (a # as) = (action_ok e a \<and> todo_ok (do_action a e) as)"

lemma todo_ok_append [simp]: "todo_ok e (as @ bs) = (todo_ok e as \<and> todo_ok (run_actions as e) bs)"
  by (induction as arbitrary: e) simp_all

lemma todo_ok_sends: "(\<And>a. a \<in> set as \<Longrightarrow> \<not> is_ack a) \<Longrightarrow> todo_ok e as"
proof (induction as arbitrary: e)
  case (Cons a as)
  have "action_ok e a" using Cons.prems [of a] by (cases a) simp_all
  with Cons show ?case by simp
qed simp

lemma run_sends: "(\<And>a. a \<in> set as \<Longrightarrow> \<not> is_ack a) \<Longrightarrow> same_books e (run_actions as e)"
proof (induction as arbitrary: e)
  case (Cons a as)
  have "same_books e (do_action a e)" using do_action_says [of a e] Cons.prems by (simp add: says_def)
  also have "same_books (do_action a e) (run_actions as (do_action a e))" using Cons by simp
  finally show ?case by simp
qed (simp add: same_books_def)

lemma todo_ok_private: "same_private e e' \<Longrightarrow> todo_ok e as \<Longrightarrow> todo_ok e' as"
proof (induction as arbitrary: e e')
  case (Cons a as)
  have "action_ok e' a"
    using Cons.prems(2) same_privateD [OF Cons.prems(1)] by (cases a) simp_all
  with Cons do_action_private [OF Cons.prems(1), of a] show ?case by simp
qed simp

lemma do_action_ok:
  assumes "engine_ok e" and "action_ok e a"
  shows "engine_ok (do_action a e)"
proof -
  note e = engine_okD [OF assms(1)]
  have "well_framed (do_action a e)"
    using framed_senders [OF e(2)] framed_senders(8) [of "e\<lparr>tradesExecuted := n, lastTradePrice := p, lastTradeQty := q\<rparr>" for n p q] e(2)
    by (cases a) (simp_all add: Let_def split: option.split)
  moreover have "engine_inv (do_action a e)"
  proof (cases "is_ack a")
    case True
    then obtain sid cid i x where a: "a = AckOrder sid cid i x" by (cases a) simp_all
    let ?f = "sendOrderAck sid cid i (getOrderStatus (obj (orderbook e) x)) e"
    note says = says_sendOrderAck [of e sid cid i "getOrderStatus (obj (orderbook e) x)"]
    have f: "engine_inv ?f" by (rule says_engine_inv [OF says e(1)])
    have "orderToSession ?f = orderToSession e" "orderbook ?f = orderbook e"
      using says by (simp_all add: says_def same_books_def)
    with untrack_engine_inv [OF f, of i sid] f assms(2) show ?thesis by (auto simp: a Let_def)
  next
    case False
    from says_engine_inv [OF do_action_says [OF this] e(1)] show ?thesis .
  qed
  ultimately show ?thesis by (simp add: engine_ok_def)
qed

section \<open>Reporting trades\<close>

lemma trade_actions_says:
  assumes "orderToSession e (resting_side_id side t) = Some ps"
  shows "todo_outs (trade_actions sid i side x t) e =
      trade_reports (orderToSession e) sid i side (getQuantity (obj (orderbook e) x)) (nextTradeId e) [t]"
    and "todo_feeds (trade_actions sid i side x t) e = [trade_update (symbol e) (nextTradeId e) t side]"
proof -
  let ?e1 = "do_action (PublishTrade t side) e"
  let ?e2 = "do_action (ReportAggressor sid i side x t) ?e1"
  have "same_books e ?e1" "same_books ?e1 ?e2"
    using do_action_says [of "PublishTrade t side" e] do_action_says [of "ReportAggressor sid i side x t" ?e1]
    by (simp_all add: says_def del: do_action.simps)
  then have "orderToSession ?e1 = orderToSession e" "orderToSession ?e2 = orderToSession e"
    by (simp_all add: same_books_def del: do_action.simps)
  moreover have "nextTradeId ?e1 = nextTradeId e" "nextTradeId ?e2 = nextTradeId e + 1" by simp_all
  ultimately show "todo_outs (trade_actions sid i side x t) e =
      trade_reports (orderToSession e) sid i side (getQuantity (obj (orderbook e) x)) (nextTradeId e) [t]"
    and "todo_feeds (trade_actions sid i side x t) e = [trade_update (symbol e) (nextTradeId e) t side]"
    using assms by (simp_all add: trade_actions_def del: do_action.simps)
qed

lemma trades_actions_say:
  assumes "\<forall>t\<in>set ts. orderToSession e (resting_side_id side t) \<noteq> None"
  shows "todo_outs (concat (map (trade_actions sid i side x) ts)) e =
      trade_reports (orderToSession e) sid i side (getQuantity (obj (orderbook e) x)) (nextTradeId e) ts \<and>
    todo_feeds (concat (map (trade_actions sid i side x) ts)) e = trade_updates (symbol e) side (nextTradeId e) ts"
  using assms
proof (induction ts arbitrary: e)
  case (Cons t ts)
  let ?e1 = "report_trade sid i side x t e"
  obtain ps where ps: "orderToSession e (resting_side_id side t) = Some ps" using Cons.prems by auto
  note one = report_trade_says [OF this, of sid i x]
  have same: "orderToSession ?e1 = orderToSession e" "orderbook ?e1 = orderbook e"
    "symbol ?e1 = symbol e" "nextTradeId ?e1 = nextTradeId e + 2"
    using one by (simp_all add: says_def same_books_def trade_counters_def)
  have "\<forall>t\<in>set ts. orderToSession ?e1 (resting_side_id side t) \<noteq> None"
    using Cons.prems by (simp add: same)
  note rest = Cons.IH [OF this, unfolded same]
  show ?case
    using trade_actions_says [OF ps] rest by (simp add: report_trade_actions)
qed simp

lemma modify_actions_say:
  "todo_outs (map (\<lambda>t. PublishTrade t (if buyOrderId t = i then BUY else SELL)) ts) e = [] \<and>
   todo_feeds (map (\<lambda>t. PublishTrade t (if buyOrderId t = i then BUY else SELL)) ts) e =
     modify_updates (symbol e) (nextTradeId e) i ts"
proof (induction ts arbitrary: e)
  case (Cons t ts)
  then show ?case by (simp add: modify_updates_def)
qed (simp add: modify_updates_def)

section \<open>Starting a handler\<close>

text \<open>What a handler computes before its first push leaves the queues alone.\<close>

lemma admitted_running [simp]: "running (admitted sid request side orderType e) = running e"
  by (simp add: admitted_def track_order_def)

lemma begin_accept_eq:
  "begin_accept sid request side orderType e =
     (let e5 = admitted sid request side orderType e
      in (e5, concat (map (trade_actions sid (nextOrderId e) side (next_address e)) (trades (orderbook e5))) @
            [AckOrder sid (nor_clientOrderId request) (nextOrderId e) (next_address e), PublishTick]))"
proof -
  have "fst (begin_accept sid request side orderType e) = admitted sid request side orderType e"
    by (rule Engine.equality)
      (simp_all add: begin_accept_def admitted_def track_order_def make_shared_def read_clock_def
        orders_of_session_def incoming_order_def Let_def)
  moreover have "begin_accept sid request side orderType e =
    (let e5 = fst (begin_accept sid request side orderType e)
     in (e5, concat (map (trade_actions sid (nextOrderId e) side (next_address e)) (trades (orderbook e5))) @
            [AckOrder sid (nor_clientOrderId request) (nextOrderId e) (next_address e), PublishTick]))"
    by (simp add: begin_accept_def make_shared_def read_clock_def GetRecentTrades_def Let_def)
  ultimately show ?thesis by simp
qed

lemma trade_actions_send: "a \<in> set (concat (map (trade_actions sid i side x) ts)) \<Longrightarrow> \<not> is_ack a"
  by (auto simp: trade_actions_def)

lemma begin_accept_ok:
  fixes sid :: SessionId
  assumes e: "engine_ok e" and ok: "valid_terms request side orderType" and ids: "ids_left e"
    and started: "begin_accept sid request side orderType e = (e', as)"
  shows "engine_ok e'" and "todo_ok e' as"
proof -
  note inv = engine_okD(1) [OF e]
  let ?e5 = "admitted sid request side orderType e" and ?i = "nextOrderId e" and ?x = "next_address e"
  let ?reports = "concat (map (trade_actions sid ?i side ?x) (trades (orderbook ?e5)))"
  have e': "e' = ?e5" and as: "as = ?reports @ [AckOrder sid (nor_clientOrderId request) ?i ?x, PublishTick]"
    using started by (auto simp: begin_accept_eq Let_def)
  have "queues_ok ?e5" using engine_invD(4) [OF inv] by (simp add: queues_ok_def)
  then have "engine_inv ?e5" using admitted_keeps [OF inv ok ids, of sid] by (simp add: engine_inv_def)
  moreover have "well_framed ?e5" using engine_okD(2) [OF e] well_framed_queues [of ?e5 e] by simp
  ultimately show "engine_ok e'" by (simp add: e' engine_ok_def)
  have same: "same_books ?e5 (run_actions ?reports ?e5)" by (rule run_sends [OF trade_actions_send])
  have "action_ok (run_actions ?reports ?e5) (AckOrder sid (nor_clientOrderId request) ?i ?x)"
    using same admitted_done [OF inv ok ids, of sid] by (auto simp: same_books_def Let_def)
  moreover have "todo_ok ?e5 ?reports" by (rule todo_ok_sends [OF trade_actions_send])
  ultimately show "todo_ok e' as" by (simp add: e' as del: action_ok.simps) simp
qed

lemma begin_new_order_eq:
  "begin_new_order sid request e =
     (let e1 = e\<lparr>ordersProcessed := ordersProcessed e + 1\<rparr>
      in case order_fault request of
           Some reason \<Rightarrow> (e1, [RejectOrder sid (nor_clientOrderId request) reason])
         | None \<Rightarrow> begin_accept sid request (the (BuySell_cast (nor_side request)))
             (the (OrderType_cast (nor_orderType request))) e1)"
  unfolding begin_new_order_def order_fault_def Let_def cast_code_iff by simp

lemma begin_new_order_accepts:
  assumes "acceptable request side orderType"
  shows "begin_new_order sid request e =
    begin_accept sid request side orderType (e\<lparr>ordersProcessed := ordersProcessed e + 1\<rparr>)"
proof -
  have "BuySell_cast (nor_side request) = Some side" "OrderType_cast (nor_orderType request) = Some orderType"
    "order_fault request = None"
    using assms by (auto simp: cast_code_iff acceptable_def order_fault_def)
  then show ?thesis by (simp add: begin_new_order_eq)
qed

lemma begin_message_ok:
  assumes e: "engine_ok e" and ids: "ids_left e" and started: "begin_message msg e = (e', as)"
  shows "engine_ok e' \<and> todo_ok e' as"
proof (cases "im_body msg")
  case (NewOrderBody request)
  let ?e = "e\<lparr>ordersProcessed := ordersProcessed e + 1\<rparr>"
  have ok: "engine_ok ?e" "ids_left ?e" using e ids by (simp_all add: engine_ok_def)
  show ?thesis
  proof (cases "order_fault request")
    case None
    then obtain side orderType where acc: "acceptable request side orderType" by (rule order_fault_none)
    then have "begin_accept (im_sessionId msg) request side orderType ?e = (e', as)"
      using started NewOrderBody by (simp add: begin_message_def begin_new_order_accepts)
    from begin_accept_ok [OF ok(1) acceptable_valid [OF acc] ok(2) this] show ?thesis by simp
  next
    case (Some reason)
    with started NewOrderBody ok show ?thesis by (auto simp: begin_message_def begin_new_order_eq)
  qed
next
  case (CancelOrderBody request)
  let ?i = "cor_orderId request" and ?e1 = "e\<lparr>orderbook := CancelOrder (cor_orderId request) (orderbook e)\<rparr>"
  have "engine_ok (untrack_order s ?i ?e1)" if "orderToSession e ?i = Some s" for s
    using untrack_engine_inv [OF cancelled_book_keeps(1) _ cancelled_book_keeps(2),
        OF engine_okD(1) [OF e] that _ engine_okD(1) [OF e] that] that engine_okD(2) [OF e]
    by (simp add: engine_ok_def)
  with started CancelOrderBody e show ?thesis
    by (auto simp: begin_message_def begin_cancel_def Let_def split: option.splits if_splits)
next
  case (ModifyOrderBody request)
  let ?b = "ModifyOrder (mor_orderId request) (mor_newPrice request) (mor_newQuantity request) (orderbook e)"
  have "engine_ok (e\<lparr>orderbook := ?b\<rparr>)" if "mor_newQuantity request \<noteq> 0"
    using modified_book_keeps [OF engine_okD(1) [OF e]] engine_okD(2) [OF e] that
    by (simp add: engine_ok_def word_neq_0_conv)
  moreover have "todo_ok f (map (\<lambda>t. PublishTrade t (if buyOrderId t = i then BUY else SELL)) ts @
      [AckModify sid cid i np nq, PublishTick])" for f i ts sid cid np nq
    by (rule todo_ok_sends) auto
  ultimately show ?thesis
    using started ModifyOrderBody e
    by (auto simp: begin_message_def begin_modify_def Let_def split: option.splits if_splits)
qed

lemma begin_message_frame:
  assumes "begin_message msg e = (e', as)"
  shows "inboundQueue e' = inboundQueue e" and "outboundQueue e' = outboundQueue e"
    and "feedQueue e' = feedQueue e" and "running e' = running e" and "symbol e' = symbol e"
    and "nextOrderId e' = nextOrderId e \<or> nextOrderId e' = nextOrderId e + 1"
proof -
  have "inboundQueue e' = inboundQueue e \<and> outboundQueue e' = outboundQueue e \<and>
    feedQueue e' = feedQueue e \<and> running e' = running e \<and> symbol e' = symbol e \<and>
    (nextOrderId e' = nextOrderId e \<or> nextOrderId e' = nextOrderId e + 1)"
    using assms
    by (auto simp: begin_message_def begin_new_order_eq begin_cancel_def begin_modify_def begin_accept_eq
        untrack_order_def Let_def split: InboundBody.splits option.splits if_splits)
  then show "inboundQueue e' = inboundQueue e" "outboundQueue e' = outboundQueue e"
    "feedQueue e' = feedQueue e" "running e' = running e" "symbol e' = symbol e"
    "nextOrderId e' = nextOrderId e \<or> nextOrderId e' = nextOrderId e + 1" by blast+
qed

text \<open>Run to its end, what was begun is the handler.\<close>

lemma begin_message_finish:
  "begin_message msg e = (e', as) \<Longrightarrow> run_actions as e' = processInboundMessage msg e"
  using begin_message_run [of msg e] by simp

end
