(* ===== verification/Session_Manager.thy ===== *)
theory Session_Manager
  imports Ring_Queue Protocol_Msgs
begin

text \<open>
  The class \<open>SessionManager\<close> of \<^verbatim>\<open>include/SessionManager.h\<close>. Every public method runs under
  \<^verbatim>\<open>sessionMutex_\<close>, so a method is one step on the record. A ZMQ identity is its bytes.
  The queues belong to the exchange and are arguments of the methods that use them. The
  disconnect callback is the value that \<open>destroySession\<close> hands to it, if it calls it.
\<close>

section \<open>State and methods\<close>

type_synonym Identity = "8 word list"

record SessionInfo =
  si_sessionId :: SessionId
  zmqIdentity :: Identity
  isActive :: bool
  activeOrders :: "OrderId set"

definition new_SessionInfo :: "SessionId \<Rightarrow> Identity \<Rightarrow> SessionInfo" where
  "new_SessionInfo sid identity =
     \<lparr>si_sessionId = sid, zmqIdentity = identity, isActive = True, activeOrders = {}\<rparr>"

record SessionManager =
  sessions :: "SessionId \<rightharpoonup> SessionInfo"
  identityToSession :: "Identity \<rightharpoonup> SessionId"
  nextSessionId :: SessionId
  hasCallback :: bool

definition new_SessionManager :: SessionManager where
  "new_SessionManager =
     \<lparr>sessions = Map.empty, identityToSession = Map.empty, nextSessionId = 1, hasCallback = False\<rparr>"

text \<open>\<^verbatim>\<open>emplace\<close> keeps an entry that is already there.\<close>

definition createSession :: "Identity \<Rightarrow> SessionManager \<Rightarrow> SessionId \<times> SessionManager" where
  "createSession identity sm =
     (case identityToSession sm identity of
        Some sid \<Rightarrow> (sid, sm)
      | None \<Rightarrow>
          let sid = nextSessionId sm;
              sessions' = (case sessions sm sid of
                             None \<Rightarrow> (sessions sm)(sid \<mapsto> new_SessionInfo sid identity)
                           | Some _ \<Rightarrow> sessions sm)
          in (sid, sm\<lparr>nextSessionId := sid + 1, sessions := sessions',
                      identityToSession := (identityToSession sm)(identity \<mapsto> sid)\<rparr>))"

definition destroySession ::
  "SessionId \<Rightarrow> SessionManager \<Rightarrow> (SessionId \<times> OrderId set) option \<times> SessionManager" where
  "destroySession sid sm =
     (case sessions sm sid of
        None \<Rightarrow> (None, sm)
      | Some session \<Rightarrow>
          let ordersToCancel = activeOrders session;
              sm' = sm\<lparr>identityToSession := (identityToSession sm)(zmqIdentity session := None),
                       sessions := (sessions sm)(sid := None)\<rparr>
          in (if hasCallback sm \<and> ordersToCancel \<noteq> {} then Some (sid, ordersToCancel) else None, sm'))"

definition isSessionActive :: "SessionId \<Rightarrow> SessionManager \<Rightarrow> bool" where
  "isSessionActive sid sm = (case sessions sm sid of None \<Rightarrow> False | Some s \<Rightarrow> isActive s)"

definition getIdentity :: "SessionId \<Rightarrow> SessionManager \<Rightarrow> Identity" where
  "getIdentity sid sm = (case sessions sm sid of None \<Rightarrow> [] | Some s \<Rightarrow> zmqIdentity s)"

definition addOrderToSession :: "SessionId \<Rightarrow> OrderId \<Rightarrow> SessionManager \<Rightarrow> SessionManager" where
  "addOrderToSession sid orderId sm =
     (case sessions sm sid of
        None \<Rightarrow> sm
      | Some s \<Rightarrow> sm\<lparr>sessions := (sessions sm)
                        (sid \<mapsto> s\<lparr>activeOrders := insert orderId (activeOrders s)\<rparr>)\<rparr>)"

definition removeOrderFromSession :: "SessionId \<Rightarrow> OrderId \<Rightarrow> SessionManager \<Rightarrow> SessionManager" where
  "removeOrderFromSession sid orderId sm =
     (case sessions sm sid of
        None \<Rightarrow> sm
      | Some s \<Rightarrow> sm\<lparr>sessions := (sessions sm)
                        (sid \<mapsto> s\<lparr>activeOrders := activeOrders s - {orderId}\<rparr>)\<rparr>)"

text \<open>The three overloads of \<open>routeToInbound\<close>, by the body of the message.\<close>

definition routeToInbound ::
  "SessionId \<Rightarrow> InboundBody \<Rightarrow> InboundMessage MPSCQueue \<Rightarrow> (bool \<times> InboundMessage MPSCQueue) option" where
  "routeToInbound sid body q = mpsc_push INBOUND_QUEUE_SIZE \<lparr>im_sessionId = sid, im_body = body\<rparr> q"

definition getOutboundMessage ::
  "OutboundMessage SPSCQueue \<Rightarrow> OutboundMessage option \<times> OutboundMessage SPSCQueue" where
  "getOutboundMessage q = spsc_pop OUTBOUND_QUEUE_SIZE q"

definition setDisconnectCallback :: "SessionManager \<Rightarrow> SessionManager" where
  "setDisconnectCallback sm = sm\<lparr>hasCallback := True\<rparr>"

definition getActiveSessionCount :: "SessionManager \<Rightarrow> nat" where
  "getActiveSessionCount sm = card (dom (sessions sm))"

section \<open>The invariant\<close>

text \<open>
  Sessions and identities are in one-to-one correspondence, and the ids in use have been handed
  out.
\<close>

definition sm_inv :: "SessionManager \<Rightarrow> bool" where
  "sm_inv sm \<longleftrightarrow>
     (\<forall>identity sid. identityToSession sm identity = Some sid \<longleftrightarrow>
        (\<exists>s. sessions sm sid = Some s \<and> zmqIdentity s = identity)) \<and>
     (\<forall>sid s. sessions sm sid = Some s \<longrightarrow>
        si_sessionId s = sid \<and> isActive s \<and> 0 < sid \<and> sid < nextSessionId sm) \<and>
     0 < nextSessionId sm"

lemma sm_invD:
  assumes "sm_inv sm"
  shows "identityToSession sm identity = Some sid \<longleftrightarrow>
      (\<exists>s. sessions sm sid = Some s \<and> zmqIdentity s = identity)"
    and "sessions sm sid = Some s \<Longrightarrow> si_sessionId s = sid \<and> isActive s \<and> 0 < sid \<and> sid < nextSessionId sm"
    and "0 < nextSessionId sm"
  using assms unfolding sm_inv_def by blast+

lemma next_session_fresh: "sm_inv sm \<Longrightarrow> sessions sm (nextSessionId sm) = None"
  using sm_invD(2) [of sm "nextSessionId sm"] by (cases "sessions sm (nextSessionId sm)") auto

definition sessions_left :: "SessionManager \<Rightarrow> bool" where
  "sessions_left sm \<longleftrightarrow> nextSessionId sm + 1 \<noteq> 0"

lemma createSession_new:
  assumes inv: "sm_inv sm" and new: "identityToSession sm identity = None"
  shows "createSession identity sm = (nextSessionId sm,
     sm\<lparr>nextSessionId := nextSessionId sm + 1,
       sessions := (sessions sm)(nextSessionId sm \<mapsto> new_SessionInfo (nextSessionId sm) identity),
       identityToSession := (identityToSession sm)(identity \<mapsto> nextSessionId sm)\<rparr>)"
  using new next_session_fresh [OF inv] by (simp add: createSession_def Let_def)

lemma next_session_less:
  assumes "sessions_left sm"
  shows "nextSessionId sm < nextSessionId sm + 1" and "i < nextSessionId sm \<Longrightarrow> i < nextSessionId sm + 1"
proof -
  have "unat (nextSessionId sm + 1) = Suc (unat (nextSessionId sm))"
    using assms by (metis add.commute sessions_left_def unatSuc)
  then show less: "nextSessionId sm < nextSessionId sm + 1" by (simp add: word_less_nat_alt)
  show "i < nextSessionId sm \<Longrightarrow> i < nextSessionId sm + 1" using less by (rule less_trans [rotated])
qed

lemma createSession_keeps:
  assumes inv: "sm_inv sm" and left: "sessions_left sm"
  shows "sm_inv (snd (createSession identity sm))"
proof (cases "identityToSession sm identity")
  case (Some sid)
  then show ?thesis using inv by (simp add: createSession_def)
next
  case None
  let ?n = "nextSessionId sm"
  let ?sm = "snd (createSession identity sm)"
  note new = createSession_new [OF inv None]
  have no: "sessions sm sid = Some s \<Longrightarrow> zmqIdentity s \<noteq> identity" for sid s
    using sm_invD(1) [OF inv, of identity sid] None by auto
  have "identityToSession ?sm j = Some sid \<longleftrightarrow>
      (\<exists>s. sessions ?sm sid = Some s \<and> zmqIdentity s = j)" for j sid
  proof (cases "j = identity")
    case True
    then show ?thesis using no by (auto simp: new new_SessionInfo_def)
  next
    case False
    then show ?thesis
      using sm_invD(1) [OF inv, of j sid] next_session_fresh [OF inv]
      by (auto simp: new new_SessionInfo_def)
  qed
  moreover have "si_sessionId s = sid \<and> isActive s \<and> 0 < sid \<and> sid < nextSessionId ?sm"
    if "sessions ?sm sid = Some s" for sid s
    using that sm_invD(2) [OF inv, of sid s] sm_invD(3) [OF inv] next_session_less [OF left]
    by (auto simp: new new_SessionInfo_def split: if_splits)
  moreover have "0 < nextSessionId ?sm"
    using sm_invD(3) [OF inv] next_session_less(1) [OF left] by (simp add: new)
  ultimately show ?thesis unfolding sm_inv_def by blast
qed

lemma destroySession_keeps:
  assumes inv: "sm_inv sm"
  shows "sm_inv (snd (destroySession sid sm))"
proof (cases "sessions sm sid")
  case None
  then show ?thesis using inv by (simp add: destroySession_def)
next
  case (Some s)
  let ?sm = "snd (destroySession sid sm)"
  have sm: "sessions ?sm = (sessions sm)(sid := None)"
    "identityToSession ?sm = (identityToSession sm)(zmqIdentity s := None)"
    "nextSessionId ?sm = nextSessionId sm"
    using Some by (simp_all add: destroySession_def Let_def)
  have only: "t = sid" if "sessions sm t = Some u" "zmqIdentity u = zmqIdentity s" for t u
  proof -
    have "identityToSession sm (zmqIdentity s) = Some t" "identityToSession sm (zmqIdentity s) = Some sid"
      using sm_invD(1) [OF inv] that Some by blast+
    then show ?thesis by simp
  qed
  have "identityToSession ?sm j = Some t \<longleftrightarrow> (\<exists>u. sessions ?sm t = Some u \<and> zmqIdentity u = j)" for j t
  proof (cases "t = sid")
    case True
    have "identityToSession sm j = Some sid \<Longrightarrow> j = zmqIdentity s"
      using sm_invD(1) [OF inv, of j sid] Some by simp
    then show ?thesis by (auto simp: sm True)
  next
    case False
    then have "zmqIdentity u \<noteq> zmqIdentity s" if "sessions sm t = Some u" for u
      using only that by blast
    then show ?thesis using sm_invD(1) [OF inv, of j t] False by (auto simp: sm)
  qed
  moreover have "si_sessionId u = t \<and> isActive u \<and> 0 < t \<and> t < nextSessionId ?sm"
    if "sessions ?sm t = Some u" for t u
    using that sm_invD(2) [OF inv, of t u] by (simp add: sm split: if_splits)
  ultimately show ?thesis
    using sm_invD(3) [OF inv] unfolding sm_inv_def by (simp add: sm)
qed

lemma add_remove_keeps:
  assumes "sm_inv sm"
  shows "sm_inv (addOrderToSession sid i sm)" and "sm_inv (removeOrderFromSession sid i sm)"
    and "sm_inv (setDisconnectCallback sm)"
  using assms
  by (fastforce simp: sm_inv_def addOrderToSession_def removeOrderFromSession_def
      setDisconnectCallback_def split: option.splits)+

section \<open>Properties\<close>

text \<open>
  \<open>createSession\<close> gives an identity a live session that leads back to it, the same
  one when it is called again, and never the session of another identity; the other sessions are
  untouched.
\<close>

theorem createSession_identifies:
  assumes "sm_inv sm" and "sessions_left sm" and "createSession identity sm = (sid, sm')"
  shows "sm_inv sm' \<and> getIdentity sid sm' = identity \<and> isSessionActive sid sm' \<and>
    createSession identity sm' = (sid, sm') \<and>
    (\<forall>other t. other \<noteq> identity \<and> identityToSession sm other = Some t \<longrightarrow>
       t \<noteq> sid \<and> identityToSession sm' other = Some t \<and> sessions sm' t = sessions sm t)"
proof -
  have inv': "sm_inv sm'" using createSession_keeps [OF assms(1,2), of identity] assms(3) by simp
  have id: "identityToSession sm' identity = Some sid"
    using assms(3) by (auto simp: createSession_def Let_def split: option.splits)
  then obtain s where s: "sessions sm' sid = Some s" "zmqIdentity s = identity"
    using sm_invD(1) [OF inv'] by blast
  have others: "t \<noteq> sid \<and> identityToSession sm' other = Some t \<and> sessions sm' t = sessions sm t"
    if "other \<noteq> identity" "identityToSession sm other = Some t" for other t
  proof -
    obtain u where u: "sessions sm t = Some u" "zmqIdentity u = other"
      using sm_invD(1) [OF assms(1)] \<open>identityToSession sm other = Some t\<close> by blast
    show ?thesis
    proof (cases "identityToSession sm identity")
      case None
      then have "t \<noteq> nextSessionId sm" using u next_session_fresh [OF assms(1)] by auto
      with None that createSession_new [OF assms(1) None] assms(3) show ?thesis by auto
    next
      case (Some i)
      then have eq: "i = sid" "sm' = sm" using assms(3) by (simp_all add: createSession_def)
      then have "t \<noteq> sid" using s u that(1) by auto
      with that eq show ?thesis by simp
    qed
  qed
  have "getIdentity sid sm' = identity" "isSessionActive sid sm'" "createSession identity sm' = (sid, sm')"
    using id s sm_invD(2) [OF inv' s(1)]
    by (simp_all add: getIdentity_def isSessionActive_def createSession_def)
  with inv' others show ?thesis by blast
qed

lemma new_SessionManager_inv: "sm_inv new_SessionManager"
  by (simp add: sm_inv_def new_SessionManager_def)

theorem createSession_identifies_witness:
  "getIdentity 1 (snd (createSession [65, 66] new_SessionManager)) = [65, 66]"
proof -
  obtain sm' where eq: "createSession [65, 66] new_SessionManager = (1, sm')"
    by (simp add: createSession_def new_SessionManager_def Let_def)
  have "sessions_left new_SessionManager" by (simp add: sessions_left_def new_SessionManager_def)
  from createSession_identifies [OF new_SessionManager_inv this eq] show ?thesis by (simp add: eq)
qed

text \<open>
  \<open>destroySession\<close> ends exactly the named session: it is no longer active, its
  identity can come back and then gets another id, and all other sessions stay; the callback is
  handed the session's orders if there are any.
\<close>

theorem destroySession_ends_one_session:
  assumes "sm_inv sm" and "sessions_left sm" and "sessions sm sid = Some s"
  defines "sm' \<equiv> snd (destroySession sid sm)"
  shows "sm_inv sm' \<and> \<not> isSessionActive sid sm' \<and> identityToSession sm' (zmqIdentity s) = None \<and>
    fst (createSession (zmqIdentity s) sm') \<noteq> sid \<and>
    (\<forall>t. t \<noteq> sid \<longrightarrow> sessions sm' t = sessions sm t) \<and>
    fst (destroySession sid sm) =
      (if hasCallback sm \<and> activeOrders s \<noteq> {} then Some (sid, activeOrders s) else None)"
proof -
  have sm': "sessions sm' = (sessions sm)(sid := None)"
    "identityToSession sm' = (identityToSession sm)(zmqIdentity s := None)"
    "nextSessionId sm' = nextSessionId sm"
    using assms(3) by (simp_all add: sm'_def destroySession_def Let_def)
  have inv': "sm_inv sm'" unfolding sm'_def by (rule destroySession_keeps [OF assms(1)])
  have gone: "identityToSession sm' (zmqIdentity s) = None" by (simp add: sm')
  have "fst (createSession (zmqIdentity s) sm') = nextSessionId sm"
    using createSession_new [OF inv' gone] by (simp add: sm')
  moreover have "sid < nextSessionId sm" using sm_invD(2) [OF assms(1,3)] by blast
  ultimately show ?thesis
    using inv' gone assms(3) by (auto simp: sm' isSessionActive_def destroySession_def Let_def)
qed

theorem destroySession_ends_one_session_witness:
  "let sm = snd (createSession [65] new_SessionManager) in
   fst (createSession [65] (snd (destroySession 1 sm))) \<noteq> 1"
proof -
  let ?sm = "snd (createSession [65] new_SessionManager)"
  have left: "sessions_left new_SessionManager" "sessions_left ?sm"
    by (simp_all add: sessions_left_def new_SessionManager_def createSession_def Let_def)
  have some: "sessions ?sm 1 = Some (new_SessionInfo 1 [65])"
    by (simp add: new_SessionManager_def createSession_def Let_def)
  from destroySession_ends_one_session [OF createSession_keeps [OF new_SessionManager_inv left(1)] left(2) some]
  show ?thesis by (simp add: Let_def new_SessionInfo_def)
qed

text \<open>
  The methods that the exchange calls: the server creates and destroys sessions, the constructor
  of \<open>Exchange\<close> sets the callback. Nothing calls \<open>addOrderToSession\<close>.
\<close>

inductive sessions_in_use :: "SessionManager \<Rightarrow> bool" where
  "sessions_in_use new_SessionManager"
| "sessions_in_use sm \<Longrightarrow> sessions_in_use (snd (createSession identity sm))"
| "sessions_in_use sm \<Longrightarrow> sessions_in_use (snd (destroySession sid sm))"
| "sessions_in_use sm \<Longrightarrow> sessions_in_use (setDisconnectCallback sm)"

text \<open>
  With the calls that the exchange makes no session ever has an active order, so
  the disconnect callback, which is to cancel a client's orders, is never called.
\<close>

theorem disconnect_callback_never_called:
  assumes "sessions_in_use sm"
  shows "fst (destroySession sid sm) = None"
proof -
  have "\<forall>sid s. sessions sm sid = Some s \<longrightarrow> activeOrders s = {}"
    using assms
    by (induction rule: sessions_in_use.induct)
      (auto simp: new_SessionManager_def createSession_def destroySession_def Let_def
        new_SessionInfo_def setDisconnectCallback_def split: option.splits if_splits)
  then show ?thesis by (auto simp: destroySession_def Let_def split: option.split)
qed

theorem disconnect_callback_never_called_witness:
  "fst (destroySession 1 (setDisconnectCallback (snd (createSession [65] new_SessionManager)))) = None"
  by (intro disconnect_callback_never_called sessions_in_use.intros)

end
