(* ===== verification/Zmq_Server.thy ===== *)
theory Zmq_Server
  imports Session_Manager Protocol_Wire
begin

text \<open>
  The class \<open>ZmqServer\<close> of \<^verbatim>\<open>src/ZmqServer.cpp\<close>. The ZMQ library is not modelled: what
  \<^verbatim>\<open>socket_->recv\<close> returned for the three frames of a message is an argument
  (\<open>None\<close> where it returned no value), and so is how many of the three \<^verbatim>\<open>socket_->send\<close> calls of
  a response return before one throws \<^verbatim>\<open>zmq::error_t\<close>. \<open>zs_wire\<close> collects the multi-part messages
  that \<open>sendToClient\<close> hands to the socket whole, in order; \<open>zs_failed\<close> those that it cut short, each
  with the number of its frames that the socket took. The session manager and the queues are passed
  along. A spinning push on the inbound queue is \<open>None\<close>.
\<close>

section \<open>State\<close>

record ZmqServer =
  zs_identityToSession :: "Identity \<rightharpoonup> SessionId"
  zs_sessionToIdentity :: "SessionId \<rightharpoonup> Identity"
  zs_running :: bool
  zs_wire :: "bytes list list"
  zs_failed :: "(nat \<times> bytes list) list"

definition new_ZmqServer :: ZmqServer where
  "new_ZmqServer =
     \<lparr>zs_identityToSession = Map.empty, zs_sessionToIdentity = Map.empty, zs_running = False,
      zs_wire = [], zs_failed = []\<rparr>"

text \<open>
  \<open>start\<close>: whether creating the context and the socket, setting its options and binding it all
  succeed (no \<^verbatim>\<open>zmq::error_t\<close> is thrown) is an argument.
\<close>

definition start_server :: "bool \<Rightarrow> ZmqServer \<Rightarrow> bool \<times> ZmqServer" where
  "start_server bound zs =
     (if zs_running zs then (False, zs)
      else if bound then (True, zs\<lparr>zs_running := True\<rparr>)
      else (False, zs\<lparr>zs_running := False\<rparr>))"

section \<open>Incoming messages\<close>

definition parseAndRouteMessage ::
  "Identity \<Rightarrow> bytes \<Rightarrow> ZmqServer \<Rightarrow> InboundMessage MPSCQueue \<Rightarrow>
   (bool \<times> InboundMessage MPSCQueue) option" where
  "parseAndRouteMessage identity msg zs q =
     (if length msg < sizeof_MessageHeader then Some (False, q)
      else case zs_identityToSession zs identity of
        None \<Rightarrow> Some (False, q)
      | Some sid \<Rightarrow>
          let header = get_header msg in
          if length msg < unat (mh_length header) then Some (False, q)
          else if mh_type header = NEW_ORDER_REQUEST
          then if length msg \<ge> sizeof_NewOrderRequest
               then routeToInbound sid (NewOrderBody (get_NewOrderRequest msg)) q
               else Some (False, q)
          else if mh_type header = CANCEL_ORDER_REQUEST
          then if length msg \<ge> sizeof_CancelOrderRequest
               then routeToInbound sid (CancelOrderBody (get_CancelOrderRequest msg)) q
               else Some (False, q)
          else if mh_type header = MODIFY_ORDER_REQUEST
          then if length msg \<ge> sizeof_ModifyOrderRequest
               then routeToInbound sid (ModifyOrderBody (get_ModifyOrderRequest msg)) q
               else Some (False, q)
          else Some (False, q))"

definition connectClient ::
  "Identity \<Rightarrow> ZmqServer \<Rightarrow> SessionManager \<Rightarrow> ZmqServer \<times> SessionManager" where
  "connectClient identity zs sm =
     (case zs_identityToSession zs identity of
        Some _ \<Rightarrow> (zs, sm)
      | None \<Rightarrow>
          let (sid, sm') = createSession identity sm
          in (zs\<lparr>zs_identityToSession := (zs_identityToSession zs)(identity \<mapsto> sid),
                 zs_sessionToIdentity := (zs_sessionToIdentity zs)(sid \<mapsto> identity)\<rparr>, sm'))"

definition processIncoming ::
  "bytes option \<Rightarrow> bytes option \<Rightarrow> bytes option \<Rightarrow>
   ZmqServer \<Rightarrow> SessionManager \<Rightarrow> InboundMessage MPSCQueue \<Rightarrow>
   (ZmqServer \<times> SessionManager \<times> InboundMessage MPSCQueue) option" where
  "processIncoming identityFrame delimiterFrame messageFrame zs sm q =
     (case identityFrame of
        None \<Rightarrow> Some (zs, sm, q)
      | Some identity \<Rightarrow>
          if identity = [] then Some (zs, sm, q)
          else if delimiterFrame = None then Some (zs, sm, q)
          else (case messageFrame of
                  None \<Rightarrow> Some (zs, sm, q)
                | Some msg \<Rightarrow>
                    let (zs', sm') = connectClient identity zs sm
                    in map_option (\<lambda>(_, q'). (zs', sm', q'))
                         (parseAndRouteMessage identity msg zs' q)))"

section \<open>Outgoing messages\<close>

text \<open>
  \<open>accepted\<close> of the three sends return; if that is not all of them, the exception is caught and
  the result is false.
\<close>

definition sendToClient :: "Identity \<Rightarrow> bytes \<Rightarrow> nat \<Rightarrow> ZmqServer \<Rightarrow> bool \<times> ZmqServer" where
  "sendToClient identity data accepted zs =
     (let frames = [identity, [], data]
      in if accepted < length frames
         then (False, zs\<lparr>zs_failed := zs_failed zs @ [(accepted, frames)]\<rparr>)
         else (True, zs\<lparr>zs_wire := zs_wire zs @ [frames]\<rparr>))"

text \<open>The loop body of \<open>processOutbound\<close>, which ignores the result.\<close>

definition sendResponse :: "OutboundMessage \<Rightarrow> nat \<Rightarrow> ZmqServer \<Rightarrow> ZmqServer" where
  "sendResponse msg accepted zs =
     (case zs_sessionToIdentity zs (om_sessionId msg) of
        None \<Rightarrow> zs
      | Some identity \<Rightarrow> snd (sendToClient identity (put_response (om_body msg)) accepted zs))"

text \<open>\<open>accepted n\<close> is for the response that is popped after \<open>n\<close> others.\<close>

partial_function (option) processOutbound ::
  "(nat \<Rightarrow> nat) \<Rightarrow> ZmqServer \<Rightarrow> OutboundMessage SPSCQueue \<Rightarrow>
   (ZmqServer \<times> OutboundMessage SPSCQueue) option" where
  "processOutbound accepted zs q =
     (case getOutboundMessage q of
        (None, q') \<Rightarrow> Some (zs, q')
      | (Some msg, q') \<Rightarrow>
          processOutbound (\<lambda>n. accepted (Suc n)) (sendResponse msg (accepted 0) zs) q')"

section \<open>Disconnects and stop\<close>

definition handleClientDisconnect ::
  "Identity \<Rightarrow> ZmqServer \<Rightarrow> SessionManager \<Rightarrow>
   (SessionId \<times> OrderId set) option \<times> ZmqServer \<times> SessionManager" where
  "handleClientDisconnect identity zs sm =
     (case zs_identityToSession zs identity of
        None \<Rightarrow> (None, zs, sm)
      | Some sid \<Rightarrow>
          let (callback, sm') = destroySession sid sm
          in (callback,
              zs\<lparr>zs_sessionToIdentity := (zs_sessionToIdentity zs)(sid := None),
                 zs_identityToSession := (zs_identityToSession zs)(identity := None)\<rparr>, sm'))"

text \<open>
  \<open>stop\<close>, after the thread has been joined: the list is the map's entries in the order in which
  the loop meets them.
\<close>

definition stop_server ::
  "(Identity \<times> SessionId) list \<Rightarrow> ZmqServer \<Rightarrow> SessionManager \<Rightarrow> ZmqServer \<times> SessionManager" where
  "stop_server entries zs sm =
     (if \<not> zs_running zs then (zs, sm)
      else (zs\<lparr>zs_running := False, zs_identityToSession := Map.empty,
               zs_sessionToIdentity := Map.empty\<rparr>,
            fold (\<lambda>(_, sid) sm. snd (destroySession sid sm)) entries sm))"

section \<open>The server's tables and the session manager\<close>

definition server_inv :: "ZmqServer \<Rightarrow> SessionManager \<Rightarrow> bool" where
  "server_inv zs sm \<longleftrightarrow>
     sm_inv sm \<and> zs_identityToSession zs = identityToSession sm \<and>
     (\<forall>sid. zs_sessionToIdentity zs sid = map_option zmqIdentity (sessions sm sid))"

lemma server_inv_new: "server_inv new_ZmqServer new_SessionManager"
  using new_SessionManager_inv
  by (simp add: server_inv_def new_ZmqServer_def new_SessionManager_def)

lemma connectClient_keeps:
  assumes inv: "server_inv zs sm" and left: "sessions_left sm"
    and eq: "connectClient identity zs sm = (zs', sm')"
  shows "server_inv zs' sm'" and "zs_identityToSession zs' identity \<noteq> None"
proof -
  have sm: "sm_inv sm" and tables: "zs_identityToSession zs = identityToSession sm"
    "\<And>sid. zs_sessionToIdentity zs sid = map_option zmqIdentity (sessions sm sid)"
    using inv by (simp_all add: server_inv_def)
  have "server_inv zs' sm' \<and> zs_identityToSession zs' identity \<noteq> None"
  proof (cases "identityToSession sm identity")
    case (Some sid)
    with eq inv tables show ?thesis by (simp add: connectClient_def)
  next
    case None
    note new = createSession_new [OF sm None]
    have "sm_inv (snd (createSession identity sm))" by (rule createSession_keeps [OF sm left])
    with eq None new tables show ?thesis
      by (auto simp: connectClient_def server_inv_def new_SessionInfo_def)
  qed
  then show "server_inv zs' sm'" and "zs_identityToSession zs' identity \<noteq> None" by blast+
qed

lemma handleClientDisconnect_keeps:
  assumes inv: "server_inv zs sm" and eq: "handleClientDisconnect identity zs sm = (cb, zs', sm')"
  shows "server_inv zs' sm'" and "zs_identityToSession zs' identity = None"
proof -
  have sm: "sm_inv sm" and tables: "zs_identityToSession zs = identityToSession sm"
    "\<And>sid. zs_sessionToIdentity zs sid = map_option zmqIdentity (sessions sm sid)"
    using inv by (simp_all add: server_inv_def)
  have "server_inv zs' sm' \<and> zs_identityToSession zs' identity = None"
  proof (cases "identityToSession sm identity")
    case None
    with eq inv tables show ?thesis by (simp add: handleClientDisconnect_def)
  next
    case (Some sid)
    then obtain s where s: "sessions sm sid = Some s" "zmqIdentity s = identity"
      using sm_invD(1) [OF sm] by blast
    have "sm_inv (snd (destroySession sid sm))" by (rule destroySession_keeps [OF sm])
    with eq Some s tables show ?thesis
      by (auto simp: handleClientDisconnect_def server_inv_def destroySession_def Let_def)
  qed
  then show "server_inv zs' sm'" and "zs_identityToSession zs' identity = None" by blast+
qed

section \<open>Draining the outbound queue\<close>

text \<open>The responses of a list, each with how many of its sends return.\<close>

fun send_all :: "(OutboundMessage \<times> nat) list \<Rightarrow> ZmqServer \<Rightarrow> ZmqServer" where
  "send_all [] zs = zs"
| "send_all ((m, k) # sends) zs = send_all sends (sendResponse m k zs)"

definition with_outcomes :: "(nat \<Rightarrow> nat) \<Rightarrow> OutboundMessage list \<Rightarrow> (OutboundMessage \<times> nat) list" where
  "with_outcomes accepted ms = zip ms (map accepted [0..<length ms])"

lemma with_outcomes_simps [simp]:
  "with_outcomes accepted [] = []"
  "with_outcomes accepted (m # ms) = (m, accepted 0) # with_outcomes (\<lambda>n. accepted (Suc n)) ms"
  by (simp_all add: with_outcomes_def map_upt_Suc del: upt_Suc)

lemma processOutbound_drains:
  "rb_inv OUTBOUND_QUEUE_SIZE q \<Longrightarrow>
   \<exists>q'. processOutbound accepted zs q =
          Some (send_all (with_outcomes accepted (rb_list OUTBOUND_QUEUE_SIZE q)) zs, q') \<and>
        rb_inv OUTBOUND_QUEUE_SIZE q' \<and> rb_list OUTBOUND_QUEUE_SIZE q' = []"
proof (induction "rb_list OUTBOUND_QUEUE_SIZE q" arbitrary: q zs accepted)
  case Nil
  from outbound.pop_empty [OF Nil.prems Nil.hyps [symmetric]] Nil show ?case
    by (subst processOutbound.simps) (simp add: getOutboundMessage_def)
next
  case (Cons m ms)
  from outbound.pop_some [OF Cons.prems Cons.hyps(2) [symmetric]] obtain q1 where
    pop: "spsc_pop OUTBOUND_QUEUE_SIZE q = (Some m, q1)" and inv: "rb_inv OUTBOUND_QUEUE_SIZE q1"
    and list: "rb_list OUTBOUND_QUEUE_SIZE q1 = ms" by blast
  have "processOutbound accepted zs q =
      processOutbound (\<lambda>n. accepted (Suc n)) (sendResponse m (accepted 0) zs) q1"
    by (subst processOutbound.simps) (simp add: getOutboundMessage_def pop)
  with Cons.hyps(1) [OF list [symmetric] inv, of "\<lambda>n. accepted (Suc n)" "sendResponse m (accepted 0) zs"]
    Cons.hyps(2) [symmetric] list
  show ?case by simp
qed

text \<open>What a fixed session table sends for a list of messages.\<close>

definition responses :: "(SessionId \<rightharpoonup> Identity) \<Rightarrow> OutboundMessage list \<Rightarrow> bytes list list" where
  "responses table ms =
     concat (map (\<lambda>m. case table (om_sessionId m) of
                        None \<Rightarrow> [] | Some identity \<Rightarrow> [[identity, [], put_response (om_body m)]]) ms)"

lemma responses_simps [simp]:
  "responses table [] = []"
  "responses table (m # ms) = (case table (om_sessionId m) of
     None \<Rightarrow> [] | Some identity \<Rightarrow> [[identity, [], put_response (om_body m)]]) @ responses table ms"
  by (simp_all add: responses_def)

lemma responses_append: "responses table (ms @ ns) = responses table ms @ responses table ns"
  by (simp add: responses_def)

lemma sendResponse_tables [simp]:
  "zs_running (sendResponse m k zs) = zs_running zs"
  "zs_identityToSession (sendResponse m k zs) = zs_identityToSession zs"
  "zs_sessionToIdentity (sendResponse m k zs) = zs_sessionToIdentity zs"
  by (simp_all add: sendResponse_def sendToClient_def Let_def split: option.split)

lemma sendResponse_logs:
  "zs_wire (sendResponse m k zs) =
     zs_wire zs @ responses (zs_sessionToIdentity zs) (if 3 \<le> k then [m] else [])"
  "map snd (zs_failed (sendResponse m k zs)) =
     map snd (zs_failed zs) @ responses (zs_sessionToIdentity zs) (if 3 \<le> k then [] else [m])"
  by (auto simp: sendResponse_def sendToClient_def Let_def split: option.split)

lemma send_all_logs:
  "zs_wire (send_all sends zs) =
     zs_wire zs @ responses (zs_sessionToIdentity zs) [m. (m, k) \<leftarrow> sends, 3 \<le> k] \<and>
   map snd (zs_failed (send_all sends zs)) =
     map snd (zs_failed zs) @ responses (zs_sessionToIdentity zs) [m. (m, k) \<leftarrow> sends, \<not> 3 \<le> k] \<and>
   zs_sessionToIdentity (send_all sends zs) = zs_sessionToIdentity zs \<and>
   zs_identityToSession (send_all sends zs) = zs_identityToSession zs"
  by (induction sends zs rule: send_all.induct) (auto simp: sendResponse_logs)

lemma parse_routes_or_drops:
  "parseAndRouteMessage identity msg zs q = Some (False, q) \<or>
   (\<exists>sid body. zs_identityToSession zs identity = Some sid \<and>
      parseAndRouteMessage identity msg zs q = routeToInbound sid body q)"
proof (cases "zs_identityToSession zs identity")
  case None
  then show ?thesis by (simp add: parseAndRouteMessage_def)
next
  case (Some sid)
  define P where "P r \<longleftrightarrow> r = Some (False, q) \<or> (\<exists>body. r = routeToInbound sid body q)" for r
  have split: "P x \<Longrightarrow> P y \<Longrightarrow> P (if c then x else y)" for c x y by simp
  have "P (Some (False, q))" and "P (routeToInbound sid body q)" for body
    by (auto simp: P_def)
  then have "P (parseAndRouteMessage identity msg zs q)"
    unfolding parseAndRouteMessage_def Some option.case Let_def by (intro split)
  with Some show ?thesis by (auto simp: P_def)
qed

section \<open>Properties\<close>

text \<open>
  Property C34. A client can only speak for itself: whatever bytes it sends, the inbound queue
  either stays as it is or gets one message, and that carries the session of the client's own
  identity; the result says which. An unknown identity gets nothing in.
\<close>

theorem parse_uses_own_session:
  assumes "mpsc_inv INBOUND_QUEUE_SIZE q" and "parseAndRouteMessage identity msg zs q = Some (ok, q')"
  shows "mpsc_inv INBOUND_QUEUE_SIZE q' \<and>
    (if ok then \<exists>sid body. zs_identityToSession zs identity = Some sid \<and>
        rb_list INBOUND_QUEUE_SIZE q' =
          rb_list INBOUND_QUEUE_SIZE q @ [\<lparr>im_sessionId = sid, im_body = body\<rparr>]
     else rb_list INBOUND_QUEUE_SIZE q' = rb_list INBOUND_QUEUE_SIZE q)"
proof -
  have route: "mpsc_inv INBOUND_QUEUE_SIZE q' \<and>
      (if ok then rb_list INBOUND_QUEUE_SIZE q' =
            rb_list INBOUND_QUEUE_SIZE q @ [\<lparr>im_sessionId = sid, im_body = body\<rparr>]
       else rb_list INBOUND_QUEUE_SIZE q' = rb_list INBOUND_QUEUE_SIZE q)"
    if "routeToInbound sid body q = Some (ok, q')" for sid body
  proof -
    have "the (mpsc_push INBOUND_QUEUE_SIZE \<lparr>im_sessionId = sid, im_body = body\<rparr> q) = (ok, q')"
      using that by (simp add: routeToInbound_def)
    note push = inbound.push_contents [OF assms(1), of "\<lparr>im_sessionId = sid, im_body = body\<rparr>",
        unfolded this fst_conv snd_conv]
    show ?thesis
    proof (cases ok)
      case True
      with push show ?thesis by simp
    next
      case False
      with push(3) inbound.length_bound [OF assms(1)]
      have "length (rb_list INBOUND_QUEUE_SIZE q) = unat INBOUND_QUEUE_SIZE - 1" by linarith
      with False push(1,2) show ?thesis by simp
    qed
  qed
  from parse_routes_or_drops [of identity msg zs q] show ?thesis
  proof
    assume "parseAndRouteMessage identity msg zs q = Some (False, q)"
    with assms show ?thesis by simp
  next
    assume "\<exists>sid body. zs_identityToSession zs identity = Some sid \<and>
        parseAndRouteMessage identity msg zs q = routeToInbound sid body q"
    then obtain sid body where sid: "zs_identityToSession zs identity = Some sid"
      and "routeToInbound sid body q = Some (ok, q')" using assms(2) by auto
    from route [OF this(2)] sid show ?thesis by (cases ok) auto
  qed
qed

theorem parse_uses_own_session_witness:
  "\<exists>ok q'. parseAndRouteMessage [65] (replicate 40 1) new_ZmqServer
       (mpsc_new default_InboundMessage) = Some (ok, q') \<and> mpsc_inv INBOUND_QUEUE_SIZE q'"
proof -
  let ?start = "mpsc_new default_InboundMessage"
  have inv: "mpsc_inv INBOUND_QUEUE_SIZE ?start"
    using queue_sizes_are_capacities(1)
    by (simp add: mpsc_inv_def rb_inv_def mpsc_new_def INBOUND_QUEUE_SIZE_def)
  have "parseAndRouteMessage [65] (replicate 40 1) new_ZmqServer ?start = Some (False, ?start)"
    by (simp add: parseAndRouteMessage_def new_ZmqServer_def sizeof_defs)
  with parse_uses_own_session [OF inv this] show ?thesis by blast
qed

text \<open>
  The server's two tables always agree with the session manager: handling an
  incoming message, a disconnect, or nothing at all keeps every identity's session and every
  session's identity the same on both sides.
\<close>

theorem server_tables_agree:
  assumes "server_inv zs sm" and "sessions_left sm"
    and "processIncoming identityFrame delimiterFrame messageFrame zs sm q = Some (zs', sm', q')"
  shows "server_inv zs' sm' \<and> server_inv (fst (snd (handleClientDisconnect identity zs sm)))
      (snd (snd (handleClientDisconnect identity zs sm)))"
proof -
  have "server_inv zs' sm'"
    using assms connectClient_keeps(1) [OF assms(1,2)]
    by (auto simp: processIncoming_def split: option.splits if_splits prod.splits)
  moreover obtain cb zs2 sm2 where "handleClientDisconnect identity zs sm = (cb, zs2, sm2)"
    using prod_cases3 by blast
  ultimately show ?thesis using handleClientDisconnect_keeps(1) [OF assms(1)] by simp
qed

theorem server_tables_agree_witness:
  "\<exists>zs sm q. processIncoming (Some [65]) (Some []) (Some [1]) new_ZmqServer new_SessionManager
       (mpsc_new default_InboundMessage) = Some (zs, sm, q) \<and> server_inv zs sm \<and>
     zs_identityToSession zs [65] = Some 1"
proof -
  obtain zs sm q where run: "processIncoming (Some [65]) (Some []) (Some [1]) new_ZmqServer
      new_SessionManager (mpsc_new default_InboundMessage) = Some (zs, sm, q)"
    and id: "zs_identityToSession zs [65] = Some 1"
    by (simp add: processIncoming_def connectClient_def new_ZmqServer_def createSession_def
        new_SessionManager_def parseAndRouteMessage_def sizeof_defs Let_def)
  have "sessions_left new_SessionManager" by (simp add: sessions_left_def new_SessionManager_def)
  from server_tables_agree [OF server_inv_new this run] run id show ?thesis by blast
qed

text \<open>
  Property C38. Draining the outbound queue returns and empties it, whichever sends fail. The
  queued responses whose sends all return are handed to the socket once each, in queue order, as
  identity, empty delimiter and the struct's bytes, addressed to the identity of their own session;
  the messages whose sends threw are those of the other responses, in queue order, and are not
  tried again; responses of sessions that are gone are dropped. The tables do not change.
\<close>

theorem processOutbound_delivers:
  assumes "rb_inv OUTBOUND_QUEUE_SIZE q" and "server_inv zs sm"
  shows "\<exists>zs' q'. processOutbound accepted zs q = Some (zs', q') \<and> rb_list OUTBOUND_QUEUE_SIZE q' = [] \<and>
    (let frames = (\<lambda>m. case sessions sm (om_sessionId m) of
           None \<Rightarrow> [] | Some s \<Rightarrow> [[zmqIdentity s, [], put_response (om_body m)]]);
         sends = zip (rb_list OUTBOUND_QUEUE_SIZE q) (map accepted [0..<length (rb_list OUTBOUND_QUEUE_SIZE q)])
     in zs_wire zs' = zs_wire zs @ concat [frames m. (m, k) \<leftarrow> sends, 3 \<le> k] \<and>
        map snd (zs_failed zs') = map snd (zs_failed zs) @ concat [frames m. (m, k) \<leftarrow> sends, k < 3]) \<and>
    server_inv zs' sm"
proof -
  let ?sends = "with_outcomes accepted (rb_list OUTBOUND_QUEUE_SIZE q)"
  obtain q' where run: "processOutbound accepted zs q = Some (send_all ?sends zs, q')"
    and empty: "rb_list OUTBOUND_QUEUE_SIZE q' = []"
    using processOutbound_drains [OF assms(1)] by blast
  let ?frames = "\<lambda>m. case sessions sm (om_sessionId m) of
      None \<Rightarrow> [] | Some s \<Rightarrow> [[zmqIdentity s, [], put_response (om_body m)]]"
  have table: "(case zs_sessionToIdentity zs (om_sessionId m) of
        None \<Rightarrow> [] | Some identity \<Rightarrow> [[identity, [], put_response (om_body m)]]) = ?frames m" for m
    using assms(2) by (simp add: server_inv_def split: option.split)
  have "responses (zs_sessionToIdentity zs) [m. (m, k) \<leftarrow> sends, P k] = concat [?frames m. (m, k) \<leftarrow> sends, P k]"
    for P and sends :: "(OutboundMessage \<times> nat) list"
    by (induction sends) (auto simp: table responses_append)
  then show ?thesis
    using run empty assms(2) send_all_logs [of ?sends zs]
    by (simp add: server_inv_def with_outcomes_def not_le Let_def)
qed

definition example_ack :: "SessionId \<Rightarrow> ClientOrderId \<Rightarrow> OutboundMessage" where
  "example_ack sid cid =
     \<lparr>om_sessionId = sid, om_body = CancelAckBody
        \<lparr>ca_header = zero_header, ca_clientOrderId = cid, ca_orderId = 1\<rparr>\<rparr>"

text \<open>
  Three responses wait: two for the connected client, of which the second send of the first one
  throws, and one for a session that is gone.
\<close>

theorem processOutbound_delivers_witness:
  "let (zs, sm) = connectClient [65] new_ZmqServer new_SessionManager;
       q = foldl (\<lambda>q m. snd (spsc_push OUTBOUND_QUEUE_SIZE m q)) (spsc_new default_OutboundMessage)
         [example_ack 1 70, example_ack 7 71, example_ack 1 72]
   in \<exists>zs' q'. processOutbound (\<lambda>n. if n = 0 then 1 else 3) zs q = Some (zs', q') \<and>
        rb_list OUTBOUND_QUEUE_SIZE q' = [] \<and>
        zs_wire zs' = [[[65], [], put_response (om_body (example_ack 1 72))]] \<and>
        map snd (zs_failed zs') = [[[65], [], put_response (om_body (example_ack 1 70))]]"
proof -
  let ?start = "spsc_new default_OutboundMessage" and ?ms = "[example_ack 1 70, example_ack 7 71, example_ack 1 72]"
  obtain zs sm where conn: "connectClient [65] new_ZmqServer new_SessionManager = (zs, sm)" by (rule prod.exhaust)
  have inv: "server_inv zs sm"
    by (rule connectClient_keeps(1) [OF server_inv_new _ conn]) (simp add: sessions_left_def new_SessionManager_def)
  have logs: "zs_wire zs = []" "zs_failed zs = []" and known: "sessions sm 7 = None"
    and one: "\<exists>s. sessions sm 1 = Some s \<and> zmqIdentity s = [65]"
    using conn by (auto simp: connectClient_def new_ZmqServer_def createSession_def new_SessionManager_def
        new_SessionInfo_def Let_def)
  have start: "rb_inv OUTBOUND_QUEUE_SIZE ?start" "rb_list OUTBOUND_QUEUE_SIZE ?start = []"
    using queue_sizes_are_capacities(2)
    by (simp_all add: rb_inv_def spsc_new_def OUTBOUND_QUEUE_SIZE_def rb_list_def rb_count_def)
  let ?q = "foldl (\<lambda>q m. snd (spsc_push OUTBOUND_QUEUE_SIZE m q)) ?start ?ms"
  have q: "rb_inv OUTBOUND_QUEUE_SIZE ?q" "rb_list OUTBOUND_QUEUE_SIZE ?q = ?ms"
    using outbound.push_all_contents [OF start(1), of ?ms, unfolded start(2)]
    by (simp_all add: OUTBOUND_QUEUE_SIZE_def)
  obtain s where "sessions sm 1 = Some s" "zmqIdentity s = [65]" using one by blast
  moreover have "om_sessionId (example_ack sid cid) = sid" for sid cid by (simp add: example_ack_def)
  moreover note processOutbound_delivers [OF q(1) inv, of "\<lambda>n. if n = 0 then 1 else 3", unfolded q(2) logs]
  ultimately show ?thesis
    unfolding conn Let_def split by (elim ex_forward) (simp add: known upt_rec)
qed

end
