(* ===== verification/Feed_Handler.thy ===== *)
theory Feed_Handler
  imports Ring_Queue Protocol_Wire
begin

text \<open>
  The classes \<open>UdpMulticast\<close> and \<open>FeedHandler\<close>: the consumer of the feed queue. The socket
  library is not modelled: \<open>network\<close> is what \<^verbatim>\<open>sendto\<close> will return for the next datagrams,
  \<open>address_ok\<close> whether \<^verbatim>\<open>inet_pton\<close> takes the group address, \<open>datagrams\<close> collects what
  \<^verbatim>\<open>sendto\<close> was called with, and \<open>sent_whole\<close> those of them for which it returned their length.
\<close>

section \<open>UdpMulticast\<close>

record UdpMulticast =
  socketFd :: int
  messagesSent :: "64 word"
  bytesSent :: "64 word"
  address_ok :: bool
  network :: "nat \<Rightarrow> bytes \<Rightarrow> int"
  datagrams :: "bytes list"
  sent_whole :: "bytes list"

definition new_UdpMulticast :: "bool \<Rightarrow> (nat \<Rightarrow> bytes \<Rightarrow> int) \<Rightarrow> UdpMulticast" where
  "new_UdpMulticast group_ok net =
     \<lparr>socketFd = -1, messagesSent = 0, bytesSent = 0, address_ok = group_ok, network = net,
      datagrams = [], sent_whole = []\<rparr>"

text \<open>\<open>initialize\<close>: the results of \<^verbatim>\<open>socket\<close> and of the TTL option.\<close>

definition udp_initialize :: "int \<Rightarrow> bool \<Rightarrow> UdpMulticast \<Rightarrow> bool \<times> UdpMulticast" where
  "udp_initialize fd ttl_ok u =
     (if fd < 0 then (False, u\<lparr>socketFd := fd\<rparr>)
      else if \<not> ttl_ok then (False, u\<lparr>socketFd := -1\<rparr>)
      else (True, u\<lparr>socketFd := fd\<rparr>))"

definition udp_shutdown :: "UdpMulticast \<Rightarrow> UdpMulticast" where
  "udp_shutdown u = (if socketFd u \<ge> 0 then u\<lparr>socketFd := -1\<rparr> else u)"

definition publish :: "bytes \<Rightarrow> UdpMulticast \<Rightarrow> bool \<times> UdpMulticast" where
  "publish data u =
     (if socketFd u < 0 then (False, u)
      else if \<not> address_ok u then (False, u)
      else
        let sent = network u 0 data;
            u1 = u\<lparr>network := \<lambda>n. network u (Suc n), datagrams := datagrams u @ [data]\<rparr>
        in if sent < 0 then (False, u1)
           else if (word_of_int sent :: size_t) \<noteq> word_of_nat (length data) then (False, u1)
           else (True, u1\<lparr>messagesSent := messagesSent u1 + 1,
                          bytesSent := bytesSent u1 + word_of_nat (length data),
                          sent_whole := sent_whole u1 @ [data]\<rparr>))"

definition publishMessage :: "MarketDataMessage \<Rightarrow> UdpMulticast \<Rightarrow> bool \<times> UdpMulticast" where
  "publishMessage msg u = publish (put_market_data msg) u"

section \<open>FeedHandler\<close>

record FeedHandler =
  fh_multicast :: UdpMulticast
  fh_symbol :: bytes
  fh_running :: bool
  ticksPublished :: "64 word"
  tradesPublished :: "64 word"

definition new_FeedHandler :: "UdpMulticast \<Rightarrow> bytes \<Rightarrow> FeedHandler" where
  "new_FeedHandler u sym_name =
     \<lparr>fh_multicast = u, fh_symbol = sym_name, fh_running = False, ticksPublished = 0,
      tradesPublished = 0\<rparr>"

definition processMessage :: "MarketDataMessage \<Rightarrow> FeedHandler \<Rightarrow> FeedHandler" where
  "processMessage msg fh =
     (let (ok, u) = publishMessage msg (fh_multicast fh);
          fh' = fh\<lparr>fh_multicast := u\<rparr>
      in case msg of
           TickMsg _ \<Rightarrow> if ok then fh'\<lparr>ticksPublished := ticksPublished fh' + 1\<rparr> else fh'
         | TradeMsg _ \<Rightarrow> if ok then fh'\<lparr>tradesPublished := tradesPublished fh' + 1\<rparr> else fh'
         | SnapshotMsg _ \<Rightarrow> fh')"

text \<open>The loop \<^verbatim>\<open>while (auto msgOpt = feedQueue_.pop())\<close>.\<close>

partial_function (option) drain_feed ::
  "FeedHandler \<Rightarrow> MarketDataMessage SPSCQueue \<Rightarrow> (FeedHandler \<times> MarketDataMessage SPSCQueue) option" where
  "drain_feed fh q =
     (case spsc_pop FEED_QUEUE_SIZE q of
        (None, q') \<Rightarrow> Some (fh, q')
      | (Some msg, q') \<Rightarrow> drain_feed (processMessage msg fh) q')"

text \<open>
  \<open>feedLoop\<close>: an entry of the list is what the producer pushes between two looks at
  \<open>running_\<close>; the last drain comes after \<open>stop\<close>.
\<close>

definition push_market_data ::
  "MarketDataMessage list \<Rightarrow> MarketDataMessage SPSCQueue \<Rightarrow> MarketDataMessage SPSCQueue" where
  "push_market_data ms q = foldl (\<lambda>q m. snd (spsc_push FEED_QUEUE_SIZE m q)) q ms"

fun feedLoop ::
  "MarketDataMessage list list \<Rightarrow> MarketDataMessage list \<Rightarrow> FeedHandler \<Rightarrow>
   MarketDataMessage SPSCQueue \<Rightarrow> (FeedHandler \<times> MarketDataMessage SPSCQueue) option" where
  "feedLoop [] late fh q = drain_feed fh (push_market_data late q)"
| "feedLoop (arrivals # rounds) late fh q =
     (case drain_feed fh (push_market_data arrivals q) of
        None \<Rightarrow> None
      | Some (fh', q') \<Rightarrow> feedLoop rounds late fh' q')"

definition feed_start :: "int \<Rightarrow> bool \<Rightarrow> FeedHandler \<Rightarrow> bool \<times> FeedHandler" where
  "feed_start fd ttl_ok fh =
     (if fh_running fh then (False, fh)
      else let (ok, u) = udp_initialize fd ttl_ok (fh_multicast fh)
           in if ok then (True, fh\<lparr>fh_running := True, fh_multicast := u\<rparr>)
              else (False, fh\<lparr>fh_running := False, fh_multicast := u\<rparr>))"

text \<open>\<open>stop\<close> clears the flag, joins the thread after its last drain and closes the socket.\<close>

definition feed_stop ::
  "MarketDataMessage list \<Rightarrow> FeedHandler \<Rightarrow> MarketDataMessage SPSCQueue \<Rightarrow>
   (FeedHandler \<times> MarketDataMessage SPSCQueue) option" where
  "feed_stop late fh q =
     (if \<not> fh_running fh then Some (fh, q)
      else map_option (\<lambda>(fh', q'). (fh'\<lparr>fh_multicast := udp_shutdown (fh_multicast fh')\<rparr>, q'))
             (feedLoop [] late (fh\<lparr>fh_running := False\<rparr>) q))"

text \<open>The two publishers of the class; the engine pushes its own messages.\<close>

definition publishTick ::
  "Timestamp \<Rightarrow> Price \<Rightarrow> Quantity \<Rightarrow> Price \<Rightarrow> Price \<Rightarrow> Quantity \<Rightarrow> Quantity \<Rightarrow> FeedHandler \<Rightarrow>
   MarketDataMessage SPSCQueue \<Rightarrow> MarketDataMessage SPSCQueue" where
  "publishTick now lastPrice lastQty bidPrice askPrice bidQty askQty fh q =
     snd (spsc_push FEED_QUEUE_SIZE (TickMsg
       \<lparr>tick_header = new_MessageHeader TICK_UPDATE (word_of_nat sizeof_TickUpdate) now,
        tick_symbol = symbol_field (fh_symbol fh), tick_lastPrice = lastPrice,
        tick_lastQty = lastQty, tick_bidPrice = bidPrice, tick_askPrice = askPrice,
        tick_bidQty = bidQty, tick_askQty = askQty\<rparr>) q)"

definition publishTrade ::
  "Timestamp \<Rightarrow> TradeId \<Rightarrow> Price \<Rightarrow> Quantity \<Rightarrow> BuySell \<Rightarrow> FeedHandler \<Rightarrow>
   MarketDataMessage SPSCQueue \<Rightarrow> MarketDataMessage SPSCQueue" where
  "publishTrade now tradeId price quantity aggressorSide fh q =
     snd (spsc_push FEED_QUEUE_SIZE (TradeMsg
       \<lparr>tu_header = new_MessageHeader TRADE_UPDATE (word_of_nat sizeof_TradeUpdate) now,
        tu_symbol = symbol_field (fh_symbol fh), tu_tradeId = tradeId, tu_price = price,
        tu_quantity = quantity, tu_aggressorSide = BuySell_code aggressorSide\<rparr>) q)"

section \<open>Draining the feed queue\<close>

lemma drain_feed_processes:
  "rb_inv FEED_QUEUE_SIZE q \<Longrightarrow>
   \<exists>q'. drain_feed fh q = Some (fold processMessage (rb_list FEED_QUEUE_SIZE q) fh, q') \<and>
        rb_inv FEED_QUEUE_SIZE q' \<and> rb_list FEED_QUEUE_SIZE q' = []"
proof (induction "rb_list FEED_QUEUE_SIZE q" arbitrary: q fh)
  case Nil
  from feed.pop_empty [OF Nil.prems Nil.hyps [symmetric]] Nil show ?case
    by (subst drain_feed.simps) simp
next
  case (Cons m ms)
  from feed.pop_some [OF Cons.prems Cons.hyps(2) [symmetric]] obtain q1 where
    pop: "spsc_pop FEED_QUEUE_SIZE q = (Some m, q1)" and inv: "rb_inv FEED_QUEUE_SIZE q1"
    and list: "rb_list FEED_QUEUE_SIZE q1 = ms" by blast
  have "drain_feed fh q = drain_feed (processMessage m fh) q1"
    by (subst drain_feed.simps) (simp add: pop)
  with Cons.hyps(1) [OF list [symmetric] inv, of "processMessage m fh"] Cons.hyps(2) [symmetric] list
  show ?case by simp
qed

text \<open>The multicast socket is open and the network takes every datagram whole.\<close>

definition healthy :: "UdpMulticast \<Rightarrow> bool" where
  "healthy u \<longleftrightarrow> 0 \<le> socketFd u \<and> address_ok u \<and> (\<forall>n data. network u n data = int (length data))"

definition is_tick :: "MarketDataMessage \<Rightarrow> bool" where
  "is_tick m = (case m of TickMsg _ \<Rightarrow> True | _ \<Rightarrow> False)"

definition is_trade :: "MarketDataMessage \<Rightarrow> bool" where
  "is_trade m = (case m of TradeMsg _ \<Rightarrow> True | _ \<Rightarrow> False)"

lemma publish_healthy:
  assumes "healthy u"
  shows "fst (publish data u)" and "healthy (snd (publish data u))"
    and "datagrams (snd (publish data u)) = datagrams u @ [data]"
    and "messagesSent (snd (publish data u)) = messagesSent u + 1"
    and "sent_whole (snd (publish data u)) = sent_whole u @ [data]"
  using assms by (simp_all add: publish_def healthy_def Let_def)

lemma processMessage_healthy:
  assumes "healthy (fh_multicast fh)"
  shows "healthy (fh_multicast (processMessage m fh))"
    and "datagrams (fh_multicast (processMessage m fh)) = datagrams (fh_multicast fh) @ [put_market_data m]"
    and "sent_whole (fh_multicast (processMessage m fh)) = sent_whole (fh_multicast fh) @ [put_market_data m]"
    and "ticksPublished (processMessage m fh) = ticksPublished fh + (if is_tick m then 1 else 0)"
    and "tradesPublished (processMessage m fh) = tradesPublished fh + (if is_trade m then 1 else 0)"
  using publish_healthy [OF assms, of "put_market_data m"]
  by (cases m; simp add: processMessage_def publishMessage_def Let_def split_beta is_tick_def
      is_trade_def)+

lemma processMessages_healthy:
  "healthy (fh_multicast fh) \<Longrightarrow>
   healthy (fh_multicast (fold processMessage ms fh)) \<and>
   datagrams (fh_multicast (fold processMessage ms fh)) =
     datagrams (fh_multicast fh) @ map put_market_data ms \<and>
   sent_whole (fh_multicast (fold processMessage ms fh)) =
     sent_whole (fh_multicast fh) @ map put_market_data ms \<and>
   ticksPublished (fold processMessage ms fh) =
     ticksPublished fh + word_of_nat (length (filter is_tick ms)) \<and>
   tradesPublished (fold processMessage ms fh) =
     tradesPublished fh + word_of_nat (length (filter is_trade ms))"
proof (induction ms arbitrary: fh)
  case (Cons m ms)
  note one = processMessage_healthy [OF Cons.prems, of m]
  from Cons.IH [OF one(1)] one show ?case by simp
qed simp

section \<open>Properties\<close>

text \<open>
  One drain of the feed queue returns and empties it; over a network that takes
  every datagram, each queued message goes out as one datagram with the message's bytes, in queue
  order, and the counters count the ticks and the trades.
\<close>

theorem feed_drain_publishes_all:
  assumes "rb_inv FEED_QUEUE_SIZE q" and "healthy (fh_multicast fh)"
  shows "\<exists>fh' q'. drain_feed fh q = Some (fh', q') \<and> rb_list FEED_QUEUE_SIZE q' = [] \<and>
    datagrams (fh_multicast fh') =
      datagrams (fh_multicast fh) @ map put_market_data (rb_list FEED_QUEUE_SIZE q) \<and>
    sent_whole (fh_multicast fh') =
      sent_whole (fh_multicast fh) @ map put_market_data (rb_list FEED_QUEUE_SIZE q) \<and>
    ticksPublished fh' =
      ticksPublished fh + word_of_nat (length (filter is_tick (rb_list FEED_QUEUE_SIZE q))) \<and>
    tradesPublished fh' =
      tradesPublished fh + word_of_nat (length (filter is_trade (rb_list FEED_QUEUE_SIZE q)))"
  using drain_feed_processes [OF assms(1), of fh] processMessages_healthy [OF assms(2)] by blast

definition example_feed :: FeedHandler where
  "example_feed =
     \<lparr>fh_multicast = \<lparr>socketFd = 3, messagesSent = 0, bytesSent = 0, address_ok = True,
        network = (\<lambda>_ data. int (length data)), datagrams = [], sent_whole = []\<rparr>,
      fh_symbol = [83, 89, 77, 49], fh_running = True, ticksPublished = 0, tradesPublished = 0\<rparr>"

theorem feed_drain_publishes_all_witness:
  "\<exists>fh' q'. drain_feed example_feed (publishTick 0 100 5 99 101 1 2 example_feed
       (spsc_new default_MarketDataMessage)) = Some (fh', q') \<and>
     length (datagrams (fh_multicast fh')) = 1 \<and> ticksPublished fh' = 1"
proof -
  let ?start = "spsc_new default_MarketDataMessage :: MarketDataMessage SPSCQueue"
  let ?q = "publishTick 0 100 5 99 101 1 2 example_feed ?start"
  have inv0: "rb_inv FEED_QUEUE_SIZE ?start"
    using queue_sizes_are_capacities(3) by (simp add: rb_inv_def spsc_new_def FEED_QUEUE_SIZE_def)
  have empty: "rb_list FEED_QUEUE_SIZE ?start = []"
    by (simp add: rb_list_def rb_count_def spsc_new_def FEED_QUEUE_SIZE_def)
  have inv: "rb_inv FEED_QUEUE_SIZE ?q"
    unfolding publishTick_def by (rule feed.push_contents(1) [OF inv0])
  have "\<exists>t. rb_list FEED_QUEUE_SIZE ?q = [TickMsg t]"
    unfolding publishTick_def feed.push_contents(2) [OF inv0] empty
    by (simp add: FEED_QUEUE_SIZE_def)
  moreover have "healthy (fh_multicast example_feed)" by (simp add: healthy_def example_feed_def)
  ultimately show ?thesis
    using feed_drain_publishes_all [OF inv, of example_feed]
    by (auto simp: is_tick_def example_feed_def)
qed

end
