(* ===== verification/Dummy_Generator.thy ===== *)
theory Dummy_Generator
  imports Complex_Main Engine_Effects Client "HOL-Library.Monad_Syntax" "HOL-Library.Signed_Division"
begin

text \<open>
  The class \<open>DummyGenerator\<close> of \<^verbatim>\<open>include/DummyGenerator.h\<close> and \<^verbatim>\<open>src/DummyGenerator.cpp\<close>: a
  random walk of prices turned into requests at a configured rate.

  The random engine is a parameter: \<open>gen_reals\<close> is what \<^verbatim>\<open>uniformDist_(rng_)\<close> yields on its next
  calls, \<open>gen_ints\<close> what a \<^verbatim>\<open>uniform_int_distribution\<close> with given bounds yields. A
  \<^verbatim>\<open>double\<close> is a real number and every operation on doubles is the exact one followed by the
  rounding \<open>fl\<close>, an argument of the definitions; IEEE 754 rounding is monotone and exact on small
  integers and halves (\<open>rounding_ok\<close>). Signed overflow, a conversion out of range and a division
  by zero are undefined in C++: the model returns \<open>None\<close> there, and where the push on the inbound
  queue would spin.
\<close>

section \<open>State\<close>

record DummyConfig =
  basePrice :: Price
  priceRange :: Price
  tickSize :: Price
  minQuantity :: Quantity
  maxQuantity :: Quantity
  ordersPerSecond :: "32 word"
  buyRatio :: real
  limitRatio :: real
  marketRatio :: real
  iocRatio :: real

definition default_DummyConfig :: DummyConfig where
  "default_DummyConfig =
     \<lparr>basePrice = 1000, priceRange = 100, tickSize = 1, minQuantity = 1, maxQuantity = 100,
      ordersPerSecond = 10, buyRatio = 1 / 2, limitRatio = 8 / 10, marketRatio = 1 / 10,
      iocRatio = 1 / 10\<rparr>"

record DummyGenerator =
  config :: DummyConfig
  dg_running :: bool
  ordersGenerated :: "64 word"
  nextClientOrderId :: ClientOrderId
  gen_reals :: "nat \<Rightarrow> real"
  gen_ints :: "nat \<Rightarrow> Quantity \<Rightarrow> Quantity \<Rightarrow> Quantity"
  gen_clock :: "nat \<Rightarrow> Timestamp"
  currentPrice :: Price

definition new_DummyGenerator ::
  "(nat \<Rightarrow> real) \<Rightarrow> (nat \<Rightarrow> Quantity \<Rightarrow> Quantity \<Rightarrow> Quantity) \<Rightarrow> (nat \<Rightarrow> Timestamp) \<Rightarrow> DummyGenerator" where
  "new_DummyGenerator reals ints time =
     \<lparr>config = default_DummyConfig, dg_running = False, ordersGenerated = 0, nextClientOrderId = 1,
      gen_reals = reals, gen_ints = ints, gen_clock = time,
      currentPrice = basePrice default_DummyConfig\<rparr>"

definition setConfig :: "DummyConfig \<Rightarrow> DummyGenerator \<Rightarrow> DummyGenerator" where
  "setConfig c g = g\<lparr>config := c, currentPrice := basePrice c\<rparr>"

definition dummy_start :: "DummyGenerator \<Rightarrow> bool \<times> DummyGenerator" where
  "dummy_start g =
     (if dg_running g then (False, g)
      else (True, g\<lparr>dg_running := True, currentPrice := basePrice (config g)\<rparr>))"

text \<open>\<open>stop\<close> clears the flag and joins the thread, whose loop ends at its next look at the flag.\<close>

definition dummy_stop :: "DummyGenerator \<Rightarrow> DummyGenerator" where
  "dummy_stop g = (if dg_running g then g\<lparr>dg_running := False\<rparr> else g)"

section \<open>Random choices\<close>

definition draw :: "DummyGenerator \<Rightarrow> real \<times> DummyGenerator" where
  "draw g = (gen_reals g 0, g\<lparr>gen_reals := \<lambda>n. gen_reals g (Suc n)\<rparr>)"

definition generateQuantity :: "DummyGenerator \<Rightarrow> Quantity \<times> DummyGenerator" where
  "generateQuantity g =
     (gen_ints g 0 (minQuantity (config g)) (maxQuantity (config g)),
      g\<lparr>gen_ints := \<lambda>n. gen_ints g (Suc n)\<rparr>)"

definition generateSide :: "DummyGenerator \<Rightarrow> BuySell \<times> DummyGenerator" where
  "generateSide g = (let (u, g') = draw g in (if u < buyRatio (config g) then BUY else SELL, g'))"

definition generateOrderType :: "(real \<Rightarrow> real) \<Rightarrow> DummyGenerator \<Rightarrow> OrderType \<times> DummyGenerator" where
  "generateOrderType fl g =
     (let (r, g') = draw g
      in (if r < limitRatio (config g) then LIMIT
          else if r < fl (limitRatio (config g) + marketRatio (config g)) then MARKET
          else IOC, g'))"

text \<open>\<^verbatim>\<open>static_cast<Price>(double)\<close> cuts off towards zero.\<close>

definition trunc :: "real \<Rightarrow> int" where
  "trunc x = (if 0 \<le> x then \<lfloor>x\<rfloor> else \<lceil>x\<rceil>)"

definition checked :: "int \<Rightarrow> Price option" where
  "checked v = (if fits_int32 v then Some (word_of_int v) else None)"

definition clamp_price :: "Price \<Rightarrow> Price \<Rightarrow> Price \<Rightarrow> Price" where
  "clamp_price minPrice maxPrice p =
     (let low = (if sint p < sint minPrice then minPrice else p)
      in if sint low > sint maxPrice then maxPrice else low)"

definition generatePrice :: "(real \<Rightarrow> real) \<Rightarrow> DummyGenerator \<Rightarrow> (Price \<times> DummyGenerator) option" where
  "generatePrice fl g =
     (let c = config g;
          (u, g1) = draw g;
          priceChange = fl (fl (fl (fl (u - 1 / 2) * 2) * of_int (sint (tickSize c))) * 3)
      in do {
        change \<leftarrow> checked (trunc priceChange);
        walked \<leftarrow> checked (sint (currentPrice g1) + sint change);
        minPrice \<leftarrow> checked (sint (basePrice c) - sint (priceRange c));
        maxPrice \<leftarrow> checked (sint (basePrice c) + sint (priceRange c));
        let cur = clamp_price minPrice maxPrice walked;
        (if tickSize c = 0 then None else Some ());
        ticks \<leftarrow> checked (sint cur sdiv sint (tickSize c));
        price \<leftarrow> checked (sint ticks * sint (tickSize c));
        Some (if sint price < 1 then tickSize c else price, g1\<lparr>currentPrice := cur\<rparr>)
      })"

text \<open>\<open>static_cast<Price>(uniformDist_(rng_) * 5) * config_.tickSize\<close>.\<close>

definition price_offset :: "(real \<Rightarrow> real) \<Rightarrow> DummyGenerator \<Rightarrow> (Price \<times> DummyGenerator) option" where
  "price_offset fl g =
     (let (u, g1) = draw g in do {
        steps \<leftarrow> checked (trunc (fl (u * 5)));
        off \<leftarrow> checked (sint steps * sint (tickSize (config g1)));
        Some (off, g1)
      })"

definition request_price ::
  "(real \<Rightarrow> real) \<Rightarrow> BuySell \<Rightarrow> OrderType \<Rightarrow> DummyGenerator \<Rightarrow> (Price \<times> DummyGenerator) option" where
  "request_price fl side orderType g =
     (if orderType = MARKET then Some (0, g)
      else do {
        (price, g1) \<leftarrow> generatePrice fl g;
        (off, g2) \<leftarrow> price_offset fl g1;
        final \<leftarrow> checked (if side = BUY then sint price - sint off else sint price + sint off);
        Some (final, g2)
      })"

definition generate_request ::
  "(real \<Rightarrow> real) \<Rightarrow> DummyGenerator \<Rightarrow> (InboundMessage \<times> DummyGenerator) option" where
  "generate_request fl g0 =
     (let now = gen_clock g0 0;
          clientOrderId = nextClientOrderId g0;
          g = g0\<lparr>gen_clock := \<lambda>n. gen_clock g0 (Suc n), nextClientOrderId := clientOrderId + 1\<rparr>;
          (side, g1) = generateSide g;
          (orderType, g2) = generateOrderType fl g1;
          (quantity, g3) = generateQuantity g2
      in do {
        (price, g4) \<leftarrow> request_price fl side orderType g3;
        Some (\<lparr>im_sessionId = DUMMY_SESSION_ID, im_body = NewOrderBody
                 (new_NewOrderRequest now clientOrderId (BuySell_code side) (OrderType_code orderType)
                    price quantity)\<rparr>, g4)
      })"

definition generateOrder ::
  "(real \<Rightarrow> real) \<Rightarrow> DummyGenerator \<Rightarrow> InboundMessage MPSCQueue \<Rightarrow>
   (DummyGenerator \<times> InboundMessage MPSCQueue) option" where
  "generateOrder fl g q =
     do {
       (msg, g1) \<leftarrow> generate_request fl g;
       (pushed, q1) \<leftarrow> mpsc_push INBOUND_QUEUE_SIZE msg q;
       Some (if pushed then g1\<lparr>ordersGenerated := ordersGenerated g1 + 1\<rparr> else g1, q1)
     }"

section \<open>The pacing loop\<close>

text \<open>
  \<open>generatorLoop\<close>: one element of the list is the reading of \<^verbatim>\<open>steady_clock\<close>, in nanoseconds, of
  one round; the list ends when \<open>stop\<close> clears the flag. A round that is not due only sleeps. The
  result also says at which readings an order was due. \<^verbatim>\<open>microseconds(1000000 / ordersPerSecond)\<close>
  divides unsigned 32-bit integers.
\<close>

definition interval_ns :: "DummyConfig \<Rightarrow> int" where
  "interval_ns c = 1000 * uint (1000000 div ordersPerSecond c)"

definition next_due :: "int \<Rightarrow> int \<Rightarrow> int \<Rightarrow> int" where
  "next_due interval now nextOrderTime =
     (let t = nextOrderTime + interval in if t < now then now + interval else t)"

fun generator_rounds ::
  "(real \<Rightarrow> real) \<Rightarrow> int \<Rightarrow> int list \<Rightarrow> int \<Rightarrow> DummyGenerator \<Rightarrow> InboundMessage MPSCQueue \<Rightarrow>
   (int list \<times> DummyGenerator \<times> InboundMessage MPSCQueue) option" where
  "generator_rounds fl interval [] nextOrderTime g q = Some ([], g, q)"
| "generator_rounds fl interval (now # rounds) nextOrderTime g q =
     (if now \<ge> nextOrderTime then do {
        (g1, q1) \<leftarrow> generateOrder fl g q;
        (due, g2, q2) \<leftarrow> generator_rounds fl interval rounds (next_due interval now nextOrderTime) g1 q1;
        Some (now # due, g2, q2)
      }
      else generator_rounds fl interval rounds nextOrderTime g q)"

definition generatorLoop ::
  "(real \<Rightarrow> real) \<Rightarrow> int \<Rightarrow> int list \<Rightarrow> DummyGenerator \<Rightarrow> InboundMessage MPSCQueue \<Rightarrow>
   (int list \<times> DummyGenerator \<times> InboundMessage MPSCQueue) option" where
  "generatorLoop fl started rounds g q =
     (if ordersPerSecond (config g) = 0 then Some ([], g, q)
      else generator_rounds fl (interval_ns (config g)) rounds started g q)"

section \<open>Rounding and truncation\<close>

definition rounding_ok :: "(real \<Rightarrow> real) \<Rightarrow> bool" where
  "rounding_ok fl \<longleftrightarrow> mono fl \<and> (\<forall>k :: int. \<bar>k\<bar> \<le> 2 ^ 53 \<longrightarrow> fl (of_int k / 2) = of_int k / 2)"

lemma rounding_exact:
  assumes "rounding_ok fl" and "\<bar>k\<bar> \<le> 2 ^ 52"
  shows "fl (of_int k) = of_int k"
proof -
  have "\<bar>2 * k\<bar> \<le> 2 ^ 53" using assms(2) by simp
  with assms(1) have "fl (of_int (2 * k) / 2) = of_int (2 * k) / 2"
    unfolding rounding_ok_def by blast
  then show ?thesis by simp
qed

text \<open>Rounding keeps a value between two integers.\<close>

lemma rounding_between:
  assumes "rounding_ok fl" and "of_int a \<le> x" and "x \<le> of_int b" and "\<bar>a\<bar> \<le> 2 ^ 52" and "\<bar>b\<bar> \<le> 2 ^ 52"
  shows "of_int a \<le> fl x" and "fl x \<le> of_int b"
proof -
  have "mono fl" using assms(1) by (simp add: rounding_ok_def)
  from monoD [OF this assms(2)] monoD [OF this assms(3)]
  show "of_int a \<le> fl x" and "fl x \<le> of_int b"
    using rounding_exact [OF assms(1)] assms(4,5) by simp_all
qed

lemma trunc_between: "of_int a \<le> x \<Longrightarrow> x \<le> of_int b \<Longrightarrow> a \<le> trunc x \<and> trunc x \<le> b"
  unfolding trunc_def by (cases "0 \<le> x") (auto simp: le_floor_iff floor_le_iff ceiling_le_iff le_ceiling_iff)

lemma half_between:
  assumes "rounding_ok fl" and "0 \<le> u" and "u \<le> 1"
  shows "- (1 / 2) \<le> fl (u - 1 / 2)" and "fl (u - 1 / 2) \<le> 1 / 2"
proof -
  from assms(1) have mono: "mono fl" and half: "\<forall>k :: int. \<bar>k\<bar> \<le> 2 ^ 53 \<longrightarrow> fl (of_int k / 2) = of_int k / 2"
    unfolding rounding_ok_def by blast+
  have "fl (- (1 / 2)) = - (1 / 2)" "fl (1 / 2) = 1 / 2"
    using half [rule_format, of "-1"] half [rule_format, of 1] by simp_all
  moreover have "fl (- (1 / 2)) \<le> fl (u - 1 / 2)" "fl (u - 1 / 2) \<le> fl (1 / 2)"
    using assms(2,3) by (auto intro!: monoD [OF mono])
  ultimately show "- (1 / 2) \<le> fl (u - 1 / 2)" and "fl (u - 1 / 2) \<le> 1 / 2" by linarith+
qed

section \<open>Bounds of the walk\<close>

text \<open>
  A configuration under which nothing overflows and no price falls to zero: the largest buy offset
  is five ticks, and rounding to a tick loses less than one.
\<close>

definition config_ok :: "DummyConfig \<Rightarrow> bool" where
  "config_ok c \<longleftrightarrow>
     0 < sint (tickSize c) \<and> 0 \<le> sint (priceRange c) \<and>
     6 * sint (tickSize c) < sint (basePrice c) - sint (priceRange c) \<and>
     sint (basePrice c) + sint (priceRange c) + 5 * sint (tickSize c) < 2 ^ 31 \<and>
     0 < minQuantity c \<and> minQuantity c \<le> maxQuantity c"

definition draws_ok :: "DummyGenerator \<Rightarrow> bool" where
  "draws_ok g \<longleftrightarrow> (\<forall>n. 0 \<le> gen_reals g n \<and> gen_reals g n \<le> 1) \<and>
     (\<forall>n a b. a \<le> b \<longrightarrow> a \<le> gen_ints g n a b \<and> gen_ints g n a b \<le> b)"

definition walk_ok :: "DummyGenerator \<Rightarrow> bool" where
  "walk_ok g \<longleftrightarrow> sint (basePrice (config g)) - sint (priceRange (config g)) \<le> sint (currentPrice g) \<and>
     sint (currentPrice g) \<le> sint (basePrice (config g)) + sint (priceRange (config g))"

lemma checked_fits: "fits_int32 v \<Longrightarrow> \<exists>w. checked v = Some w \<and> sint w = v"
  unfolding checked_def by (auto simp: fits_int32_def sint_sbintrunc' signed_take_bit_int_eq_self)

lemma scaled_between:
  fixes x :: real and t :: int
  assumes "- 1 \<le> x" and "x \<le> 1" and "0 \<le> t"
  shows "of_int (- t) \<le> x * of_int t" and "x * of_int t \<le> of_int t"
  using mult_right_mono [OF assms(1), of "of_int t"] mult_right_mono [OF assms(2), of "of_int t"] assms(3)
  by simp_all

lemma walk_change_bound:
  fixes t :: int
  assumes fl: "rounding_ok fl" and u: "0 \<le> u" "u \<le> 1" and t: "0 \<le> t" "t < 2 ^ 31"
  shows "\<bar>trunc (fl (fl (fl (fl (u - 1 / 2) * 2) * of_int t) * 3))\<bar> \<le> 3 * t"
proof -
  have "- 1 \<le> fl (u - 1 / 2) * 2" "fl (u - 1 / 2) * 2 \<le> 1"
    using half_between [OF fl u] by simp_all
  then have "- 1 \<le> fl (fl (u - 1 / 2) * 2)" "fl (fl (u - 1 / 2) * 2) \<le> 1"
    using rounding_between [OF fl, of "-1" _ 1] by simp_all
  from scaled_between [OF this t(1)]
  have "of_int (- t) \<le> fl (fl (fl (u - 1 / 2) * 2) * of_int t)" "fl (fl (fl (u - 1 / 2) * 2) * of_int t) \<le> of_int t"
    using rounding_between [OF fl, of "- t" _ t] t by simp_all
  then have "of_int (- (3 * t)) \<le> fl (fl (fl (fl (u - 1 / 2) * 2) * of_int t) * 3)"
    "fl (fl (fl (fl (u - 1 / 2) * 2) * of_int t) * 3) \<le> of_int (3 * t)"
    using rounding_between [OF fl, of "- (3 * t)" "fl (fl (fl (u - 1 / 2) * 2) * of_int t) * 3" "3 * t"] t
    by simp_all
  from trunc_between [OF this] show ?thesis unfolding abs_le_iff by linarith
qed

lemma tick_round:
  fixes c t :: int
  assumes "0 \<le> c" and "0 < t"
  shows "c - t < (c sdiv t) * t" and "(c sdiv t) * t \<le> c" and "0 \<le> c sdiv t" and "c sdiv t \<le> c"
proof -
  have eq: "c sdiv t = c div t" using assms by (simp add: signed_divide_int_def sgn_if)
  have "c = (c div t) * t + c mod t" by simp
  moreover have "0 \<le> c mod t" "c mod t < t" using assms by simp_all
  ultimately show "c - t < (c sdiv t) * t" and "(c sdiv t) * t \<le> c" unfolding eq by linarith+
  show "0 \<le> c sdiv t" using assms by (simp add: eq pos_imp_zdiv_nonneg_iff)
  show "c sdiv t \<le> c" using assms zdiv_mono2 [of c 1 t] by (simp add: eq)
qed

lemma draw_ok:
  assumes "draws_ok g"
  shows "0 \<le> fst (draw g)" "fst (draw g) \<le> 1" "draws_ok (snd (draw g))"
  using assms by (simp_all add: draws_ok_def draw_def)

lemma generatePrice_bounds:
  assumes fl: "rounding_ok fl" and c: "config_ok (config g)" and d: "draws_ok g" and w: "walk_ok g"
  shows "\<exists>p cur. generatePrice fl g = Some (p, (snd (draw g))\<lparr>currentPrice := cur\<rparr>) \<and>
    walk_ok (g\<lparr>currentPrice := cur\<rparr>) \<and> 5 * sint (tickSize (config g)) < sint p \<and>
    sint p \<le> sint (basePrice (config g)) + sint (priceRange (config g))"
proof -
  define b r k where brk: "b = sint (basePrice (config g))" "r = sint (priceRange (config g))"
    "k = sint (tickSize (config g))"
  have conf: "0 < k" "0 \<le> r" "6 * k < b - r" "b + r + 5 * k < 2 ^ 31"
    using c by (simp_all add: config_ok_def brk)
  have walk: "b - r \<le> sint (currentPrice g)" "sint (currentPrice g) \<le> b + r"
    using w by (simp_all add: walk_ok_def brk)
  define chg where "chg = trunc (fl (fl (fl (fl (fst (draw g) - 1 / 2) * 2) * of_int k) * 3))"
  have "\<bar>chg\<bar> \<le> 3 * k"
    unfolding chg_def using walk_change_bound [OF fl draw_ok(1,2) [OF d], of k] conf by simp
  then have chg: "- (3 * k) \<le> chg" "chg \<le> 3 * k" by linarith+
  obtain cw where cw: "checked chg = Some cw" "sint cw = chg"
    using checked_fits [of chg] chg conf by (auto simp: fits_int32_def)
  obtain ww where ww: "checked (sint (currentPrice g) + chg) = Some ww" "sint ww = sint (currentPrice g) + chg"
    using checked_fits [of "sint (currentPrice g) + chg"] chg conf walk by (auto simp: fits_int32_def)
  obtain lo where lo: "checked (b - r) = Some lo" "sint lo = b - r"
    using checked_fits [of "b - r"] conf by (auto simp: fits_int32_def)
  obtain hi where hi: "checked (b + r) = Some hi" "sint hi = b + r"
    using checked_fits [of "b + r"] conf by (auto simp: fits_int32_def)
  define cur where "cur = clamp_price lo hi ww"
  have cur: "b - r \<le> sint cur" "sint cur \<le> b + r"
    unfolding cur_def clamp_price_def using lo hi conf by (auto simp: Let_def)
  have pos: "0 \<le> sint cur" using cur conf by simp
  note round = tick_round [OF pos conf(1)]
  obtain tw where tw: "checked (sint cur sdiv k) = Some tw" "sint tw = sint cur sdiv k"
    using checked_fits [of "sint cur sdiv k"] round cur conf by (auto simp: fits_int32_def)
  obtain pw where pw: "checked (sint cur sdiv k * k) = Some pw" "sint pw = sint cur sdiv k * k"
    using checked_fits [of "sint cur sdiv k * k"] round cur conf by (auto simp: fits_int32_def)
  have price: "5 * k < sint pw" "sint pw \<le> b + r" using pw round cur conf by linarith+
  have "\<not> sint cur sdiv k * k < 1" using round(1) cur(1) conf by linarith
  moreover have "tickSize (config g) \<noteq> 0" using conf(1) by (auto simp: brk)
  moreover have "draw g = (fst (draw g), snd (draw g))" "currentPrice (snd (draw g)) = currentPrice g" by (simp_all add: draw_def)
  ultimately have "generatePrice fl g = Some (pw, (snd (draw g))\<lparr>currentPrice := cur\<rparr>)"
    using cw ww lo hi tw pw
    unfolding generatePrice_def Let_def brk [symmetric]
    by (simp add: chg_def [symmetric] cur_def [symmetric] split_beta)
  then show ?thesis
    using cur price by (intro exI [of _ pw] exI [of _ cur]) (simp add: walk_ok_def brk)
qed

lemma price_offset_bounds:
  assumes fl: "rounding_ok fl" and c: "config_ok (config g)" and d: "draws_ok g"
  shows "\<exists>off. price_offset fl g = Some (off, snd (draw g)) \<and> 0 \<le> sint off \<and>
    sint off \<le> 5 * sint (tickSize (config g))"
proof -
  define k where "k = sint (tickSize (config g))"
  have k: "0 < k" "5 * k < 2 ^ 31" using c by (simp_all add: config_ok_def k_def)
  define n where "n = trunc (fl (fst (draw g) * 5))"
  have "of_int 0 \<le> fst (draw g) * 5" "fst (draw g) * 5 \<le> of_int 5" using draw_ok [OF d] by simp_all
  from rounding_between [OF fl this] trunc_between [of 0 "fl (fst (draw g) * 5)" 5]
  have n: "0 \<le> n" "n \<le> 5" by (simp_all add: n_def)
  obtain s where s: "checked n = Some s" "sint s = n"
    using checked_fits [of n] n by (auto simp: fits_int32_def)
  have nk: "0 \<le> n * k" "n * k \<le> 5 * k" using n k mult_right_mono [of n 5 k] by simp_all
  have fits: "fits_int32 (n * k)" unfolding fits_int32_def using nk k by linarith
  obtain off where off: "checked (n * k) = Some off" "sint off = n * k"
    using checked_fits [of "n * k"] fits by blast
  have "config (snd (draw g)) = config g" by (simp add: draw_def)
  then have "price_offset fl g = Some (off, snd (draw g))"
    unfolding price_offset_def Let_def using s off
    by (simp add: split_beta n_def [symmetric] k_def [symmetric])
  then show ?thesis using nk off by (intro exI [of _ off]) (simp add: k_def)
qed

lemma ok_frame:
  "draws_ok (g\<lparr>currentPrice := p\<rparr>) = draws_ok g"
  "config (snd (draw g)) = config g" "currentPrice (snd (draw g)) = currentPrice g"
  "walk_ok (snd (draw g)) = walk_ok g"
  "nextClientOrderId (snd (draw g)) = nextClientOrderId g"
  "ordersGenerated (snd (draw g)) = ordersGenerated g"
  by (simp_all add: draws_ok_def draw_def walk_ok_def)

lemma request_price_bounds:
  assumes fl: "rounding_ok fl" and c: "config_ok (config g)" and d: "draws_ok g" and w: "walk_ok g"
  shows "\<exists>p g'. request_price fl side orderType g = Some (p, g') \<and>
    (orderType \<noteq> MARKET \<longrightarrow> 0 < sint p) \<and> walk_ok g' \<and> draws_ok g' \<and> config g' = config g \<and>
    nextClientOrderId g' = nextClientOrderId g \<and> ordersGenerated g' = ordersGenerated g"
proof (cases "orderType = MARKET")
  case True
  with d w show ?thesis by (simp add: request_price_def)
next
  case False
  obtain p cur where p: "generatePrice fl g = Some (p, (snd (draw g))\<lparr>currentPrice := cur\<rparr>)"
    "walk_ok (g\<lparr>currentPrice := cur\<rparr>)" "5 * sint (tickSize (config g)) < sint p"
    "sint p \<le> sint (basePrice (config g)) + sint (priceRange (config g))"
    using generatePrice_bounds [OF assms] by blast
  let ?g = "(snd (draw g))\<lparr>currentPrice := cur\<rparr>"
  have g: "config ?g = config g" "draws_ok ?g" "walk_ok ?g"
    using draw_ok(3) [OF d] p(2) by (simp_all add: ok_frame) (simp add: walk_ok_def draw_def)
  with c have "config_ok (config ?g)" by simp
  from price_offset_bounds [OF fl this g(2)] obtain off where off:
    "price_offset fl ?g = Some (off, snd (draw ?g))" "0 \<le> sint off" "sint off \<le> 5 * sint (tickSize (config g))"
    unfolding g(1) by blast
  define v where "v = (if side = BUY then sint p - sint off else sint p + sint off)"
  have v: "0 < v" "v < 2 ^ 31"
    using p(3,4) off(2,3) c by (auto simp: v_def config_ok_def)
  obtain x where x: "checked v = Some x" "sint x = v"
    using checked_fits [of v] v by (auto simp: fits_int32_def)
  have "request_price fl side orderType g = Some (x, snd (draw ?g))"
    using False p(1) off(1) x by (simp add: request_price_def v_def)
  then show ?thesis
    using x v draw_ok(3) [OF g(2)] g by (intro exI [of _ x] exI [of _ "snd (draw ?g)"]) (simp add: ok_frame)
qed

text \<open>A request is always produced, it is one the engine accepts, and the walk goes on.\<close>

lemma generate_request_ok:
  assumes fl: "rounding_ok fl" and c: "config_ok (config g)" and d: "draws_ok g" and w: "walk_ok g"
  shows "\<exists>request side orderType g'. generate_request fl g =
      Some (\<lparr>im_sessionId = DUMMY_SESSION_ID, im_body = NewOrderBody request\<rparr>, g') \<and>
    acceptable request side orderType \<and> nor_clientOrderId request = nextClientOrderId g \<and>
    nextClientOrderId g' = nextClientOrderId g + 1 \<and> ordersGenerated g' = ordersGenerated g \<and>
    config g' = config g \<and> draws_ok g' \<and> walk_ok g'"
proof -
  define g1 where "g1 = g\<lparr>gen_clock := \<lambda>n. gen_clock g (Suc n), nextClientOrderId := nextClientOrderId g + 1\<rparr>"
  define side where "side = fst (generateSide g1)"
  define g2 where "g2 = snd (draw g1)"
  define ot where "ot = fst (generateOrderType fl g2)"
  define g3 where "g3 = snd (draw g2)"
  define qty where "qty = fst (generateQuantity g3)"
  define g4 where "g4 = snd (generateQuantity g3)"
  have ok1: "draws_ok g1" "walk_ok g1" "config g1 = config g"
    using d w by (simp_all add: g1_def draws_ok_def walk_ok_def)
  have ok3: "draws_ok g3" "walk_ok g3" "config g3 = config g"
    using draw_ok(3) [OF draw_ok(3) [OF ok1(1)]] ok1 by (simp_all add: g2_def g3_def ok_frame)
  have ok4: "draws_ok g4" "walk_ok g4" "config g4 = config g"
    using ok3 by (simp_all add: g4_def generateQuantity_def draws_ok_def walk_ok_def)
  have ids: "nextClientOrderId g4 = nextClientOrderId g + 1" "ordersGenerated g4 = ordersGenerated g"
    by (simp_all add: g4_def generateQuantity_def g3_def g2_def ok_frame) (simp_all add: g1_def)
  have "minQuantity (config g) \<le> qty" using ok3 c
    by (simp add: qty_def generateQuantity_def draws_ok_def config_ok_def)
  then have qty: "0 < qty" using c less_le_trans unfolding config_ok_def by blast
  from c ok4(3) have "config_ok (config g4)" by simp
  from request_price_bounds [OF fl this ok4(1,2), of side ot] obtain p g5 where p:
    "request_price fl side ot g4 = Some (p, g5)" "ot \<noteq> MARKET \<longrightarrow> 0 < sint p" "walk_ok g5" "draws_ok g5"
    "config g5 = config g4" "nextClientOrderId g5 = nextClientOrderId g4"
    "ordersGenerated g5 = ordersGenerated g4" by blast
  have kinds: "side = BUY \<or> side = SELL" "ot = LIMIT \<or> ot = MARKET \<or> ot = IOC"
    by (simp_all add: side_def generateSide_def ot_def generateOrderType_def split_beta)
  let ?r = "new_NewOrderRequest (gen_clock g 0) (nextClientOrderId g) (BuySell_code side) (OrderType_code ot) p qty"
  have "generate_request fl g = Some (\<lparr>im_sessionId = DUMMY_SESSION_ID, im_body = NewOrderBody ?r\<rparr>, g5)"
  proof -
    have "generateSide g1 = (side, g2)" "generateOrderType fl g2 = (ot, g3)" "generateQuantity g3 = (qty, g4)"
      by (simp_all add: side_def g2_def ot_def g3_def qty_def g4_def generateSide_def
          generateOrderType_def split_beta)
    with p(1) show ?thesis by (simp add: generate_request_def Let_def g1_def [symmetric])
  qed
  moreover have "acceptable ?r side ot"
    using kinds qty p(2) by (auto simp: acceptable_def new_NewOrderRequest_def)
  ultimately show ?thesis
    using p(3-7) ids ok4(3)
    by (intro exI [of _ ?r] exI [of _ side] exI [of _ ot] exI [of _ g5]) (simp add: new_NewOrderRequest_def)
qed

definition generator_ok :: "DummyGenerator \<Rightarrow> bool" where
  "generator_ok g \<longleftrightarrow> config_ok (config g) \<and> draws_ok g \<and> walk_ok g"

lemma generateOrder_effect:
  assumes fl: "rounding_ok fl" and g: "generator_ok g" and q: "mpsc_inv INBOUND_QUEUE_SIZE q"
  shows "\<exists>request side orderType g' q'. generateOrder fl g q = Some (g', q') \<and>
    acceptable request side orderType \<and> generator_ok g' \<and> config g' = config g \<and>
    mpsc_inv INBOUND_QUEUE_SIZE q' \<and>
    rb_list INBOUND_QUEUE_SIZE q' = take 65535 (rb_list INBOUND_QUEUE_SIZE q @
      [\<lparr>im_sessionId = DUMMY_SESSION_ID, im_body = NewOrderBody request\<rparr>]) \<and>
    ordersGenerated g' = ordersGenerated g + (if length (rb_list INBOUND_QUEUE_SIZE q) < 65535 then 1 else 0)"
proof -
  from generate_request_ok [OF fl] g obtain request side ot g1 where req:
    "generate_request fl g = Some (\<lparr>im_sessionId = DUMMY_SESSION_ID, im_body = NewOrderBody request\<rparr>, g1)"
    "acceptable request side ot" "ordersGenerated g1 = ordersGenerated g" "config g1 = config g"
    "draws_ok g1" "walk_ok g1"
    unfolding generator_ok_def by meson
  let ?msg = "\<lparr>im_sessionId = DUMMY_SESSION_ID, im_body = NewOrderBody request\<rparr>"
  have "\<not> producerLock q" using q by (simp add: mpsc_inv_def)
  then have push: "mpsc_push INBOUND_QUEUE_SIZE ?msg q = Some (the (mpsc_push INBOUND_QUEUE_SIZE ?msg q))"
    by (simp add: mpsc_push_spsc)
  obtain pushed q' where pq: "the (mpsc_push INBOUND_QUEUE_SIZE ?msg q) = (pushed, q')" by (rule prod.exhaust)
  have bound: "unat INBOUND_QUEUE_SIZE - 1 = 65535" by (simp add: INBOUND_QUEUE_SIZE_def)
  note contents = inbound.push_contents [OF q, of ?msg, unfolded pq fst_conv snd_conv bound]
  let ?g = "if pushed then g1\<lparr>ordersGenerated := ordersGenerated g1 + 1\<rparr> else g1"
  have "generateOrder fl g q = Some (?g, q')"
    using req(1) push pq by (simp add: generateOrder_def)
  moreover have "generator_ok ?g" "config ?g = config g"
    using req g by (auto simp: generator_ok_def draws_ok_def walk_ok_def)
  moreover have "ordersGenerated ?g =
      ordersGenerated g + (if length (rb_list INBOUND_QUEUE_SIZE q) < 65535 then 1 else 0)"
    using req(3) contents(3) by simp
  ultimately show ?thesis using req(2) contents(1,2) by blast
qed

section \<open>The rate\<close>

text \<open>The n-th order is due no earlier than n intervals after the first could be.\<close>

fun spaced :: "int \<Rightarrow> int \<Rightarrow> int list \<Rightarrow> bool" where
  "spaced interval t [] = True"
| "spaced interval t (d # ds) = (t \<le> d \<and> spaced interval (t + interval) ds)"

lemma spaced_earlier: "spaced interval t ds \<Longrightarrow> s \<le> t \<Longrightarrow> spaced interval s ds"
proof (induction ds arbitrary: s t)
  case (Cons d ds)
  then have "spaced interval (s + interval) ds" using Cons.IH [of "t + interval" "s + interval"] by simp
  with Cons.prems show ?case by simp
qed simp

lemma spaced_last: "spaced interval t ds \<Longrightarrow> ds \<noteq> [] \<Longrightarrow> t + int (length ds - 1) * interval \<le> last ds"
proof (induction ds arbitrary: t)
  case (Cons d ds)
  show ?case
  proof (cases ds)
    case Nil
    with Cons.prems show ?thesis by simp
  next
    case (Cons e es)
    with Cons.IH [of "t + interval"] Cons.prems show ?thesis by (simp add: algebra_simps)
  qed
qed simp

lemma next_due_later: "0 \<le> interval \<Longrightarrow> nextT + interval \<le> next_due interval now nextT"
  by (simp add: next_due_def Let_def)

lemma generator_rounds_ok:
  assumes fl: "rounding_ok fl" and i: "0 \<le> interval"
  shows "generator_ok g \<Longrightarrow> mpsc_inv INBOUND_QUEUE_SIZE q \<Longrightarrow>
    \<exists>due g' q'. generator_rounds fl interval rounds nextT g q = Some (due, g', q') \<and>
      spaced interval nextT due \<and> set due \<subseteq> set rounds \<and> generator_ok g' \<and> mpsc_inv INBOUND_QUEUE_SIZE q'"
proof (induction rounds arbitrary: nextT g q)
  case (Cons now rounds)
  show ?case
  proof (cases "nextT \<le> now")
    case True
    from generateOrder_effect [OF fl Cons.prems] obtain g1 q1 where
      step: "generateOrder fl g q = Some (g1, q1)" "generator_ok g1" "mpsc_inv INBOUND_QUEUE_SIZE q1" by blast
    from Cons.IH [OF step(2,3), of "next_due interval now nextT"] obtain due g2 q2 where
      rest: "generator_rounds fl interval rounds (next_due interval now nextT) g1 q1 = Some (due, g2, q2)"
      "spaced interval (next_due interval now nextT) due" "set due \<subseteq> set rounds" "generator_ok g2"
      "mpsc_inv INBOUND_QUEUE_SIZE q2" by blast
    have "spaced interval nextT (now # due)"
      using True spaced_earlier [OF rest(2) next_due_later [OF i]] by simp
    with True step rest show ?thesis by (intro exI [of _ "now # due"]) auto
  next
    case False
    with Cons.IH [OF Cons.prems, of nextT] show ?thesis by fastforce
  qed
qed simp

section \<open>Properties\<close>

text \<open>
  Property C35. Under a sane configuration the generator never overflows and never produces a
  request that the engine would refuse, whatever the random numbers and the rounding: every round
  puts exactly one acceptable order of the dummy session on the inbound queue (or drops it when the
  queue is full, and counts it only if it went in), and the walk stays within its range.
\<close>

theorem dummy_orders_acceptable:
  assumes "rounding_ok fl" and "generator_ok g" and "mpsc_inv INBOUND_QUEUE_SIZE q"
  shows "\<exists>request side orderType g' q'. generateOrder fl g q = Some (g', q') \<and>
    acceptable request side orderType \<and> generator_ok g' \<and> config g' = config g \<and>
    mpsc_inv INBOUND_QUEUE_SIZE q' \<and>
    rb_list INBOUND_QUEUE_SIZE q' = take 65535 (rb_list INBOUND_QUEUE_SIZE q @
      [\<lparr>im_sessionId = DUMMY_SESSION_ID, im_body = NewOrderBody request\<rparr>]) \<and>
    ordersGenerated g' = ordersGenerated g + (if length (rb_list INBOUND_QUEUE_SIZE q) < 65535 then 1 else 0)"
  by (rule generateOrder_effect [OF assms])

text \<open>The configuration that \<^verbatim>\<open>main\<close> sets, exact arithmetic, and a middling random source.\<close>

definition example_generator :: DummyGenerator where
  "example_generator =
     setConfig (default_DummyConfig\<lparr>priceRange := 50\<rparr>)
       (new_DummyGenerator (\<lambda>n. if even n then 1 / 4 else 3 / 4) (\<lambda>n a b. a) (\<lambda>_. 0))"

lemma example_generator_ok: "generator_ok example_generator" "rounding_ok (\<lambda>x. x)"
  by (auto simp: generator_ok_def config_ok_def draws_ok_def walk_ok_def example_generator_def
      setConfig_def default_DummyConfig_def new_DummyGenerator_def rounding_ok_def mono_def)

lemma example_inbound_ok: "mpsc_inv INBOUND_QUEUE_SIZE (mpsc_new d)" "rb_list INBOUND_QUEUE_SIZE (mpsc_new d) = []"
  using queue_sizes_are_capacities(1)
  by (simp_all add: mpsc_inv_def rb_inv_def mpsc_new_def INBOUND_QUEUE_SIZE_def rb_list_def rb_count_def)

theorem dummy_orders_acceptable_witness:
  "\<exists>request side orderType g' q'.
     generateOrder (\<lambda>x. x) example_generator (mpsc_new default_InboundMessage) = Some (g', q') \<and>
     acceptable request side orderType \<and> generator_ok g' \<and> ordersGenerated g' = 1 \<and>
     rb_list INBOUND_QUEUE_SIZE q' = [\<lparr>im_sessionId = DUMMY_SESSION_ID, im_body = NewOrderBody request\<rparr>]"
proof -
  have "ordersGenerated example_generator = 0"
    by (simp add: example_generator_def setConfig_def new_DummyGenerator_def)
  then show ?thesis
    using dummy_orders_acceptable [OF example_generator_ok(2,1) example_inbound_ok(1) [of default_InboundMessage]]
    by (simp add: example_inbound_ok(2)) blast
qed

text \<open>
  Property C36. The generator keeps to its rate: the loop runs through any sequence of clock
  readings without undefined behaviour, sends an order only at readings at which one is due, and
  between the start and the last of n orders at least n - 1 whole intervals have passed, however
  late the rounds came.
\<close>

theorem generator_rate_bounded:
  assumes "rounding_ok fl" and "generator_ok g" and "mpsc_inv INBOUND_QUEUE_SIZE q"
  shows "\<exists>due g' q'. generatorLoop fl started rounds g q = Some (due, g', q') \<and>
    set due \<subseteq> set rounds \<and> generator_ok g' \<and> mpsc_inv INBOUND_QUEUE_SIZE q' \<and>
    (due = [] \<or> started + int (length due - 1) * interval_ns (config g) \<le> last due)"
proof (cases "ordersPerSecond (config g) = 0")
  case True
  with assms show ?thesis by (simp add: generatorLoop_def)
next
  case False
  have "0 \<le> interval_ns (config g)" by (simp add: interval_ns_def)
  from generator_rounds_ok [OF assms(1) this assms(2,3), of rounds started] False
  show ?thesis using spaced_last by (fastforce simp: generatorLoop_def)
qed

text \<open>Ten orders a second, readings after 0, 10, 150 and 160 ms: two orders are due.\<close>

theorem generator_rate_bounded_witness:
  "\<exists>due g' q'. generatorLoop (\<lambda>x. x) 0 [0, 10000000, 150000000, 160000000] example_generator
       (mpsc_new default_InboundMessage) = Some (due, g', q') \<and> generator_ok g' \<and>
     interval_ns (config example_generator) = 100000000"
proof -
  have "interval_ns (config example_generator) = 100000000"
    by (simp add: interval_ns_def example_generator_def setConfig_def default_DummyConfig_def new_DummyGenerator_def)
  with generator_rate_bounded [OF example_generator_ok(2,1) example_inbound_ok(1) [of default_InboundMessage],
      of 0 "[0, 10000000, 150000000, 160000000]"]
  show ?thesis by blast
qed

end
