(* ===== verification/Exchange_Setup.thy ===== *)
theory Exchange_Setup
  imports Action_Effects Zmq_Server Feed_Handler Dummy_Generator
begin

text \<open>
  The class \<open>Exchange\<close> of \<^verbatim>\<open>include/Exchange.h\<close> and \<^verbatim>\<open>src/Exchange.cpp\<close>, and \<^verbatim>\<open>main\<close>: the
  configuration and its command line, construction of the components, and the start with its
  failure paths. What the running threads do is in \<open>Exchange_System\<close>.

  \<open>Exchange\<close> is one record: the components, the flags, and for each thread the place in its loop
  at which it is (\<open>off\<close>: there is no thread, or it has ended); \<open>engine_todo\<close> is what the handler
  in which the matching thread is still has to do. The three queues are fields of the engine's
  record.
\<close>

section \<open>Configuration\<close>

record ExchangeConfiguration =
  cfg_zmqPort :: "16 word"
  cfg_multicastGroup :: string
  cfg_multicastPort :: "16 word"
  cfg_symbol :: string
  cfg_enableDummyGenerator :: bool
  cfg_dummyConfig :: DummyConfig

definition default_configuration :: ExchangeConfiguration where
  "default_configuration =
     \<lparr>cfg_zmqPort = 12345, cfg_multicastGroup = ''239.255.0.1'', cfg_multicastPort = 12346,
      cfg_symbol = ''SYM1'', cfg_enableDummyGenerator = False, cfg_dummyConfig = default_DummyConfig\<rparr>"

text \<open>
  The loop over the arguments after the program name. An option that takes a value falls through to
  \<^verbatim>\<open>Unknown option\<close> when none is left.
\<close>

fun main_args :: "ExchangeConfiguration \<Rightarrow> string list \<Rightarrow> ExchangeConfiguration outcome" where
  "main_args c [] = Run c"
| "main_args c (arg # rest) =
     (if arg = ''--help'' \<or> arg = ''-h'' then Exit 0
      else if arg = ''--dummy'' then main_args (c\<lparr>cfg_enableDummyGenerator := True\<rparr>) rest
      else (case rest of
          [] \<Rightarrow> Exit 1
        | v # rest' \<Rightarrow>
            if arg = ''--port'' then
              need_number (\<lambda>w. main_args (c\<lparr>cfg_zmqPort := ucast w\<rparr>) rest') v
            else if arg = ''--mcast-group'' then main_args (c\<lparr>cfg_multicastGroup := v\<rparr>) rest'
            else if arg = ''--mcast-port'' then
              need_number (\<lambda>w. main_args (c\<lparr>cfg_multicastPort := ucast w\<rparr>) rest') v
            else if arg = ''--symbol'' then main_args (c\<lparr>cfg_symbol := v\<rparr>) rest'
            else if arg = ''--dummy-rate'' then
              need_number (\<lambda>w. main_args
                (c\<lparr>cfg_dummyConfig := (cfg_dummyConfig c)\<lparr>ordersPerSecond := w\<rparr>\<rparr>) rest') v
            else Exit 1))"

text \<open>What \<^verbatim>\<open>main\<close> then sets, whatever the arguments were; the rate is left.\<close>

definition main_dummy :: "DummyConfig \<Rightarrow> DummyConfig" where
  "main_dummy d =
     d\<lparr>basePrice := 1000, priceRange := 50, tickSize := 1, minQuantity := 1, maxQuantity := 100,
       buyRatio := 1 / 2, limitRatio := 8 / 10, marketRatio := 1 / 10, iocRatio := 1 / 10\<rparr>"

definition main_config :: "string list \<Rightarrow> ExchangeConfiguration outcome" where
  "main_config args =
     (case main_args default_configuration args of
        Run c \<Rightarrow> Run (c\<lparr>cfg_dummyConfig := main_dummy (cfg_dummyConfig c)\<rparr>)
      | Exit n \<Rightarrow> Exit n
      | Undefined \<Rightarrow> Undefined)"

section \<open>The exchange\<close>

text \<open>The main thread, from the constructor to the end of \<open>stop\<close>.\<close>

datatype MainPc =
    Stopped
  | Waiting
  | JoinDummy
  | JoinServer
  | EndSessions "(Identity \<times> SessionId) list"
  | JoinEngine
  | JoinFeed

datatype ServerPc = ServerOff | ServerCheck | ServerIncoming | ServerOutbound
datatype EnginePc = EngineOff | EngineCheck | EngineDrain | EngineLastDrain
datatype FeedPc = FeedOff | FeedCheck | FeedDrain | FeedLastDrain
datatype DummyPc = DummyOff | DummyEntry | DummyCheck | DummyOrder int

record Exchange =
  matchingEngine :: Engine
  sessionManager :: SessionManager
  zmqServer :: ZmqServer
  feedHandler :: FeedHandler
  dummyGenerator :: "DummyGenerator option"
  ex_running :: bool
  shutdownRequested :: bool
  main_pc :: MainPc
  server_pc :: ServerPc
  engine_pc :: EnginePc
  engine_todo :: "EngineAction list"
  feed_pc :: FeedPc
  dummy_pc :: DummyPc
  nextOrderTime :: int

text \<open>
  What the libraries supply: the clocks, the random numbers, which group addresses
  \<^verbatim>\<open>inet_pton\<close> takes, and the network.
\<close>

record Environment =
  env_clock :: "nat \<Rightarrow> Timestamp"
  env_dummy_clock :: "nat \<Rightarrow> Timestamp"
  env_reals :: "nat \<Rightarrow> real"
  env_ints :: "nat \<Rightarrow> Quantity \<Rightarrow> Quantity \<Rightarrow> Quantity"
  env_inet_pton :: "string \<Rightarrow> bool"
  env_network :: "nat \<Rightarrow> bytes \<Rightarrow> int"

definition to_bytes :: "string \<Rightarrow> 8 word list" where
  "to_bytes s = map of_char s"

definition new_exchange :: "Environment \<Rightarrow> ExchangeConfiguration \<Rightarrow> Exchange" where
  "new_exchange env c =
     \<lparr>matchingEngine = new_engine (mpsc_new default_InboundMessage) (spsc_new default_OutboundMessage)
        (spsc_new default_MarketDataMessage) (to_bytes (cfg_symbol c)) (env_clock env),
      sessionManager = setDisconnectCallback new_SessionManager,
      zmqServer = new_ZmqServer,
      feedHandler = new_FeedHandler
        (new_UdpMulticast (env_inet_pton env (cfg_multicastGroup c)) (env_network env))
        (to_bytes (cfg_symbol c)),
      dummyGenerator =
        (if cfg_enableDummyGenerator c
         then Some (setConfig (cfg_dummyConfig c)
                (new_DummyGenerator (env_reals env) (env_ints env) (env_dummy_clock env)))
         else None),
      ex_running = False, shutdownRequested = False, main_pc = Stopped, server_pc = ServerOff,
      engine_pc = EngineOff, engine_todo = [], feed_pc = FeedOff, dummy_pc = DummyOff, nextOrderTime = 0\<rparr>"

text \<open>
  \<open>start\<close>. The arguments are the results of \<^verbatim>\<open>socket\<close>, of \<^verbatim>\<open>setsockopt\<close> and of the ZMQ
  \<^verbatim>\<open>bind\<close>. When a later component fails, the earlier ones are stopped again: \<open>engine_stop\<close>
  and \<open>feed_stop\<close> join their threads (\<open>None\<close>: one does not end).
\<close>

definition undo_feed :: "Exchange \<Rightarrow> Exchange option" where
  "undo_feed x =
     map_option (\<lambda>(fh, q). x\<lparr>feedHandler := fh,
         matchingEngine := (matchingEngine x)\<lparr>feedQueue := q\<rparr>, ex_running := False\<rparr>)
       (feed_stop [] (feedHandler x) (feedQueue (matchingEngine x)))"

definition exchange_start :: "int \<Rightarrow> bool \<Rightarrow> bool \<Rightarrow> Exchange \<Rightarrow> (bool \<times> Exchange) option" where
  "exchange_start fd ttl_ok bound x0 =
     (if ex_running x0 then Some (False, x0)
      else
        let x1 = x0\<lparr>ex_running := True, shutdownRequested := False\<rparr>;
            (feed_up, fh) = feed_start fd ttl_ok (feedHandler x1);
            x2 = x1\<lparr>feedHandler := fh\<rparr>
        in if \<not> feed_up then Some (False, x2\<lparr>ex_running := False\<rparr>)
           else
             let (engine_up, e) = engine_start (matchingEngine x2);
                 x3 = x2\<lparr>matchingEngine := e\<rparr>
             in if \<not> engine_up then map_option (Pair False) (undo_feed x3)
                else
                  let (server_up, zs) = start_server bound (zmqServer x3);
                      x4 = x3\<lparr>zmqServer := zs\<rparr>
                  in if \<not> server_up then
                       (case engine_stop [] (matchingEngine x4) of
                          None \<Rightarrow> None
                        | Some e' \<Rightarrow> map_option (Pair False) (undo_feed (x4\<lparr>matchingEngine := e'\<rparr>)))
                     else
                       let (dummy_up, dg) = (case dummyGenerator x4 of
                              None \<Rightarrow> (False, None)
                            | Some g \<Rightarrow> (let (ok, g') = dummy_start g in (ok, Some g')))
                       in Some (True, x4\<lparr>dummyGenerator := dg, main_pc := Waiting,
                            feed_pc := FeedCheck, engine_pc := EngineCheck, server_pc := ServerCheck,
                            dummy_pc := (if dummy_up then DummyEntry else DummyOff)\<rparr>))"

section \<open>The session callback and the statistics\<close>

text \<open>The iteration order of the unordered set is the order of the list.\<close>

definition onSessionDisconnect :: "SessionId \<Rightarrow> OrderId list \<Rightarrow> Engine \<Rightarrow> Engine" where
  "onSessionDisconnect sid orderIds e =
     (if orderIds \<noteq> [] then cancelSessionOrders sid orderIds e else e)"

record Statistics =
  stat_orders :: "64 word"
  stat_trades :: "64 word"
  stat_sessions :: nat
  stat_ticks :: "64 word"
  stat_trades_published :: "64 word"
  stat_dummy :: "64 word option"

definition printStatistics :: "Exchange \<Rightarrow> Statistics" where
  "printStatistics x =
     \<lparr>stat_orders = ordersProcessed (matchingEngine x), stat_trades = tradesExecuted (matchingEngine x),
      stat_sessions = getActiveSessionCount (sessionManager x),
      stat_ticks = ticksPublished (feedHandler x),
      stat_trades_published = tradesPublished (feedHandler x),
      stat_dummy = map_option ordersGenerated (dummyGenerator x)\<rparr>"

section \<open>What main builds\<close>

text \<open>Drawing from a uniform distribution stays within its bounds.\<close>

definition environment_ok :: "Environment \<Rightarrow> bool" where
  "environment_ok env \<longleftrightarrow> (\<forall>n. 0 \<le> env_reals env n \<and> env_reals env n \<le> 1) \<and>
     (\<forall>n a b. a \<le> b \<longrightarrow> a \<le> env_ints env n a b \<and> env_ints env n a b \<le> b)"

lemma main_dummy_config_ok: "config_ok (main_dummy d)"
  by (simp add: config_ok_def main_dummy_def)

lemma main_config_dummy:
  "main_config args = Run c \<Longrightarrow> \<exists>d. cfg_dummyConfig c = main_dummy d"
  by (auto simp: main_config_def split: outcome.splits)

lemma main_generator_ok:
  assumes "main_config args = Run c" and "environment_ok env"
  shows "pred_option generator_ok (dummyGenerator (new_exchange env c))"
proof -
  from main_config_dummy [OF assms(1)] obtain d where d: "cfg_dummyConfig c = main_dummy d" by blast
  have "walk_ok (setConfig (main_dummy d) g)" for g
    by (simp add: walk_ok_def setConfig_def main_dummy_def)
  moreover have "draws_ok (setConfig (main_dummy d)
      (new_DummyGenerator (env_reals env) (env_ints env) (env_dummy_clock env)))"
    using assms(2) by (simp add: draws_ok_def setConfig_def new_DummyGenerator_def environment_ok_def)
  ultimately show ?thesis
    using main_dummy_config_ok [of d] by (simp add: new_exchange_def d generator_ok_def) (simp add: setConfig_def)
qed

section \<open>Starting\<close>

lemma new_queues_empty:
  "rb_list INBOUND_QUEUE_SIZE (mpsc_new d1) = []" "rb_list FEED_QUEUE_SIZE (spsc_new d3) = []"
  "mpsc_inv INBOUND_QUEUE_SIZE (mpsc_new d1)" "rb_inv FEED_QUEUE_SIZE (spsc_new d3)"
  using example_inbound_ok rb_inv_new [OF queue_sizes_are_capacities(3)]
  by (simp_all add: rb_list_def rb_count_def spsc_new_def)

lemma engine_stop_idle:
  assumes "mpsc_inv INBOUND_QUEUE_SIZE (inboundQueue e)" and "rb_list INBOUND_QUEUE_SIZE (inboundQueue e) = []"
  shows "engine_stop [] e = Some (e\<lparr>running := False\<rparr>)"
  using inbound.pop_empty [OF assms]
  by (cases "running e") (simp_all add: engine_stop_def pop_inbound_def drain_inbound.simps)

lemma feed_stop_idle:
  assumes "rb_inv FEED_QUEUE_SIZE q" and "rb_list FEED_QUEUE_SIZE q = []" and "fh_running fh"
  shows "feed_stop [] fh q =
    Some (fh\<lparr>fh_running := False, fh_multicast := udp_shutdown (fh_multicast fh)\<rparr>, q)"
  using feed.pop_empty [OF assms(1,2)] assms(3)
  by (simp add: feed_stop_def push_market_data_def drain_feed.simps)

definition idle_exchange :: "Exchange \<Rightarrow> bool" where
  "idle_exchange x \<longleftrightarrow> \<not> ex_running x \<and> \<not> fh_running (feedHandler x) \<and>
     \<not> running (matchingEngine x) \<and> \<not> zs_running (zmqServer x) \<and>
     pred_option (\<lambda>g. \<not> dg_running g) (dummyGenerator x) \<and>
     mpsc_inv INBOUND_QUEUE_SIZE (inboundQueue (matchingEngine x)) \<and>
     rb_inv FEED_QUEUE_SIZE (feedQueue (matchingEngine x)) \<and>
     rb_list INBOUND_QUEUE_SIZE (inboundQueue (matchingEngine x)) = [] \<and>
     rb_list FEED_QUEUE_SIZE (feedQueue (matchingEngine x)) = []"

text \<open>The three outcomes: everything is up, the feed handler fails, the server fails.\<close>

lemma exchange_start_up:
  assumes "idle_exchange x" and "0 \<le> fd" and ttl_ok and bound
  shows "exchange_start fd ttl_ok bound x = Some (True,
    x\<lparr>ex_running := True, shutdownRequested := False,
      feedHandler := (feedHandler x)\<lparr>fh_running := True,
        fh_multicast := (fh_multicast (feedHandler x))\<lparr>socketFd := fd\<rparr>\<rparr>,
      matchingEngine := (matchingEngine x)\<lparr>running := True\<rparr>,
      zmqServer := (zmqServer x)\<lparr>zs_running := True\<rparr>,
      dummyGenerator := map_option (\<lambda>g. g\<lparr>dg_running := True, currentPrice := basePrice (config g)\<rparr>)
        (dummyGenerator x),
      main_pc := Waiting, feed_pc := FeedCheck, engine_pc := EngineCheck, server_pc := ServerCheck,
      dummy_pc := (if dummyGenerator x = None then DummyOff else DummyEntry)\<rparr>)"
  using assms
  by (cases "dummyGenerator x")
    (simp_all add: exchange_start_def idle_exchange_def feed_start_def udp_initialize_def
      engine_start_def start_server_def dummy_start_def)

lemma exchange_start_no_socket:
  assumes "idle_exchange x" and "fd < 0 \<or> \<not> ttl_ok"
  shows "exchange_start fd ttl_ok bound x = Some (False,
    x\<lparr>ex_running := False, shutdownRequested := False,
      feedHandler := (feedHandler x)\<lparr>fh_running := False,
        fh_multicast := (fh_multicast (feedHandler x))\<lparr>socketFd := (if fd < 0 then fd else -1)\<rparr>\<rparr>\<rparr>)"
  using assms
  by (auto simp: exchange_start_def idle_exchange_def feed_start_def udp_initialize_def)

lemma exchange_start_no_bind:
  assumes "idle_exchange x" and "0 \<le> fd" and ttl_ok and "\<not> bound"
  shows "exchange_start fd ttl_ok bound x = Some (False,
    x\<lparr>ex_running := False, shutdownRequested := False,
      feedHandler := (feedHandler x)\<lparr>fh_running := False,
        fh_multicast := (fh_multicast (feedHandler x))\<lparr>socketFd := -1\<rparr>\<rparr>,
      matchingEngine := (matchingEngine x)\<lparr>running := False\<rparr>,
      zmqServer := (zmqServer x)\<lparr>zs_running := False\<rparr>\<rparr>)"
proof -
  let ?e = "(matchingEngine x)\<lparr>running := True\<rparr>"
  have "engine_stop [] ?e = Some (?e\<lparr>running := False\<rparr>)"
    using assms(1) by (intro engine_stop_idle) (simp_all add: idle_exchange_def)
  moreover have "feed_stop [] fh (feedQueue (matchingEngine x)) =
      Some (fh\<lparr>fh_running := False, fh_multicast := udp_shutdown (fh_multicast fh)\<rparr>, feedQueue (matchingEngine x))"
    if "fh_running fh" for fh
    using assms(1) that by (intro feed_stop_idle) (simp_all add: idle_exchange_def)
  ultimately show ?thesis
    using assms
    by (simp add: exchange_start_def idle_exchange_def feed_start_def udp_initialize_def
        engine_start_def start_server_def undo_feed_def udp_shutdown_def)
qed

lemma new_exchange_idle: "idle_exchange (new_exchange env c)"
  by (simp add: new_queues_empty idle_exchange_def new_exchange_def new_FeedHandler_def new_engine_def
      new_ZmqServer_def new_DummyGenerator_def setConfig_def)

lemma new_exchange_fields:
  "map_option dg_running (dummyGenerator (new_exchange env c)) =
     (if cfg_enableDummyGenerator c then Some False else None)"
  "(dummyGenerator (new_exchange env c) = None) = (\<not> cfg_enableDummyGenerator c)"
  "running (matchingEngine (new_exchange env c)) = False"
  "main_pc (new_exchange env c) = Stopped" "server_pc (new_exchange env c) = ServerOff"
  "engine_pc (new_exchange env c) = EngineOff" "engine_todo (new_exchange env c) = []" "feed_pc (new_exchange env c) = FeedOff"
  "dummy_pc (new_exchange env c) = DummyOff" "zs_running (zmqServer (new_exchange env c)) = False"
  "(matchingEngine (new_exchange env c))\<lparr>running := False\<rparr> = matchingEngine (new_exchange env c)"
  by (simp_all add: new_exchange_def new_DummyGenerator_def setConfig_def new_engine_def new_ZmqServer_def)

definition start_succeeds :: "int \<Rightarrow> bool \<Rightarrow> bool \<Rightarrow> bool" where
  "start_succeeds fd ttl_ok bound \<longleftrightarrow> 0 \<le> fd \<and> ttl_ok \<and> bound"

text \<open>
  Property C33. Starting a new exchange is all or nothing: it returns true exactly when the
  multicast socket, its TTL option and the server's bind all succeed, and then every component is
  running and its thread at the head of its loop; otherwise whatever was started has been stopped
  again, no thread is left and the socket is closed. Nothing is lost or invented: the queues and
  the session tables are as new, and a pending shutdown request is cleared.
\<close>

theorem exchange_start_all_or_nothing:
  "let up = start_succeeds fd ttl_ok bound in
    \<exists>x. exchange_start fd ttl_ok bound (new_exchange env c) = Some (up, x) \<and>
    ex_running x = up \<and> fh_running (feedHandler x) = up \<and> running (matchingEngine x) = up \<and>
    zs_running (zmqServer x) = up \<and> (0 \<le> socketFd (fh_multicast (feedHandler x))) = up \<and>
    map_option dg_running (dummyGenerator x) = (if cfg_enableDummyGenerator c then Some up else None) \<and>
    (main_pc x, server_pc x, engine_pc x, feed_pc x, dummy_pc x) =
      (if up then (Waiting, ServerCheck, EngineCheck, FeedCheck,
                   if cfg_enableDummyGenerator c then DummyEntry else DummyOff)
       else (Stopped, ServerOff, EngineOff, FeedOff, DummyOff)) \<and>
    matchingEngine x = (matchingEngine (new_exchange env c))\<lparr>running := up\<rparr> \<and>
    sessionManager x = sessionManager (new_exchange env c) \<and> \<not> shutdownRequested x"
proof -
  consider "start_succeeds fd ttl_ok bound" | "fd < 0 \<or> \<not> ttl_ok" | "0 \<le> fd" ttl_ok "\<not> bound"
    unfolding start_succeeds_def by linarith
  then show ?thesis
  proof cases
    case 1
    then show ?thesis
      using exchange_start_up [OF new_exchange_idle, of fd ttl_ok bound] new_exchange_fields [of env c]
      by (cases "dummyGenerator (new_exchange env c)") (simp_all add: Let_def start_succeeds_def)
  next
    case 2
    then show ?thesis
      using exchange_start_no_socket [OF new_exchange_idle, of fd ttl_ok bound] new_exchange_fields [of env c]
      by (auto simp: Let_def start_succeeds_def)
  next
    case 3
    then show ?thesis
      using exchange_start_no_bind [OF new_exchange_idle, of fd ttl_ok bound] new_exchange_fields [of env c]
      by (simp add: Let_def start_succeeds_def)
  qed
qed

section \<open>The program\<close>

text \<open>
  \<^verbatim>\<open>main\<close>, up to the wait for the shutdown: an exit code, or the running exchange (\<open>None\<close>: the
  start does not return).
\<close>

definition exchange_main ::
  "Environment \<Rightarrow> int \<Rightarrow> bool \<Rightarrow> bool \<Rightarrow> string list \<Rightarrow> Exchange outcome option" where
  "exchange_main env fd ttl_ok bound args =
     (case main_config args of
        Exit n \<Rightarrow> Some (Exit n)
      | Undefined \<Rightarrow> Some Undefined
      | Run c \<Rightarrow> map_option (\<lambda>(started, x). if started then Run x else Exit 1)
          (exchange_start fd ttl_ok bound (new_exchange env c)))"

lemma exchange_start_result:
  "\<exists>x. exchange_start fd ttl_ok bound (new_exchange env c) = Some (start_succeeds fd ttl_ok bound, x)"
proof -
  consider "start_succeeds fd ttl_ok bound" | "fd < 0 \<or> \<not> ttl_ok" | "0 \<le> fd" ttl_ok "\<not> bound"
    unfolding start_succeeds_def by linarith
  then show ?thesis
  proof cases
    case 1
    then show ?thesis
      using exchange_start_up [OF new_exchange_idle, of fd ttl_ok bound] by (simp add: start_succeeds_def)
  next
    case 2
    then show ?thesis
      using exchange_start_no_socket [OF new_exchange_idle, of fd ttl_ok bound]
      by (auto simp: start_succeeds_def)
  next
    case 3
    then show ?thesis
      using exchange_start_no_bind [OF new_exchange_idle, of fd ttl_ok bound]
      by (simp add: start_succeeds_def)
  qed
qed

text \<open>
  \<open>main\<close> returns, and it runs an exchange exactly when the arguments are accepted and all three
  system calls succeed; accepted arguments otherwise give exit code 1.
\<close>

lemma exchange_main_total: "exchange_main env fd ttl_ok bound args \<noteq> None"
proof (cases "main_config args")
  case (Run c)
  then show ?thesis
    using exchange_start_result [of fd ttl_ok bound env c] by (auto simp: exchange_main_def)
qed (simp_all add: exchange_main_def)

lemma exchange_main_runs:
  assumes "main_config args = Run c"
  shows "(\<exists>x. exchange_main env fd ttl_ok bound args = Some (Run x)) \<longleftrightarrow> start_succeeds fd ttl_ok bound"
    and "\<not> start_succeeds fd ttl_ok bound \<Longrightarrow> exchange_main env fd ttl_ok bound args = Some (Exit 1)"
proof -
  obtain x where
    "exchange_start fd ttl_ok bound (new_exchange env c) = Some (start_succeeds fd ttl_ok bound, x)"
    using exchange_start_result by blast
  with assms show "(\<exists>x. exchange_main env fd ttl_ok bound args = Some (Run x)) \<longleftrightarrow> start_succeeds fd ttl_ok bound"
    and "\<not> start_succeeds fd ttl_ok bound \<Longrightarrow> exchange_main env fd ttl_ok bound args = Some (Exit 1)"
    by (simp_all add: exchange_main_def)
qed

end
