(* ===== verification/Exchange_System.thy ===== *)
theory Exchange_System
  imports Exchange_Setup
begin

text \<open>
  The running exchange: its threads as one step relation. A step is one look at a running flag or
  one operation on a queue, with the private code beside it (\<open>server_step\<close>, \<open>engine_step\<close>, \<open>feed_step\<close>,
  \<open>dummy_step\<close> and \<open>main_step\<close> for the five threads), and \<open>exchange_step\<close> lets them take their steps in
  any order; so a handler of the engine, which pushes many messages, takes many steps, between
  which the server and the feed thread empty the queues that it fills. The main thread waits for the
  shutdown signal and then runs \<open>Exchange::stop\<close>; \<^verbatim>\<open>stop\<close> of a component clears its flag, and
  the \<^verbatim>\<open>join\<close> waits until the component's thread is \<open>off\<close>. A sleep changes nothing and is no
  step; the main thread's polling is the rule that its wait ends once a shutdown is requested.

  \<open>Queue_Steps\<close> shows what the single accesses of a queue operation amount to.
\<close>

section \<open>Steps\<close>

datatype Thread = MainThread | ServerThread | MatchingThread | FeedThread | DummyThread | Signal

text \<open>The disconnect callback, as the session manager calls it.\<close>

inductive runs_callback :: "(SessionId \<times> OrderId set) option \<Rightarrow> Engine \<Rightarrow> Engine \<Rightarrow> bool" where
  no_callback: "runs_callback None e e"
| callback: "set ids = oids \<Longrightarrow> distinct ids \<Longrightarrow>
    runs_callback (Some (sid, oids)) e (onSessionDisconnect sid ids e)"

text \<open>The entries of the server's map, in the order in which the loop meets them.\<close>

definition enumerates :: "(Identity \<times> SessionId) list \<Rightarrow> (Identity \<rightharpoonup> SessionId) \<Rightarrow> bool" where
  "enumerates ends table \<longleftrightarrow> distinct (map fst ends) \<and> map_of ends = table"

text \<open>\<open>ZmqServer::eventLoop\<close>. \<open>accepted\<close> of the sends of a response return; an exception that ZMQ throws on
  receiving is caught by the loop.\<close>

inductive server_step :: "Exchange \<Rightarrow> Exchange \<Rightarrow> bool" where
  look: "server_pc x = ServerCheck \<Longrightarrow>
    server_step x
      (x\<lparr>server_pc := if zs_running (zmqServer x) then ServerIncoming else ServerOff\<rparr>)"
| receive: "server_pc x = ServerIncoming \<Longrightarrow>
    processIncoming identityFrame delimiterFrame messageFrame (zmqServer x) (sessionManager x)
      (inboundQueue (matchingEngine x)) = Some (zs, sm, q) \<Longrightarrow>
    server_step x
      (x\<lparr>zmqServer := zs, sessionManager := sm,
        matchingEngine := (matchingEngine x)\<lparr>inboundQueue := q\<rparr>, server_pc := ServerOutbound\<rparr>)"
| error: "server_pc x = ServerIncoming \<Longrightarrow>
    server_step x (x\<lparr>server_pc := ServerCheck\<rparr>)"
| send: "server_pc x = ServerOutbound \<Longrightarrow>
    getOutboundMessage (outboundQueue (matchingEngine x)) = (Some msg, q) \<Longrightarrow>
    server_step x
      (x\<lparr>zmqServer := sendResponse msg accepted (zmqServer x),
        matchingEngine := (matchingEngine x)\<lparr>outboundQueue := q\<rparr>\<rparr>)"
| sent: "server_pc x = ServerOutbound \<Longrightarrow>
    getOutboundMessage (outboundQueue (matchingEngine x)) = (None, q) \<Longrightarrow>
    server_step x
      (x\<lparr>matchingEngine := (matchingEngine x)\<lparr>outboundQueue := q\<rparr>, server_pc := ServerCheck\<rparr>)"

text \<open>\<open>MatchingEngine::matchingLoop\<close>.\<close>

inductive engine_step :: "Exchange \<Rightarrow> Exchange \<Rightarrow> bool" where
  look: "engine_pc x = EngineCheck \<Longrightarrow>
    engine_step x
      (x\<lparr>engine_pc := if running (matchingEngine x) then EngineDrain else EngineLastDrain\<rparr>)"
| message: "engine_pc x \<in> {EngineDrain, EngineLastDrain} \<Longrightarrow> engine_todo x = [] \<Longrightarrow>
    pop_inbound (matchingEngine x) = (Some msg, e) \<Longrightarrow> begin_message msg e = (e', actions) \<Longrightarrow>
    engine_step x (x\<lparr>matchingEngine := e', engine_todo := actions\<rparr>)"
| push: "engine_todo x = a # actions \<Longrightarrow>
    engine_step x
      (x\<lparr>matchingEngine := do_action a (matchingEngine x), engine_todo := actions\<rparr>)"
| empty: "engine_pc x \<in> {EngineDrain, EngineLastDrain} \<Longrightarrow> engine_todo x = [] \<Longrightarrow>
    pop_inbound (matchingEngine x) = (None, e) \<Longrightarrow>
    engine_step x
      (x\<lparr>matchingEngine := e,
        engine_pc := if engine_pc x = EngineDrain then EngineCheck else EngineOff\<rparr>)"

text \<open>\<open>FeedHandler::feedLoop\<close>.\<close>

inductive feed_step :: "Exchange \<Rightarrow> Exchange \<Rightarrow> bool" where
  look: "feed_pc x = FeedCheck \<Longrightarrow>
    feed_step x
      (x\<lparr>feed_pc := if fh_running (feedHandler x) then FeedDrain else FeedLastDrain\<rparr>)"
| message: "feed_pc x \<in> {FeedDrain, FeedLastDrain} \<Longrightarrow>
    spsc_pop FEED_QUEUE_SIZE (feedQueue (matchingEngine x)) = (Some msg, q) \<Longrightarrow>
    feed_step x
      (x\<lparr>feedHandler := processMessage msg (feedHandler x),
        matchingEngine := (matchingEngine x)\<lparr>feedQueue := q\<rparr>\<rparr>)"
| empty: "feed_pc x \<in> {FeedDrain, FeedLastDrain} \<Longrightarrow>
    spsc_pop FEED_QUEUE_SIZE (feedQueue (matchingEngine x)) = (None, q) \<Longrightarrow>
    feed_step x
      (x\<lparr>matchingEngine := (matchingEngine x)\<lparr>feedQueue := q\<rparr>,
        feed_pc := if feed_pc x = FeedDrain then FeedCheck else FeedOff\<rparr>)"

text \<open>\<open>DummyGenerator::generatorLoop\<close>, with the readings of the steady clock.\<close>

inductive dummy_step :: "(real \<Rightarrow> real) \<Rightarrow> Exchange \<Rightarrow> Exchange \<Rightarrow> bool" for fl where
  enter: "dummy_pc x = DummyEntry \<Longrightarrow> dummyGenerator x = Some g \<Longrightarrow>
    dummy_step fl x
      (if ordersPerSecond (config g) = 0 then x\<lparr>dummy_pc := DummyOff\<rparr>
       else x\<lparr>dummy_pc := DummyCheck, nextOrderTime := now\<rparr>)"
| look: "dummy_pc x = DummyCheck \<Longrightarrow> dummyGenerator x = Some g \<Longrightarrow>
    dummy_step fl x
      (x\<lparr>dummy_pc := if \<not> dg_running g then DummyOff
                     else if now \<ge> nextOrderTime x then DummyOrder now else DummyCheck\<rparr>)"
| order: "dummy_pc x = DummyOrder now \<Longrightarrow> dummyGenerator x = Some g \<Longrightarrow>
    generateOrder fl g (inboundQueue (matchingEngine x)) = Some (g', q) \<Longrightarrow>
    dummy_step fl x
      (x\<lparr>dummyGenerator := Some g', matchingEngine := (matchingEngine x)\<lparr>inboundQueue := q\<rparr>,
        nextOrderTime := next_due (interval_ns (config g)) now (nextOrderTime x),
        dummy_pc := DummyCheck\<rparr>)"

text \<open>\<open>waitForShutdown\<close> and \<open>stop\<close>, where each component is stopped in turn.\<close>

inductive main_step :: "Exchange \<Rightarrow> Exchange \<Rightarrow> bool" where
  stop: "main_pc x = Waiting \<Longrightarrow> shutdownRequested x \<Longrightarrow>
    main_step x
      (x\<lparr>ex_running := False, dummyGenerator := map_option dummy_stop (dummyGenerator x),
        main_pc := JoinDummy\<rparr>)"
| dummy_joined: "main_pc x = JoinDummy \<Longrightarrow> dummy_pc x = DummyOff \<Longrightarrow>
    main_step x
      (x\<lparr>zmqServer := (zmqServer x)\<lparr>zs_running := False\<rparr>, main_pc := JoinServer\<rparr>)"
| server_joined: "main_pc x = JoinServer \<Longrightarrow> server_pc x = ServerOff \<Longrightarrow>
    enumerates ends (zs_identityToSession (zmqServer x)) \<Longrightarrow>
    main_step x (x\<lparr>main_pc := EndSessions ends\<rparr>)"
| end_session: "main_pc x = EndSessions ((identity, sid) # ends) \<Longrightarrow>
    destroySession sid (sessionManager x) = (cb, sm) \<Longrightarrow>
    runs_callback cb (matchingEngine x) e \<Longrightarrow>
    main_step x
      (x\<lparr>sessionManager := sm, matchingEngine := e, main_pc := EndSessions ends\<rparr>)"
| sessions_ended: "main_pc x = EndSessions [] \<Longrightarrow>
    main_step x
      (x\<lparr>zmqServer := (zmqServer x)\<lparr>zs_identityToSession := Map.empty, zs_sessionToIdentity := Map.empty\<rparr>,
        matchingEngine := (matchingEngine x)\<lparr>running := False\<rparr>, main_pc := JoinEngine\<rparr>)"
| engine_joined: "main_pc x = JoinEngine \<Longrightarrow> engine_pc x = EngineOff \<Longrightarrow>
    main_step x
      (x\<lparr>feedHandler := (feedHandler x)\<lparr>fh_running := False\<rparr>, main_pc := JoinFeed\<rparr>)"
| feed_joined: "main_pc x = JoinFeed \<Longrightarrow> feed_pc x = FeedOff \<Longrightarrow>
    main_step x
      (x\<lparr>feedHandler := (feedHandler x)\<lparr>fh_multicast := udp_shutdown (fh_multicast (feedHandler x))\<rparr>,
        main_pc := Stopped\<rparr>)"

text \<open>\<open>setupSignalHandlers\<close> registers the handler for two signals, which may come at any time.\<close>

datatype SignalNumber = SIGINT | SIGTERM | OtherSignal int

definition registered_signals :: "SignalNumber set" where
  "registered_signals = {SIGINT, SIGTERM}"

definition signalHandler :: "SignalNumber \<Rightarrow> Exchange \<Rightarrow> Exchange" where
  "signalHandler sig x =
     (if sig = SIGINT \<or> sig = SIGTERM then x\<lparr>shutdownRequested := True\<rparr> else x)"

text \<open>A step of the whole is a step of one of the threads, or a signal.\<close>

definition exchange_step :: "(real \<Rightarrow> real) \<Rightarrow> Thread \<Rightarrow> Exchange \<Rightarrow> Exchange \<Rightarrow> bool" where
  "exchange_step fl t x y =
     (case t of
        ServerThread \<Rightarrow> server_step x y
      | MatchingThread \<Rightarrow> engine_step x y
      | FeedThread \<Rightarrow> feed_step x y
      | DummyThread \<Rightarrow> dummy_step fl x y
      | MainThread \<Rightarrow> main_step x y
      | Signal \<Rightarrow> \<exists>sig\<in>registered_signals. y = signalHandler sig x)"

lemma thread_steps:
  "server_step x y \<Longrightarrow> exchange_step fl ServerThread x y"
  "engine_step x y \<Longrightarrow> exchange_step fl MatchingThread x y"
  "feed_step x y \<Longrightarrow> exchange_step fl FeedThread x y"
  "dummy_step fl x y \<Longrightarrow> exchange_step fl DummyThread x y"
  "main_step x y \<Longrightarrow> exchange_step fl MainThread x y"
  by (simp_all add: exchange_step_def)

lemma signal: "exchange_step fl Signal x (x\<lparr>shutdownRequested := True\<rparr>)"
  by (auto simp: exchange_step_def signalHandler_def registered_signals_def)

lemmas server_look = server_step.look [THEN thread_steps(1)]
lemmas server_receive = server_step.receive [THEN thread_steps(1)]
lemmas server_error = server_step.error [THEN thread_steps(1)]
lemmas server_send = server_step.send [THEN thread_steps(1)]
lemmas server_sent = server_step.sent [THEN thread_steps(1)]
lemmas engine_look = engine_step.look [THEN thread_steps(2)]
lemmas engine_message = engine_step.message [THEN thread_steps(2)]
lemmas engine_push = engine_step.push [THEN thread_steps(2)]
lemmas engine_empty = engine_step.empty [THEN thread_steps(2)]
lemmas feed_look = feed_step.look [THEN thread_steps(3)]
lemmas feed_message = feed_step.message [THEN thread_steps(3)]
lemmas feed_empty = feed_step.empty [THEN thread_steps(3)]
lemmas dummy_enter = dummy_step.enter [THEN thread_steps(4)]
lemmas dummy_look = dummy_step.look [THEN thread_steps(4)]
lemmas dummy_order = dummy_step.order [THEN thread_steps(4)]
lemmas main_stop = main_step.stop [THEN thread_steps(5)]
lemmas main_dummy_joined = main_step.dummy_joined [THEN thread_steps(5)]
lemmas main_server_joined = main_step.server_joined [THEN thread_steps(5)]
lemmas main_end_session = main_step.end_session [THEN thread_steps(5)]
lemmas main_sessions_ended = main_step.sessions_ended [THEN thread_steps(5)]
lemmas main_engine_joined = main_step.engine_joined [THEN thread_steps(5)]
lemmas main_feed_joined = main_step.feed_joined [THEN thread_steps(5)]

text \<open>Case analysis over all the steps.\<close>

lemma exchange_step_cases [consumes 1, case_names server_look server_receive server_error server_send
    server_sent engine_look engine_message engine_push engine_empty feed_look feed_message feed_empty
    dummy_enter dummy_look dummy_order signal main_stop main_dummy_joined main_server_joined
    main_end_session main_sessions_ended main_engine_joined main_feed_joined]:
  assumes "exchange_step fl t x y"
  obtains
    (server_look) "t = ServerThread"
        "y = x\<lparr>server_pc := if zs_running (zmqServer x) then ServerIncoming else ServerOff\<rparr>"
        "server_pc x = ServerCheck"
  | (server_receive) identityFrame delimiterFrame messageFrame zs sm q where "t = ServerThread"
        "y = x\<lparr>zmqServer := zs, sessionManager := sm, matchingEngine := (matchingEngine
          x)\<lparr>inboundQueue := q\<rparr>, server_pc := ServerOutbound\<rparr>"
        "server_pc x = ServerIncoming"
        "processIncoming identityFrame delimiterFrame messageFrame (zmqServer x) (sessionManager x)
          (inboundQueue (matchingEngine x)) = Some (zs, sm, q)"
  | (server_error) "t = ServerThread" "y = x\<lparr>server_pc := ServerCheck\<rparr>"
        "server_pc x = ServerIncoming"
  | (server_send) msg q accepted where "t = ServerThread"
        "y = x\<lparr>zmqServer := sendResponse msg accepted (zmqServer x), matchingEngine :=
          (matchingEngine x)\<lparr>outboundQueue := q\<rparr>\<rparr>" "server_pc x = ServerOutbound"
        "getOutboundMessage (outboundQueue (matchingEngine x)) = (Some msg, q)"
  | (server_sent) q where "t = ServerThread"
        "y = x\<lparr>matchingEngine := (matchingEngine x)\<lparr>outboundQueue := q\<rparr>, server_pc :=
          ServerCheck\<rparr>" "server_pc x = ServerOutbound"
        "getOutboundMessage (outboundQueue (matchingEngine x)) = (None, q)"
  | (engine_look) "t = MatchingThread"
        "y = x\<lparr>engine_pc := if running (matchingEngine x) then EngineDrain else EngineLastDrain\<rparr>"
        "engine_pc x = EngineCheck"
  | (engine_message) msg e e' actions where "t = MatchingThread"
        "y = x\<lparr>matchingEngine := e', engine_todo := actions\<rparr>"
        "engine_pc x \<in> {EngineDrain, EngineLastDrain}" "engine_todo x = []"
        "pop_inbound (matchingEngine x) = (Some msg, e)" "begin_message msg e = (e', actions)"
  | (engine_push) a actions where "t = MatchingThread"
        "y = x\<lparr>matchingEngine := do_action a (matchingEngine x), engine_todo := actions\<rparr>"
        "engine_todo x = a # actions"
  | (engine_empty) e where "t = MatchingThread"
        "y = x\<lparr>matchingEngine := e, engine_pc := if engine_pc x = EngineDrain then EngineCheck else
          EngineOff\<rparr>" "engine_pc x \<in> {EngineDrain, EngineLastDrain}" "engine_todo x = []"
        "pop_inbound (matchingEngine x) = (None, e)"
  | (feed_look) "t = FeedThread"
        "y = x\<lparr>feed_pc := if fh_running (feedHandler x) then FeedDrain else FeedLastDrain\<rparr>"
        "feed_pc x = FeedCheck"
  | (feed_message) msg q where "t = FeedThread"
        "y = x\<lparr>feedHandler := processMessage msg (feedHandler x), matchingEngine := (matchingEngine
          x)\<lparr>feedQueue := q\<rparr>\<rparr>" "feed_pc x \<in> {FeedDrain, FeedLastDrain}"
        "spsc_pop FEED_QUEUE_SIZE (feedQueue (matchingEngine x)) = (Some msg, q)"
  | (feed_empty) q where "t = FeedThread"
        "y = x\<lparr>matchingEngine := (matchingEngine x)\<lparr>feedQueue := q\<rparr>, feed_pc := if
          feed_pc x = FeedDrain then FeedCheck else FeedOff\<rparr>"
        "feed_pc x \<in> {FeedDrain, FeedLastDrain}"
        "spsc_pop FEED_QUEUE_SIZE (feedQueue (matchingEngine x)) = (None, q)"
  | (dummy_enter) g now where "t = DummyThread"
        "y = (if ordersPerSecond (config g) = 0 then x\<lparr>dummy_pc := DummyOff\<rparr>
          else x\<lparr>dummy_pc := DummyCheck, nextOrderTime := now\<rparr>)" "dummy_pc x = DummyEntry"
        "dummyGenerator x = Some g"
  | (dummy_look) g now where "t = DummyThread"
        "y = x\<lparr>dummy_pc := if \<not> dg_running g then DummyOff else if now \<ge> nextOrderTime x
          then DummyOrder now else DummyCheck\<rparr>" "dummy_pc x = DummyCheck" "dummyGenerator x = Some g"
  | (dummy_order) now g g' q where "t = DummyThread"
        "y = x\<lparr>dummyGenerator := Some g', matchingEngine := (matchingEngine x)\<lparr>inboundQueue :=
          q\<rparr>, nextOrderTime := next_due (interval_ns (config g)) now (nextOrderTime x), dummy_pc :=
          DummyCheck\<rparr>" "dummy_pc x = DummyOrder now" "dummyGenerator x = Some g"
        "generateOrder fl g (inboundQueue (matchingEngine x)) = Some (g', q)"
  | (signal) "t = Signal" "y = x\<lparr>shutdownRequested := True\<rparr>"
  | (main_stop) "t = MainThread"
        "y = x\<lparr>ex_running := False, dummyGenerator := map_option dummy_stop (dummyGenerator x),
          main_pc := JoinDummy\<rparr>" "main_pc x = Waiting" "shutdownRequested x"
  | (main_dummy_joined) "t = MainThread"
        "y = x\<lparr>zmqServer := (zmqServer x)\<lparr>zs_running := False\<rparr>, main_pc :=
          JoinServer\<rparr>" "main_pc x = JoinDummy" "dummy_pc x = DummyOff"
  | (main_server_joined) ends where "t = MainThread" "y = x\<lparr>main_pc := EndSessions ends\<rparr>"
        "main_pc x = JoinServer" "server_pc x = ServerOff"
        "enumerates ends (zs_identityToSession (zmqServer x))"
  | (main_end_session) identity sid ends cb sm e where "t = MainThread"
        "y = x\<lparr>sessionManager := sm, matchingEngine := e, main_pc := EndSessions ends\<rparr>"
        "main_pc x = EndSessions ((identity, sid) # ends)" "destroySession sid (sessionManager x) = (cb, sm)"
        "runs_callback cb (matchingEngine x) e"
  | (main_sessions_ended) "t = MainThread"
        "y = x\<lparr>zmqServer := (zmqServer x)\<lparr>zs_identityToSession := Map.empty,
          zs_sessionToIdentity := Map.empty\<rparr>, matchingEngine := (matchingEngine x)\<lparr>running :=
          False\<rparr>, main_pc := JoinEngine\<rparr>" "main_pc x = EndSessions []"
  | (main_engine_joined) "t = MainThread"
        "y = x\<lparr>feedHandler := (feedHandler x)\<lparr>fh_running := False\<rparr>, main_pc :=
          JoinFeed\<rparr>" "main_pc x = JoinEngine" "engine_pc x = EngineOff"
  | (main_feed_joined) "t = MainThread"
        "y = x\<lparr>feedHandler := (feedHandler x)\<lparr>fh_multicast := udp_shutdown (fh_multicast
          (feedHandler x))\<rparr>, main_pc := Stopped\<rparr>" "main_pc x = JoinFeed" "feed_pc x = FeedOff"
proof (cases t)
  case ServerThread
  with assms have "server_step x y" by (simp add: exchange_step_def)
  then show ?thesis by cases (use ServerThread that(1-5) in blast)+
next
  case MatchingThread
  with assms have "engine_step x y" by (simp add: exchange_step_def)
  then show ?thesis by cases (use MatchingThread that(6-9) in blast)+
next
  case FeedThread
  with assms have "feed_step x y" by (simp add: exchange_step_def)
  then show ?thesis by cases (use FeedThread that(10-12) in blast)+
next
  case DummyThread
  with assms have "dummy_step fl x y" by (simp add: exchange_step_def)
  then show ?thesis by cases (use DummyThread that(13-15) in blast)+
next
  case MainThread
  with assms have "main_step x y" by (simp add: exchange_step_def)
  then show ?thesis by cases (use MainThread that(17-23) in blast)+
next
  case Signal
  with assms that(16) show ?thesis by (simp add: exchange_step_def signalHandler_def registered_signals_def)
qed

text \<open>
  An execution starts from what \<^verbatim>\<open>main\<close> has built and started. It goes on while the 64-bit
  order ids and the 32-bit session ids last.
\<close>

inductive exchange_reachable :: "(real \<Rightarrow> real) \<Rightarrow> Exchange \<Rightarrow> bool" for fl where
  started: "main_config args = Run c \<Longrightarrow> environment_ok env \<Longrightarrow>
    exchange_start fd ttl_ok bound (new_exchange env c) = Some (True, x) \<Longrightarrow> exchange_reachable fl x"
| stepped: "exchange_reachable fl x \<Longrightarrow> ids_left (matchingEngine x) \<Longrightarrow> sessions_left (sessionManager x) \<Longrightarrow>
    exchange_step fl t x y \<Longrightarrow> exchange_reachable fl y"

section \<open>What the components do to each other\<close>

text \<open>No session has an order of its own, since nothing calls \<open>addOrderToSession\<close>.\<close>

definition sessions_plain :: "SessionManager \<Rightarrow> bool" where
  "sessions_plain sm \<longleftrightarrow> sm_inv sm \<and> finite (dom (identityToSession sm)) \<and>
     (\<forall>sid s. sessions sm sid = Some s \<longrightarrow> activeOrders s = {})"

lemma createSession_plain:
  assumes "sessions_plain sm" and "sessions_left sm"
  shows "sessions_plain (snd (createSession identity sm))"
  using assms createSession_keeps [of sm identity]
  by (auto simp: sessions_plain_def createSession_def Let_def new_SessionInfo_def split: option.splits if_splits)

lemma destroySession_plain:
  assumes "sessions_plain sm"
  shows "sessions_plain (snd (destroySession sid sm))" and "fst (destroySession sid sm) = None"
    and "identityToSession (snd (destroySession sid sm)) identity = Some t \<Longrightarrow>
      identityToSession sm identity = Some t \<and> t \<noteq> sid"
proof -
  show plain: "sessions_plain (snd (destroySession sid sm))"
    using assms destroySession_keeps [of sm sid]
    by (auto simp: sessions_plain_def destroySession_def Let_def split: option.splits if_splits)
  show "fst (destroySession sid sm) = None"
    using assms by (auto simp: sessions_plain_def destroySession_def Let_def split: option.split)
  assume t: "identityToSession (snd (destroySession sid sm)) identity = Some t"
  then obtain s where "sessions (snd (destroySession sid sm)) t = Some s"
    using plain sm_invD(1) unfolding sessions_plain_def by blast
  then have "t \<noteq> sid"
    by (auto simp: destroySession_def Let_def split: option.splits)
  with t show "identityToSession sm identity = Some t \<and> t \<noteq> sid"
    by (auto simp: destroySession_def Let_def split: option.splits if_splits)
qed

lemma connectClient_plain:
  assumes "sessions_plain sm" and "sessions_left sm" and "connectClient identity zs sm = (zs', sm')"
  shows "sessions_plain sm'" and "zs_wire zs' = zs_wire zs" and "zs_running zs' = zs_running zs"
  using assms createSession_plain [OF assms(1,2), of identity]
  by (auto simp: connectClient_def split: option.splits prod.splits)

lemma mpsc_push_inbound:
  "mpsc_push INBOUND_QUEUE_SIZE msg (inboundQueue e) = Some (ok, q) \<Longrightarrow>
   e\<lparr>inboundQueue := q\<rparr> = push_inbound msg e"
  by (simp add: push_inbound_def)

lemma parse_queue:
  assumes "parseAndRouteMessage identity msg zs (inboundQueue e) = Some (ok, q)"
  shows "e\<lparr>inboundQueue := q\<rparr> = e \<or> (\<exists>m. e\<lparr>inboundQueue := q\<rparr> = push_inbound m e)"
  using parse_routes_or_drops [of identity msg zs "inboundQueue e"]
proof
  assume "parseAndRouteMessage identity msg zs (inboundQueue e) = Some (False, inboundQueue e)"
  with assms show ?thesis by simp
next
  assume "\<exists>sid body. zs_identityToSession zs identity = Some sid \<and>
    parseAndRouteMessage identity msg zs (inboundQueue e) = routeToInbound sid body (inboundQueue e)"
  with assms obtain m where "mpsc_push INBOUND_QUEUE_SIZE m (inboundQueue e) = Some (ok, q)"
    unfolding routeToInbound_def by metis
  from mpsc_push_inbound [OF this] show ?thesis by blast
qed

lemma processIncoming_effect:
  assumes "processIncoming identityFrame delimiterFrame messageFrame zs sm (inboundQueue e) = Some (zs', sm', q)"
  shows "e\<lparr>inboundQueue := q\<rparr> = e \<or> (\<exists>m. e\<lparr>inboundQueue := q\<rparr> = push_inbound m e)"
    and "(zs', sm') = (zs, sm) \<or> (\<exists>identity. connectClient identity zs sm = (zs', sm'))"
proof -
  have "(zs', sm', q) = (zs, sm, inboundQueue e) \<or>
    (\<exists>identity msg ok. connectClient identity zs sm = (zs', sm') \<and>
      parseAndRouteMessage identity msg zs' (inboundQueue e) = Some (ok, q))"
    using assms by (auto simp: processIncoming_def split: option.splits if_splits prod.splits)
  then show "e\<lparr>inboundQueue := q\<rparr> = e \<or> (\<exists>m. e\<lparr>inboundQueue := q\<rparr> = push_inbound m e)"
    and "(zs', sm') = (zs, sm) \<or> (\<exists>identity. connectClient identity zs sm = (zs', sm'))"
    by (auto dest!: parse_queue)
qed

lemma generateOrder_queue:
  assumes "generateOrder fl g (inboundQueue e) = Some (g', q)"
  shows "\<exists>m. e\<lparr>inboundQueue := q\<rparr> = push_inbound m e"
  using assms mpsc_push_inbound
  by (auto simp: generateOrder_def bind_eq_Some_conv split: prod.splits)

text \<open>The server reads a request back from its bytes.\<close>

lemma get_header_request: "get_header (put_request body) = request_header body"
proof -
  have "\<exists>rest. put_request body = put_header (request_header body) @ rest"
    by (cases body) (simp_all add: put_NewOrderRequest_def put_CancelOrderRequest_def
        put_ModifyOrderRequest_def)
  then show ?thesis using get_put_header by metis
qed

lemma parse_put_request:
  assumes "zs_identityToSession zs identity = Some sid"
    and "mh_type (request_header body) = request_type body"
    and "unat (mh_length (request_header body)) \<le> length (put_request body)"
  shows "parseAndRouteMessage identity (put_request body) zs q = routeToInbound sid body q"
  using assms get_header_request [of body] request_round_trips [of _ "[]", simplified]
  by (cases body) (simp_all add: parseAndRouteMessage_def Let_def message_type_defs sizeof_defs)

section \<open>The invariant\<close>

text \<open>The main thread's progress through \<open>stop\<close>.\<close>

primrec phase :: "MainPc \<Rightarrow> nat" where
  "phase Waiting = 1"
| "phase JoinDummy = 2"
| "phase JoinServer = 3"
| "phase (EndSessions ends) = 4"
| "phase JoinEngine = 5"
| "phase JoinFeed = 6"
| "phase Stopped = 7"

definition flags_ok :: "Exchange \<Rightarrow> bool" where
  "flags_ok x \<longleftrightarrow>
     ex_running x = (phase (main_pc x) \<le> 1) \<and>
     pred_option (\<lambda>g. dg_running g = (phase (main_pc x) \<le> 1)) (dummyGenerator x) \<and>
     zs_running (zmqServer x) = (phase (main_pc x) \<le> 2) \<and>
     running (matchingEngine x) = (phase (main_pc x) \<le> 4) \<and>
     fh_running (feedHandler x) = (phase (main_pc x) \<le> 5) \<and>
     (0 \<le> socketFd (fh_multicast (feedHandler x))) = (phase (main_pc x) \<le> 6) \<and>
     1 \<le> phase (main_pc x)"

text \<open>Where the threads can be: a thread ends only after its flag is cleared, and a join waits for it.\<close>

definition threads_ok :: "Exchange \<Rightarrow> bool" where
  "threads_ok x \<longleftrightarrow>
     (2 \<le> phase (main_pc x) \<longrightarrow> shutdownRequested x) \<and>
     (dummyGenerator x = None \<longrightarrow> dummy_pc x = DummyOff) \<and>
     (3 \<le> phase (main_pc x) \<longrightarrow> dummy_pc x = DummyOff) \<and>
     (server_pc x = ServerOff \<longrightarrow> 3 \<le> phase (main_pc x)) \<and>
     (4 \<le> phase (main_pc x) \<longrightarrow> server_pc x = ServerOff) \<and>
     (engine_pc x \<in> {EngineLastDrain, EngineOff} \<longrightarrow> 5 \<le> phase (main_pc x)) \<and>
     (6 \<le> phase (main_pc x) \<longrightarrow> engine_pc x = EngineOff) \<and>
     (feed_pc x \<in> {FeedLastDrain, FeedOff} \<longrightarrow> 6 \<le> phase (main_pc x)) \<and>
     (7 \<le> phase (main_pc x) \<longrightarrow> feed_pc x = FeedOff)"

text \<open>A handler runs only while the matching thread drains the queue.\<close>

definition busy_ok :: "Exchange \<Rightarrow> bool" where
  "busy_ok x \<longleftrightarrow> (engine_todo x \<noteq> [] \<longrightarrow> engine_pc x \<in> {EngineDrain, EngineLastDrain})"

definition feed_pending :: "Engine \<Rightarrow> MarketDataMessage list" where
  "feed_pending e = rb_list FEED_QUEUE_SIZE (feedQueue e)"

definition drained_ok :: "Exchange \<Rightarrow> bool" where
  "drained_ok x \<longleftrightarrow>
     (engine_pc x = EngineOff \<longrightarrow> pending (matchingEngine x) = []) \<and>
     (feed_pc x = FeedOff \<longrightarrow> feed_pending (matchingEngine x) = [])"

definition tables_at :: "MainPc \<Rightarrow> ZmqServer \<Rightarrow> SessionManager \<Rightarrow> bool" where
  "tables_at pc zs sm \<longleftrightarrow>
     (if phase pc \<le> 3 then server_inv zs sm
      else case pc of
        EndSessions ends \<Rightarrow> (\<forall>i sid. identityToSession sm i = Some sid \<longrightarrow> (i, sid) \<in> set ends)
      | _ \<Rightarrow> identityToSession sm = Map.empty \<and> zs_identityToSession zs = Map.empty \<and>
             zs_sessionToIdentity zs = Map.empty)"

text \<open>Everything sent so far is a well-framed message.\<close>

definition response_frames :: "bytes list \<Rightarrow> bool" where
  "response_frames frames \<longleftrightarrow>
     (\<exists>identity body. frames = [identity, [], put_response body] \<and> framed_response body)"

definition market_datagram :: "bytes \<Rightarrow> bool" where
  "market_datagram d \<longleftrightarrow> (\<exists>m. d = put_market_data m \<and> framed_market m)"

definition sent_ok :: "Exchange \<Rightarrow> bool" where
  "sent_ok x \<longleftrightarrow> (\<forall>frames\<in>set (zs_wire (zmqServer x)). response_frames frames) \<and>
     (\<forall>d\<in>set (datagrams (fh_multicast (feedHandler x))). market_datagram d)"

definition state_ok :: "Exchange \<Rightarrow> bool" where
  "state_ok x \<longleftrightarrow> engine_ok (matchingEngine x) \<and> todo_ok (matchingEngine x) (engine_todo x) \<and>
     sessions_plain (sessionManager x) \<and>
     tables_at (main_pc x) (zmqServer x) (sessionManager x) \<and>
     pred_option generator_ok (dummyGenerator x)"

definition exchange_inv :: "Exchange \<Rightarrow> bool" where
  "exchange_inv x \<longleftrightarrow> flags_ok x \<and> threads_ok x \<and> busy_ok x \<and> drained_ok x \<and> state_ok x \<and> sent_ok x"

lemma sendResponse_effect:
  "framed_response (om_body m) \<Longrightarrow> f \<in> set (zs_wire (sendResponse m k zs)) \<Longrightarrow>
     f \<in> set (zs_wire zs) \<or> response_frames f"
  by (auto simp: sendResponse_logs response_frames_def split: option.splits if_splits)

lemma processMessage_effect:
  "fh_running (processMessage m fh) = fh_running fh"
  "socketFd (fh_multicast (processMessage m fh)) = socketFd (fh_multicast fh)"
  "framed_market m \<Longrightarrow> d \<in> set (datagrams (fh_multicast (processMessage m fh))) \<Longrightarrow>
     d \<in> set (datagrams (fh_multicast fh)) \<or> market_datagram d"
  by (auto simp: processMessage_def publishMessage_def publish_def market_datagram_def Let_def
      split: MarketDataMessage.splits prod.splits if_splits)

text \<open>Only \<open>start\<close> and \<open>stop\<close> write a component's running flag.\<close>

lemma running_senders [simp]:
  "running (sendOrderAck sid cid oid status e) = running e"
  "running (sendOrderReject sid cid reason e) = running e"
  "running (sendExecutionReport sid oid p q leaves side e) = running e"
  "running (sendCancelAck sid cid oid e) = running e"
  "running (sendCancelReject sid cid oid reason e) = running e"
  "running (sendModifyAck sid cid oid p q e) = running e"
  "running (sendModifyReject sid cid oid reason e) = running e"
  "running (publishTradeUpdate trade side e) = running e"
  "running (publishTickUpdate e) = running e"
  "running (track_order sid oid cid e) = running e"
  "running (untrack_order sid oid e) = running e"
  unfolding sender_defs track_order_def untrack_order_def push_outbound_def push_feed_def
  by (simp_all split: prod.split)

lemma running_fold: "(\<And>y e. running (f y e) = running e) \<Longrightarrow> running (fold f ys e) = running e"
  by (induction ys arbitrary: e) simp_all

lemma running_report_trade [simp]:
  "running (report_trade sid orderId side p t e) = running e"
  "running (report_modify_trade orderId t e) = running e"
  by (simp_all add: report_trade_def report_modify_trade_def Let_def split: option.split)

lemma running_accept [simp]: "running (accept_order sid request side ot e) = running e"
  unfolding accept_order_def report_trades_def Let_def split_beta
  by (simp add: running_fold read_clock_def make_shared_def)

lemma running_handlers [simp]:
  "running (handleNewOrder sid nr e) = running e"
  "running (handleCancelOrder sid cr e) = running e"
  "running (handleModifyOrder sid mr e) = running e"
  by (simp_all add: handleNewOrder_def handleCancelOrder_def handleModifyOrder_def running_fold Let_def
      split: option.split)

lemma running_process [simp]: "running (processInboundMessage msg e) = running e"
  by (simp add: processInboundMessage_def split: InboundBody.split)

lemma running_queues [simp]:
  "running (push_inbound m e) = running e" "running (snd (pop_inbound e)) = running e"
  by (simp_all add: push_inbound_def pop_inbound_def split_beta)

lemma dg_running_draws [simp]:
  "dg_running (snd (draw g)) = dg_running g"
  "dg_running (snd (generateSide g)) = dg_running g"
  "dg_running (snd (generateOrderType fl g)) = dg_running g"
  "dg_running (snd (generateQuantity g)) = dg_running g"
  by (simp_all add: draw_def generateSide_def generateOrderType_def generateQuantity_def)

lemma generatePrice_running:
  assumes "generatePrice fl g = Some (p, g')"
  shows "dg_running g' = dg_running g"
proof -
  have "\<exists>cur. g' = (snd (draw g))\<lparr>currentPrice := cur\<rparr>"
    using assms by (auto simp: generatePrice_def Let_def bind_eq_Some_conv split_beta)
  then show ?thesis by auto
qed

lemma request_price_running:
  assumes "request_price fl side ot g = Some (p, g')"
  shows "dg_running g' = dg_running g"
proof (cases "ot = MARKET")
  case True
  with assms show ?thesis by (simp add: request_price_def)
next
  case False
  with assms obtain q g1 off where one: "generatePrice fl g = Some (q, g1)"
    and two: "price_offset fl g1 = Some (off, g')"
    by (auto simp: request_price_def bind_eq_Some_conv)
  have "g' = snd (draw g1)" using two by (auto simp: price_offset_def Let_def bind_eq_Some_conv split_beta)
  with generatePrice_running [OF one] show ?thesis by simp
qed

lemma generate_request_running:
  assumes "generate_request fl g = Some (m, g')"
  shows "dg_running g' = dg_running g"
proof -
  let ?g = "g\<lparr>gen_clock := \<lambda>n. gen_clock g (Suc n), nextClientOrderId := nextClientOrderId g + 1\<rparr>"
  let ?g3 = "snd (generateQuantity (snd (generateOrderType fl (snd (generateSide ?g)))))"
  have "\<exists>side ot p. request_price fl side ot ?g3 = Some (p, g')"
    using assms unfolding generate_request_def Let_def split_beta bind_eq_Some_conv by auto
  then obtain side ot p where "request_price fl side ot ?g3 = Some (p, g')" by blast
  from request_price_running [OF this] show ?thesis by simp
qed

lemma generateOrder_running:
  "generateOrder fl g q = Some (g', q') \<Longrightarrow> dg_running g' = dg_running g"
  using generate_request_running
  by (fastforce simp: generateOrder_def bind_eq_Some_conv split: prod.splits if_splits)

section \<open>Every step keeps the invariant\<close>

lemma no_callback_run:
  "sessions_plain sm \<Longrightarrow> destroySession sid sm = (cb, sm') \<Longrightarrow> runs_callback cb e e' \<Longrightarrow> e' = e"
  using destroySession_plain(2) [of sm sid] by (auto elim: runs_callback.cases)

lemma step_flags:
  assumes "exchange_step fl t x y" and "exchange_inv x"
  shows "flags_ok y"
proof -
  have x: "flags_ok x" "threads_ok x" "sessions_plain (sessionManager x)"
    using assms(2) by (simp_all add: exchange_inv_def state_ok_def)
  show ?thesis
    using assms(1)
  proof (cases rule: exchange_step_cases)
    case (server_receive f1 f2 f3 zs sm q)
    have "zs_running zs = zs_running (zmqServer x)"
      using processIncoming_effect(2) [OF server_receive(4)]
      by (auto simp: connectClient_def split: option.splits prod.splits)
    with server_receive x show ?thesis by (simp add: flags_ok_def)
  next
    case (engine_message msg e e' actions)
    then have "running e' = running (matchingEngine x)"
      using running_queues(2) [of "matchingEngine x"] begin_message_frame(4) by simp
    with engine_message x show ?thesis by (simp add: flags_ok_def)
  next
    case (engine_empty e)
    then have "running e = running (matchingEngine x)"
      using running_queues(2) [of "matchingEngine x"] by simp
    with engine_empty x show ?thesis by (simp add: flags_ok_def)
  next
    case (dummy_order now g g' q)
    with generateOrder_running x show ?thesis by (simp add: flags_ok_def)
  next
    case main_stop
    with x show ?thesis
      by (cases "dummyGenerator x") (simp_all add: flags_ok_def dummy_stop_def)
  next
    case (main_end_session i sid ends cb sm e)
    note [simp] = no_callback_run [OF x(3) main_end_session(4,5)]
    from main_end_session x show ?thesis by (simp add: flags_ok_def)
  next
    case main_feed_joined
    with x show ?thesis by (simp add: flags_ok_def udp_shutdown_def)
  qed (use x in \<open>simp_all add: flags_ok_def processMessage_effect\<close>)
qed

lemma step_threads:
  assumes "exchange_step fl t x y" and "exchange_inv x"
  shows "threads_ok y"
proof -
  have x: "flags_ok x" "threads_ok x" using assms(2) by (simp_all add: exchange_inv_def)
  show ?thesis
    using assms(1)
    by (cases rule: exchange_step_cases)
      (use x in \<open>simp_all add: flags_ok_def threads_ok_def\<close>, (cases "main_pc x"; simp)+)
qed

lemma step_busy:
  assumes "exchange_step fl t x y" and "exchange_inv x"
  shows "busy_ok y"
proof -
  have x: "busy_ok x" using assms(2) by (simp add: exchange_inv_def)
  show ?thesis
    using assms(1)
  proof (cases rule: exchange_step_cases)
    case engine_look
    with x show ?thesis by (auto simp: busy_ok_def)
  next
    case (dummy_enter g now)
    with x show ?thesis by (cases "ordersPerSecond (config g) = 0") (simp_all add: busy_ok_def)
  qed (use x in \<open>simp_all add: busy_ok_def\<close>)
qed

text \<open>The operations of the other threads on the queues keep the engine in order.\<close>

lemma engine_ok_inbound:
  assumes "engine_ok e"
  shows "pop_inbound e = (m, e') \<Longrightarrow> engine_ok e'" and "engine_ok (push_inbound msg e)"
proof -
  show "pop_inbound e = (m, e') \<Longrightarrow> engine_ok e'"
    using inbound_keeps(2) [OF engine_okD(1) [OF assms]] engine_okD(2) [OF assms]
    by (auto simp: engine_ok_def pop_inbound_def split_beta)
  show "engine_ok (push_inbound msg e)"
    using inbound_keeps(1) [OF engine_okD(1) [OF assms]] engine_okD(2) [OF assms]
    by (simp add: engine_ok_def push_inbound_def)
qed

lemma engine_ok_pop:
  assumes "engine_ok e"
  shows "getOutboundMessage (outboundQueue e) = (m, q) \<Longrightarrow> engine_ok (e\<lparr>outboundQueue := q\<rparr>)"
    and "spsc_pop FEED_QUEUE_SIZE (feedQueue e) = (d, fq) \<Longrightarrow> engine_ok (e\<lparr>feedQueue := fq\<rparr>)"
proof -
  note e = engine_okD [OF assms]
  have q: "rb_inv OUTBOUND_QUEUE_SIZE (outboundQueue e)" "rb_inv FEED_QUEUE_SIZE (feedQueue e)"
    using e(2) by (simp_all add: well_framed_def)
  show "getOutboundMessage (outboundQueue e) = (m, q) \<Longrightarrow> engine_ok (e\<lparr>outboundQueue := q\<rparr>)"
    using queue_fields_irrelevant(2) [OF e(1) outbound.pop_contents(1) [OF q(1)]] framed_pops(1) [OF e(2)]
    by (simp add: engine_ok_def getOutboundMessage_def)
  show "spsc_pop FEED_QUEUE_SIZE (feedQueue e) = (d, fq) \<Longrightarrow> engine_ok (e\<lparr>feedQueue := fq\<rparr>)"
    using queue_fields_irrelevant(3) [OF e(1) feed.pop_contents(1) [OF q(2)]] framed_pops(2) [OF e(2)]
    by (simp add: engine_ok_def)
qed

lemma todo_ok_fields [simp]:
  "todo_ok (e\<lparr>inboundQueue := iq\<rparr>) as = todo_ok e as" "todo_ok (e\<lparr>outboundQueue := oq\<rparr>) as = todo_ok e as"
  "todo_ok (e\<lparr>feedQueue := fq\<rparr>) as = todo_ok e as" "todo_ok (e\<lparr>running := r\<rparr>) as = todo_ok e as"
  by (blast intro: todo_ok_private same_private_fields same_private_sym)+

lemma engine_ok_running [simp]: "engine_ok (e\<lparr>running := r\<rparr>) = engine_ok e"
  by (simp add: engine_ok_def queue_fields_irrelevant(4))

lemma state_okD:
  assumes "exchange_inv x"
  shows "engine_ok (matchingEngine x)" and "sessions_plain (sessionManager x)"
    and "tables_at (main_pc x) (zmqServer x) (sessionManager x)"
    and "pred_option generator_ok (dummyGenerator x)"
    and "todo_ok (matchingEngine x) (engine_todo x)"
  using assms by (simp_all add: exchange_inv_def state_ok_def)

lemma generateOrder_keeps:
  assumes "rounding_ok fl" and "generator_ok g" and "engine_ok e"
    and "generateOrder fl g (inboundQueue e) = Some (g', q)"
  shows "generator_ok g'" and "engine_ok (e\<lparr>inboundQueue := q\<rparr>)"
proof -
  have "mpsc_inv INBOUND_QUEUE_SIZE (inboundQueue e)"
    using engine_invD(4) [OF engine_okD(1) [OF assms(3)]] by (simp add: queues_ok_def)
  from generateOrder_effect [OF assms(1,2) this] assms(4) show "generator_ok g'" by auto
  from generateOrder_queue [OF assms(4)] engine_ok_inbound(2) [OF assms(3)]
  show "engine_ok (e\<lparr>inboundQueue := q\<rparr>)" by auto
qed

lemma processIncoming_keeps:
  assumes "processIncoming f1 f2 f3 zs sm (inboundQueue e) = Some (zs', sm', q)"
    and "sessions_plain sm" and "sessions_left sm" and "server_inv zs sm" and "engine_ok e"
  shows "sessions_plain sm'" and "server_inv zs' sm'" and "engine_ok (e\<lparr>inboundQueue := q\<rparr>)"
proof -
  from processIncoming_effect(1) [OF assms(1)] engine_ok_inbound(2) [OF assms(5)] assms(5)
  show "engine_ok (e\<lparr>inboundQueue := q\<rparr>)" by auto
  from processIncoming_effect(2) [OF assms(1)] connectClient_plain(1) [OF assms(2,3)]
    connectClient_keeps(1) [OF assms(4,3)] assms(2,4)
  show "sessions_plain sm'" and "server_inv zs' sm'" by auto
qed

lemma server_inv_fields:
  "server_inv (zs\<lparr>zs_running := r\<rparr>) sm = server_inv zs sm"
  "server_inv (sendResponse m k zs) sm = server_inv zs sm"
  by (simp_all add: server_inv_def)

lemma tables_end_session:
  assumes "sessions_plain sm" and "destroySession sid sm = (cb, sm')"
    and "tables_at (EndSessions ((i, sid) # ends)) zs sm"
  shows "tables_at (EndSessions ends) zs sm'"
  using assms destroySession_plain(3) [OF assms(1), of sid] by (fastforce simp: tables_at_def)

lemma step_state:
  assumes "exchange_step fl t x y" and "exchange_inv x" and "rounding_ok fl"
    and "ids_left (matchingEngine x)" and "sessions_left (sessionManager x)"
  shows "state_ok y"
proof -
  note x = state_okD [OF assms(2)]
  have on: "server_pc x \<noteq> ServerOff \<Longrightarrow> phase (main_pc x) \<le> 3"
    using assms(2) by (fastforce simp: exchange_inv_def threads_ok_def)
  show ?thesis
    using assms(1)
  proof (cases rule: exchange_step_cases)
    case (server_receive f1 f2 f3 zs sm q)
    then have "server_inv (zmqServer x) (sessionManager x)" using x(3) on by (simp add: tables_at_def)
    from processIncoming_keeps [OF server_receive(4) x(2) assms(5) this x(1)] server_receive on x
    show ?thesis by (simp add: state_ok_def tables_at_def)
  next
    case (server_send msg q)
    with engine_ok_pop(1) [OF x(1)] x on show ?thesis
      by (simp add: state_ok_def tables_at_def server_inv_fields)
  next
    case (server_sent q)
    with engine_ok_pop(1) [OF x(1)] x show ?thesis by (simp add: state_ok_def)
  next
    case (engine_message msg e e' actions)
    then have "ids_left e" using assms(4) by (auto simp: pop_inbound_def ids_left_def split_beta)
    with begin_message_ok [OF engine_ok_inbound(1) [OF x(1) engine_message(5)] _ engine_message(6)]
      engine_message x show ?thesis
      by (simp add: state_ok_def)
  next
    case (engine_push a actions)
    with do_action_ok [OF x(1), of a] x show ?thesis by (simp add: state_ok_def)
  next
    case (engine_empty e)
    with engine_ok_inbound(1) [OF x(1)] x show ?thesis by (simp add: state_ok_def)
  next
    case (feed_message msg q)
    with engine_ok_pop(2) [OF x(1)] x show ?thesis by (simp add: state_ok_def)
  next
    case (feed_empty q)
    with engine_ok_pop(2) [OF x(1)] x show ?thesis by (simp add: state_ok_def)
  next
    case (dummy_order now g g' q)
    with generateOrder_keeps [OF assms(3) _ x(1)] x show ?thesis by (simp add: state_ok_def)
  next
    case main_stop
    with x show ?thesis
      by (cases "dummyGenerator x")
        (simp_all add: state_ok_def tables_at_def dummy_stop_def generator_ok_def draws_ok_def walk_ok_def)
  next
    case main_dummy_joined
    with x show ?thesis by (simp add: state_ok_def tables_at_def server_inv_fields)
  next
    case (main_server_joined ends)
    then have "map_of ends = identityToSession (sessionManager x)"
      using x(3) by (simp add: tables_at_def server_inv_def enumerates_def)
    then have "identityToSession (sessionManager x) i = Some sid \<Longrightarrow> (i, sid) \<in> set ends" for i sid
      using map_of_SomeD [of ends i sid] by simp
    with main_server_joined x show ?thesis by (simp add: state_ok_def tables_at_def)
  next
    case (main_end_session i sid ends cb sm e)
    note keep = no_callback_run [OF x(2) main_end_session(4,5)] tables_end_session [OF x(2) main_end_session(4)]
    have "sessions_plain sm" using destroySession_plain(1) [OF x(2), of sid] main_end_session(4) by simp
    with keep main_end_session x show ?thesis by (simp add: state_ok_def)
  next
    case main_sessions_ended
    with x have "identityToSession (sessionManager x) = Map.empty"
      by (auto simp: tables_at_def)
    with main_sessions_ended x show ?thesis by (simp add: state_ok_def tables_at_def)
  next
    case main_engine_joined
    with x show ?thesis by (simp add: state_ok_def tables_at_def)
  next
    case main_feed_joined
    with x show ?thesis by (simp add: state_ok_def tables_at_def)
  qed (use x in \<open>simp_all add: state_ok_def\<close>)
qed

text \<open>Which messages wait in the queues, and which the network has seen.\<close>

lemma action_pending [simp]: "pending (do_action a e) = pending e"
  by (simp add: pending_def)

lemma begin_pending:
  assumes "begin_message msg e = (e', actions)"
  shows "pending e' = pending e" and "feed_pending e' = feed_pending e"
  using begin_message_frame [OF assms] by (simp_all add: pending_def feed_pending_def)

lemma pop_inbound_tl:
  assumes "engine_ok e" and "pop_inbound e = (m, e')"
  shows "pending e' = tl (pending e)" and "m = None \<Longrightarrow> pending e' = []"
    and "feedQueue e' = feedQueue e"
  using pop_inbound_pending [OF engine_okD(1) [OF assms(1)]] assms(2)
  by (auto simp: pop_inbound_def split_beta split: list.splits)

lemma pop_feed_tl:
  assumes "engine_ok e" and "spsc_pop FEED_QUEUE_SIZE (feedQueue e) = (m, q)"
  shows "feed_pending (e\<lparr>feedQueue := q\<rparr>) = tl (feed_pending e)"
    and "m = None \<Longrightarrow> feed_pending (e\<lparr>feedQueue := q\<rparr>) = []"
    and "m = Some d \<Longrightarrow> framed_market d"
proof -
  have q: "rb_inv FEED_QUEUE_SIZE (feedQueue e)" and framed: "\<forall>m\<in>set (feed_pending e). framed_market m"
    using engine_okD(2) [OF assms(1)] by (simp_all add: well_framed_def feed_pending_def)
  note pop = feed.pop_contents [OF q, unfolded assms(2), folded feed_pending_def]
  show "feed_pending (e\<lparr>feedQueue := q\<rparr>) = tl (feed_pending e)"
    using pop(2) by (simp add: feed_pending_def)
  then show "m = None \<Longrightarrow> feed_pending (e\<lparr>feedQueue := q\<rparr>) = []"
    using pop(3) by (simp split: list.splits)
  show "m = Some d \<Longrightarrow> framed_market d"
    using pop(3) framed by (simp split: list.splits)
qed

lemma popped_response_framed:
  assumes "engine_ok e" and "getOutboundMessage (outboundQueue e) = (Some m, q)"
  shows "framed_response (om_body m)"
proof -
  have q: "rb_inv OUTBOUND_QUEUE_SIZE (outboundQueue e)"
    and framed: "\<forall>m\<in>set (rb_list OUTBOUND_QUEUE_SIZE (outboundQueue e)). framed_response (om_body m)"
    using engine_okD(2) [OF assms(1)] by (simp_all add: well_framed_def)
  show ?thesis
    using outbound.pop_contents(3) [OF q] assms(2) framed
    by (simp add: getOutboundMessage_def split: list.splits)
qed

lemma queue_field_pending [simp]:
  "pending (e\<lparr>outboundQueue := oq\<rparr>) = pending e" "pending (e\<lparr>feedQueue := fq\<rparr>) = pending e"
  "pending (e\<lparr>running := r\<rparr>) = pending e"
  "feed_pending (e\<lparr>outboundQueue := oq\<rparr>) = feed_pending e"
  "feed_pending (e\<lparr>inboundQueue := iq\<rparr>) = feed_pending e"
  "feed_pending (e\<lparr>running := r\<rparr>) = feed_pending e"
  by (simp_all add: pending_def feed_pending_def)

lemma step_drained:
  assumes "exchange_step fl t x y" and "exchange_inv x"
  shows "drained_ok y"
proof -
  note x = state_okD [OF assms(2)]
  have d: "drained_ok x" using assms(2) by (simp add: exchange_inv_def)
  have live: "server_pc x \<noteq> ServerOff \<Longrightarrow> engine_pc x \<noteq> EngineOff"
    "dummy_pc x \<noteq> DummyOff \<Longrightarrow> engine_pc x \<noteq> EngineOff"
    "engine_pc x \<noteq> EngineOff \<Longrightarrow> feed_pc x \<noteq> FeedOff"
    using assms(2) by (fastforce simp: exchange_inv_def threads_ok_def)+
  show ?thesis
    using assms(1)
  proof (cases rule: exchange_step_cases)
    case (engine_message msg e e' actions)
    with live show ?thesis by (auto simp: drained_ok_def)
  next
    case (engine_push a actions)
    then have "engine_pc x \<noteq> EngineOff" using assms(2) by (auto simp: exchange_inv_def busy_ok_def)
    with engine_push live show ?thesis by (auto simp: drained_ok_def)
  next
    case (engine_empty e)
    with pop_inbound_tl [OF x(1) engine_empty(5)] live d show ?thesis
      by (auto simp: drained_ok_def feed_pending_def)
  next
    case (feed_message msg q)
    with d show ?thesis by (auto simp: drained_ok_def)
  next
    case (feed_empty q)
    with pop_feed_tl(2) [OF x(1) feed_empty(4)] d show ?thesis by (simp add: drained_ok_def)
  next
    case (main_end_session i sid ends cb sm e)
    with no_callback_run [OF x(2) main_end_session(4,5)] d show ?thesis by (simp add: drained_ok_def)
  qed (use live d in \<open>auto simp: drained_ok_def\<close>)
qed

lemma step_sent:
  assumes "exchange_step fl t x y" and "exchange_inv x"
  shows "sent_ok y"
proof -
  note x = state_okD [OF assms(2)]
  have s: "sent_ok x" using assms(2) by (simp add: exchange_inv_def)
  show ?thesis
    using assms(1)
  proof (cases rule: exchange_step_cases)
    case (server_receive f1 f2 f3 zs sm q)
    have "zs_wire zs = zs_wire (zmqServer x)"
      using processIncoming_effect(2) [OF server_receive(4)]
      by (auto simp: connectClient_def split: option.splits prod.splits)
    with server_receive s show ?thesis by (simp add: sent_ok_def)
  next
    case (server_send msg q)
    with sendResponse_effect [OF popped_response_framed [OF x(1) server_send(4)]] s
    show ?thesis by (auto simp: sent_ok_def)
  next
    case (feed_message msg q)
    with processMessage_effect(3) [OF pop_feed_tl(3) [OF x(1) feed_message(4) refl]] s
    show ?thesis by (auto simp: sent_ok_def)
  next
    case main_feed_joined
    with s show ?thesis by (simp add: sent_ok_def udp_shutdown_def)
  qed (use s in \<open>simp_all add: sent_ok_def\<close>)
qed

lemma step_inv:
  assumes "exchange_step fl t x y" and "exchange_inv x" and "rounding_ok fl"
    and "ids_left (matchingEngine x)" and "sessions_left (sessionManager x)"
  shows "exchange_inv y"
  unfolding exchange_inv_def
  using step_flags [OF assms(1,2)] step_threads [OF assms(1,2)] step_busy [OF assms(1,2)] step_drained [OF assms(1,2)]
    step_state [OF assms] step_sent [OF assms(1,2)] by blast

section \<open>Reachable exchanges\<close>

lemma new_exchange_state:
  "engine_ok (matchingEngine (new_exchange env c))"
  "sessions_plain (sessionManager (new_exchange env c))"
  "server_inv (zmqServer (new_exchange env c)) (sessionManager (new_exchange env c))"
  "zs_wire (zmqServer (new_exchange env c)) = []"
  "datagrams (fh_multicast (feedHandler (new_exchange env c))) = []"
  "zs_failed (zmqServer (new_exchange env c)) = []"
  "sent_whole (fh_multicast (feedHandler (new_exchange env c))) = []"
  by (simp add: new_exchange_def reachable_ok engine_new)
    (use new_SessionManager_inv in \<open>auto simp: new_exchange_def sessions_plain_def server_inv_def
      add_remove_keeps setDisconnectCallback_def new_SessionManager_def new_ZmqServer_def
      new_FeedHandler_def new_UdpMulticast_def sm_inv_def\<close>)

lemma generator_ok_started:
  "generator_ok g \<Longrightarrow> generator_ok (g\<lparr>dg_running := True, currentPrice := basePrice (config g)\<rparr>)"
  by (auto simp: generator_ok_def draws_ok_def walk_ok_def config_ok_def)

lemma exchange_start_true:
  assumes "exchange_start fd ttl_ok bound (new_exchange env c) = Some (True, x)"
  shows "0 \<le> fd \<and> ttl_ok \<and> bound"
  using assms exchange_start_no_socket [OF new_exchange_idle, of fd ttl_ok bound env c]
    exchange_start_no_bind [OF new_exchange_idle, of fd ttl_ok bound env c]
  by (cases "fd < 0"; cases ttl_ok; cases bound) simp_all

lemma started_inv:
  assumes "main_config args = Run c" and "environment_ok env"
    and "exchange_start fd ttl_ok bound (new_exchange env c) = Some (True, x)"
  shows "exchange_inv x"
proof -
  let ?n = "new_exchange env c"
  from exchange_start_true [OF assms(3)] have up: "0 \<le> fd" ttl_ok bound by simp_all
  note x = exchange_start_up [OF new_exchange_idle up, of env c, unfolded assms(3) option.inject prod.inject, THEN conjunct2]
  have gen: "pred_option generator_ok (dummyGenerator ?n)" by (rule main_generator_ok [OF assms(1,2)])
  have "flags_ok x"
    using up by (cases "dummyGenerator ?n") (simp_all add: x flags_ok_def)
  moreover have "threads_ok x" "busy_ok x" "drained_ok x"
    by (simp_all add: x threads_ok_def busy_ok_def drained_ok_def new_exchange_fields)
  moreover have "state_ok x"
    using gen new_exchange_state [of env c] new_exchange_fields(7) [of env c] generator_ok_started
    by (cases "dummyGenerator ?n") (simp_all add: x state_ok_def tables_at_def server_inv_fields)
  moreover have "sent_ok x"
    using new_exchange_state(4,5) [of env c] by (simp add: x sent_ok_def)
  ultimately show ?thesis by (simp add: exchange_inv_def)
qed

lemma reachable_inv: "exchange_reachable fl x \<Longrightarrow> rounding_ok fl \<Longrightarrow> exchange_inv x"
  by (induction rule: exchange_reachable.induct) (blast intro: started_inv step_inv)+

section \<open>The way to the end\<close>

definition lasting :: "Exchange \<Rightarrow> bool" where
  "lasting x \<longleftrightarrow> ids_left (matchingEngine x) \<and> sessions_left (sessionManager x)"

inductive exchange_run :: "(real \<Rightarrow> real) \<Rightarrow> Exchange \<Rightarrow> Exchange \<Rightarrow> bool" for fl where
  run_here: "exchange_run fl x x"
| run_on: "lasting x \<Longrightarrow> exchange_step fl t x y \<Longrightarrow> exchange_run fl y z \<Longrightarrow> exchange_run fl x z"

lemma run_reachable: "exchange_run fl x y \<Longrightarrow> exchange_reachable fl x \<Longrightarrow> exchange_reachable fl y"
  by (induction rule: exchange_run.induct) (auto simp: lasting_def intro: exchange_reachable.stepped)

text \<open>
  How far the thread that the main thread waits for is from its end, if it is scheduled next and
  nothing new comes in; then, for the matching thread, how far it is from the end of its handler.
\<close>

primrec dummy_rank :: "DummyPc \<Rightarrow> nat" where
  "dummy_rank DummyOff = 0"
| "dummy_rank DummyCheck = 1"
| "dummy_rank DummyEntry = 2"
| "dummy_rank (DummyOrder now) = 2"

primrec server_rank :: "nat \<Rightarrow> ServerPc \<Rightarrow> nat" where
  "server_rank n ServerOff = 0"
| "server_rank n ServerCheck = 1"
| "server_rank n ServerIncoming = 2"
| "server_rank n ServerOutbound = 2 + n"

primrec engine_rank :: "nat \<Rightarrow> EnginePc \<Rightarrow> nat" where
  "engine_rank n EngineOff = 0"
| "engine_rank n EngineLastDrain = 1 + n"
| "engine_rank n EngineCheck = 2 + n"
| "engine_rank n EngineDrain = 3 + n"

primrec feed_rank :: "nat \<Rightarrow> FeedPc \<Rightarrow> nat" where
  "feed_rank n FeedOff = 0"
| "feed_rank n FeedLastDrain = 1 + n"
| "feed_rank n FeedCheck = 2 + n"
| "feed_rank n FeedDrain = 3 + n"

definition out_pending :: "Engine \<Rightarrow> OutboundMessage list" where
  "out_pending e = rb_list OUTBOUND_QUEUE_SIZE (outboundQueue e)"

definition join_rank :: "Exchange \<Rightarrow> nat" where
  "join_rank x =
     (case main_pc x of
        JoinDummy \<Rightarrow> dummy_rank (dummy_pc x)
      | JoinServer \<Rightarrow> server_rank (length (out_pending (matchingEngine x))) (server_pc x)
      | EndSessions ends \<Rightarrow> length ends
      | JoinEngine \<Rightarrow> engine_rank (length (pending (matchingEngine x))) (engine_pc x)
      | JoinFeed \<Rightarrow> feed_rank (length (feed_pending (matchingEngine x))) (feed_pc x)
      | _ \<Rightarrow> 0)"

text \<open>The order ids that the shutdown may still use: one for each message that may yet be processed.\<close>

definition due_orders :: "Exchange \<Rightarrow> nat" where
  "due_orders x = length (pending (matchingEngine x)) +
     (case dummy_pc x of DummyOrder now \<Rightarrow> 1 | _ \<Rightarrow> 0)"

definition shutdown_budget :: "Exchange \<Rightarrow> bool" where
  "shutdown_budget x \<longleftrightarrow> id_budget (Suc (due_orders x)) (matchingEngine x) \<and> sessions_left (sessionManager x)"

definition nearer :: "Exchange \<Rightarrow> Exchange \<Rightarrow> bool" where
  "nearer y x \<longleftrightarrow> shutdown_budget y \<and>
     (y, x) \<in> measures [\<lambda>x. 7 - phase (main_pc x), join_rank, \<lambda>x. length (engine_todo x)]"

lemma budget_lasting: "shutdown_budget x \<Longrightarrow> lasting x"
  by (auto simp: shutdown_budget_def lasting_def intro: id_budget_ids_left)

lemma nearerI:
  assumes "exchange_step fl t x y" and "shutdown_budget y"
    and "phase (main_pc x) < phase (main_pc y) \<or> phase (main_pc y) = phase (main_pc x) \<and>
      (join_rank y < join_rank x \<or> join_rank y = join_rank x \<and> length (engine_todo y) < length (engine_todo x))"
  shows "\<exists>t y. exchange_step fl t x y \<and> nearer y x"
proof -
  have "phase (main_pc y) \<le> 7" by (cases "main_pc y") simp_all
  with assms have "nearer y x" by (auto simp: nearer_def)
  with assms(1) show ?thesis by blast
qed

lemma threads_okD:
  assumes "exchange_inv x"
  shows "dummy_pc x \<noteq> DummyOff \<Longrightarrow> \<exists>g. dummyGenerator x = Some g \<and> generator_ok g \<and>
      dg_running g = (phase (main_pc x) \<le> 1)"
    and "mpsc_inv INBOUND_QUEUE_SIZE (inboundQueue (matchingEngine x))"
    and "running (matchingEngine x) = (phase (main_pc x) \<le> 4)"
    and "zs_running (zmqServer x) = (phase (main_pc x) \<le> 2)"
    and "fh_running (feedHandler x) = (phase (main_pc x) \<le> 5)"
proof -
  note inv = assms [unfolded exchange_inv_def flags_ok_def threads_ok_def state_ok_def]
  from inv show "dummy_pc x \<noteq> DummyOff \<Longrightarrow> \<exists>g. dummyGenerator x = Some g \<and> generator_ok g \<and>
      dg_running g = (phase (main_pc x) \<le> 1)"
    by (cases "dummyGenerator x") auto
  show "mpsc_inv INBOUND_QUEUE_SIZE (inboundQueue (matchingEngine x))"
    using engine_invD(4) [OF engine_okD(1) [OF state_okD(1) [OF assms]]] by (simp add: queues_ok_def)
  from inv show "running (matchingEngine x) = (phase (main_pc x) \<le> 4)"
    and "zs_running (zmqServer x) = (phase (main_pc x) \<le> 2)"
    and "fh_running (feedHandler x) = (phase (main_pc x) \<le> 5)" by blast+
qed

lemma near_waiting:
  assumes "main_pc x = Waiting" and "shutdownRequested x" and "shutdown_budget x"
  shows "\<exists>t y. exchange_step fl t x y \<and> nearer y x"
  using assms(3) by (intro nearerI [OF main_stop [OF assms(1,2)]]) (simp_all add: assms shutdown_budget_def due_orders_def)

lemma dummy_order_step:
  assumes "exchange_inv x" and "rounding_ok fl" and "dummy_pc x = DummyOrder now"
  shows "\<exists>g g' q. dummyGenerator x = Some g \<and>
    generateOrder fl g (inboundQueue (matchingEngine x)) = Some (g', q) \<and>
    length (rb_list INBOUND_QUEUE_SIZE q) \<le> Suc (length (pending (matchingEngine x)))"
proof -
  obtain g where g: "dummyGenerator x = Some g" "generator_ok g"
    using threads_okD(1) [OF assms(1)] assms(3) by auto
  from generateOrder_effect [OF assms(2) g(2) threads_okD(2) [OF assms(1)]] g(1) show ?thesis
    by (fastforce simp: pending_def)
qed

lemma near_dummy:
  assumes inv: "exchange_inv x" and fl: "rounding_ok fl" and pc: "main_pc x = JoinDummy"
    and b: "shutdown_budget x"
  shows "\<exists>t y. exchange_step fl t x y \<and> nearer y x"
proof (cases "dummy_pc x")
  case DummyOff
  show ?thesis
    using b by (intro nearerI [OF main_dummy_joined [OF pc DummyOff]])
      (simp_all add: pc shutdown_budget_def due_orders_def)
next
  case DummyEntry
  then obtain g where g: "dummyGenerator x = Some g" using threads_okD(1) [OF inv] by auto
  show ?thesis
    using b by (intro nearerI [OF dummy_enter [OF DummyEntry g]])
      (simp_all add: pc shutdown_budget_def due_orders_def join_rank_def DummyEntry)
next
  case DummyCheck
  then obtain g where g: "dummyGenerator x = Some g" "\<not> dg_running g"
    using threads_okD(1) [OF inv] by (auto simp: pc)
  show ?thesis
    using b by (intro nearerI [OF dummy_look [OF DummyCheck g(1)]])
      (simp_all add: pc shutdown_budget_def due_orders_def join_rank_def DummyCheck g)
next
  case (DummyOrder now)
  from dummy_order_step [OF inv fl this] obtain g g' q where g: "dummyGenerator x = Some g"
    "generateOrder fl g (inboundQueue (matchingEngine x)) = Some (g', q)"
    "length (rb_list INBOUND_QUEUE_SIZE q) \<le> Suc (length (pending (matchingEngine x)))" by blast
  show ?thesis
    using b g(3) by (intro nearerI [OF dummy_order [OF DummyOrder g(1,2)]])
      (simp_all add: pc shutdown_budget_def due_orders_def join_rank_def DummyOrder id_budget_def pending_def)
qed

lemma pop_out_tl:
  assumes "exchange_inv x"
  shows "getOutboundMessage (outboundQueue (matchingEngine x)) = (Some m, q) \<Longrightarrow>
      length (rb_list OUTBOUND_QUEUE_SIZE q) < length (out_pending (matchingEngine x))"
proof -
  have q: "rb_inv OUTBOUND_QUEUE_SIZE (outboundQueue (matchingEngine x))"
    using engine_okD(2) [OF state_okD(1) [OF assms]] by (simp add: well_framed_def)
  assume "getOutboundMessage (outboundQueue (matchingEngine x)) = (Some m, q)"
  then have "out_pending (matchingEngine x) = m # rb_list OUTBOUND_QUEUE_SIZE q"
    using outbound.pop_contents(2,3) [OF q] by (simp add: getOutboundMessage_def out_pending_def split: list.splits)
  then show "length (rb_list OUTBOUND_QUEUE_SIZE q) < length (out_pending (matchingEngine x))"
    by (simp only: length_Cons lessI)
qed

lemma near_server:
  assumes inv: "exchange_inv x" and pc: "main_pc x = JoinServer" and b: "shutdown_budget x"
  shows "\<exists>t y. exchange_step fl t x y \<and> nearer y x"
proof (cases "server_pc x")
  case ServerOff
  have "finite (dom (identityToSession (sessionManager x)))"
    "zs_identityToSession (zmqServer x) = identityToSession (sessionManager x)"
    using state_okD(2,3) [OF inv] by (simp_all add: sessions_plain_def tables_at_def pc server_inv_def)
  then obtain ends where ends: "enumerates ends (zs_identityToSession (zmqServer x))"
    unfolding enumerates_def using finite_map_entries by metis
  show ?thesis
    using b by (intro nearerI [OF main_server_joined [OF pc ServerOff ends]])
      (simp_all add: pc shutdown_budget_def due_orders_def)
next
  case ServerCheck
  show ?thesis
    using b threads_okD(4) [OF inv] by (intro nearerI [OF server_look [OF ServerCheck]])
      (simp_all add: pc shutdown_budget_def due_orders_def join_rank_def ServerCheck)
next
  case ServerIncoming
  show ?thesis
    using b by (intro nearerI [OF server_error [OF ServerIncoming]])
      (simp_all add: pc shutdown_budget_def due_orders_def join_rank_def ServerIncoming)
next
  case ServerOutbound
  obtain m q where pop: "getOutboundMessage (outboundQueue (matchingEngine x)) = (m, q)"
    by (rule prod.exhaust)
  show ?thesis
  proof (cases m)
    case None
    show ?thesis
      using b by (intro nearerI [OF server_sent [OF ServerOutbound pop [unfolded None]]])
        (simp_all add: pc shutdown_budget_def due_orders_def join_rank_def ServerOutbound id_budget_def)
  next
    case (Some msg)
    show ?thesis
      using b pop_out_tl [OF inv pop [unfolded Some]]
      by (intro nearerI [OF server_send [OF ServerOutbound pop [unfolded Some]]])
        (simp_all add: pc shutdown_budget_def due_orders_def join_rank_def ServerOutbound id_budget_def out_pending_def)
  qed
qed

lemma destroySession_next: "nextSessionId (snd (destroySession sid sm)) = nextSessionId sm"
  by (simp add: destroySession_def Let_def split: option.split)

lemma near_sessions:
  assumes inv: "exchange_inv x" and pc: "main_pc x = EndSessions ends" and b: "shutdown_budget x"
  shows "\<exists>t y. exchange_step fl t x y \<and> nearer y x"
proof (cases ends)
  case Nil
  with pc have "main_pc x = EndSessions []" by simp
  from nearerI [OF main_sessions_ended [OF this]] b show ?thesis
    by (simp add: pc shutdown_budget_def due_orders_def id_budget_def)
next
  case (Cons e rest)
  obtain i sid where e: "e = (i, sid)" by (rule prod.exhaust)
  let ?sm = "snd (destroySession sid (sessionManager x))"
  have pc': "main_pc x = EndSessions ((i, sid) # rest)" using pc Cons e by simp
  have d: "destroySession sid (sessionManager x) = (None, ?sm)"
    using destroySession_plain(2) [OF state_okD(2) [OF inv], of sid] by (metis prod.collapse)
  have left: "sessions_left ?sm = sessions_left (sessionManager x)"
    by (simp add: sessions_left_def destroySession_next)
  show ?thesis
    using b by (intro nearerI [OF main_end_session [OF pc' d no_callback]])
      (simp_all add: pc' shutdown_budget_def due_orders_def id_budget_def left join_rank_def)
qed

lemma pop_inbound_rank:
  assumes "exchange_inv x" and "pop_inbound (matchingEngine x) = (Some m, e)"
  shows "length (pending e) < length (pending (matchingEngine x))"
    and "nextOrderId e = nextOrderId (matchingEngine x)"
proof -
  note e = pop_inbound_pending [OF engine_okD(1) [OF state_okD(1) [OF assms(1)]], unfolded assms(2) fst_conv snd_conv]
  from e(1) have "pending (matchingEngine x) \<noteq> []" by (auto split: list.splits)
  with e(2) show "length (pending e) < length (pending (matchingEngine x))" by (simp add: pending_def [symmetric])
  from e(3) show "nextOrderId e = nextOrderId (matchingEngine x)" .
qed

lemma budget_message:
  assumes inv: "exchange_inv x" and b: "shutdown_budget x"
    and pop: "pop_inbound (matchingEngine x) = (Some m, e)" and started: "begin_message m e = (e', actions)"
  shows "shutdown_budget (x\<lparr>matchingEngine := e', engine_todo := actions\<rparr>)"
    and "length (pending e') < length (pending (matchingEngine x))"
proof -
  note e = pop_inbound_rank [OF inv pop]
  define n where "n = length (pending e) + (case dummy_pc x of DummyOrder now \<Rightarrow> 1 | _ \<Rightarrow> 0)"
  have bud: "id_budget (Suc (Suc n)) e"
    using b e(1) by (simp add: shutdown_budget_def due_orders_def n_def id_budget_def e(2))
  note keep = begin_pending(1) [OF started]
  have "id_budget (Suc n) e'"
    using begin_message_frame(6) [OF started] bud unat_next_id [OF id_budget_ids_left [OF bud]]
    by (auto simp: id_budget_def)
  with b keep show "shutdown_budget (x\<lparr>matchingEngine := e', engine_todo := actions\<rparr>)"
    by (simp add: shutdown_budget_def due_orders_def n_def)
  show "length (pending e') < length (pending (matchingEngine x))"
    using e(1) keep by simp
qed

lemma near_engine:
  assumes inv: "exchange_inv x" and pc: "main_pc x = JoinEngine" and b: "shutdown_budget x"
  shows "\<exists>t y. exchange_step fl t x y \<and> nearer y x"
proof -
  obtain m e where pop: "pop_inbound (matchingEngine x) = (m, e)" by (rule prod.exhaust)
  have drain: ?thesis if at: "engine_pc x \<in> {EngineDrain, EngineLastDrain}" and idle: "engine_todo x = []"
  proof (cases m)
    case None
    have "nextOrderId e = nextOrderId (matchingEngine x)"
      using pop by (auto simp: pop_inbound_def split_beta)
    moreover have "pending e = []" using pop_inbound_tl(2) [OF state_okD(1) [OF inv] pop None] .
    ultimately show ?thesis
      using b at by (intro nearerI [OF engine_empty [OF at idle pop [unfolded None]]])
        (auto simp: pc shutdown_budget_def due_orders_def join_rank_def id_budget_def)
  next
    case (Some msg)
    obtain e' actions where started: "begin_message msg e = (e', actions)" by (rule prod.exhaust)
    note step = budget_message [OF inv b pop [unfolded Some] started]
    show ?thesis
      using step at by (intro nearerI [OF engine_message [OF at idle pop [unfolded Some] started]])
        (auto simp: pc join_rank_def)
  qed
  have push: ?thesis if "engine_todo x = a # actions" for a actions
    using b that by (intro nearerI [OF engine_push [OF that]])
      (auto simp: pc shutdown_budget_def due_orders_def join_rank_def id_budget_def)
  show ?thesis
  proof (cases "engine_pc x")
    case EngineOff
    show ?thesis
      using b by (intro nearerI [OF main_engine_joined [OF pc EngineOff]])
        (simp_all add: pc shutdown_budget_def due_orders_def)
  next
    case EngineCheck
    show ?thesis
      using b threads_okD(3) [OF inv] by (intro nearerI [OF engine_look [OF EngineCheck]])
        (simp_all add: pc shutdown_budget_def due_orders_def join_rank_def EngineCheck)
  qed (use drain push in \<open>cases "engine_todo x"; simp\<close>)+
qed

lemma near_feed:
  assumes inv: "exchange_inv x" and pc: "main_pc x = JoinFeed" and b: "shutdown_budget x"
  shows "\<exists>t y. exchange_step fl t x y \<and> nearer y x"
proof -
  obtain m q where pop: "spsc_pop FEED_QUEUE_SIZE (feedQueue (matchingEngine x)) = (m, q)" by (rule prod.exhaust)
  note tl = pop_feed_tl [OF state_okD(1) [OF inv] pop]
  have drain: ?thesis if at: "feed_pc x \<in> {FeedDrain, FeedLastDrain}"
  proof (cases m)
    case None
    show ?thesis
      using b at tl(2) [OF None] by (intro nearerI [OF feed_empty [OF at pop [unfolded None]]])
        (auto simp: pc shutdown_budget_def due_orders_def join_rank_def id_budget_def)
  next
    case (Some msg)
    have q: "rb_inv FEED_QUEUE_SIZE (feedQueue (matchingEngine x))"
      using engine_okD(2) [OF state_okD(1) [OF inv]] by (simp add: well_framed_def)
    have "feed_pending (matchingEngine x) \<noteq> []"
      using feed.pop_contents(3) [OF q] pop Some by (auto simp: feed_pending_def split: list.splits)
    then have "length (feed_pending ((matchingEngine x)\<lparr>feedQueue := q\<rparr>)) < length (feed_pending (matchingEngine x))"
      using tl(1) by (cases "feed_pending (matchingEngine x)") auto
    then show ?thesis
      using b at by (intro nearerI [OF feed_message [OF at pop [unfolded Some]]])
        (auto simp: pc shutdown_budget_def due_orders_def join_rank_def id_budget_def)
  qed
  show ?thesis
  proof (cases "feed_pc x")
    case FeedOff
    show ?thesis
      using b by (intro nearerI [OF main_feed_joined [OF pc FeedOff]])
        (simp_all add: pc shutdown_budget_def due_orders_def)
  next
    case FeedCheck
    show ?thesis
      using b threads_okD(5) [OF inv] by (intro nearerI [OF feed_look [OF FeedCheck]])
        (simp_all add: pc shutdown_budget_def due_orders_def join_rank_def FeedCheck)
  qed (use drain in simp_all)
qed

text \<open>Once the shutdown is requested, some thread's step brings its end nearer.\<close>

lemma nearer_step:
  assumes "exchange_inv x" and "rounding_ok fl" and "shutdownRequested x" and "shutdown_budget x"
    and "main_pc x \<noteq> Stopped"
  shows "\<exists>t y. exchange_step fl t x y \<and> nearer y x"
  using assms near_waiting [of x] near_dummy [of x] near_server [of x] near_sessions [of x]
    near_engine [of x] near_feed [of x]
  by (cases "main_pc x") simp_all

lemma shutdown_stays:
  assumes "exchange_step fl t x y" and "shutdownRequested x"
  shows "shutdownRequested y"
  using assms(1) by (cases rule: exchange_step_cases) (use assms(2) in simp_all)

lemma requested_shutdown_ends:
  assumes fl: "rounding_ok fl"
  shows "exchange_inv x \<Longrightarrow> shutdownRequested x \<Longrightarrow> shutdown_budget x \<Longrightarrow>
    \<exists>y. exchange_run fl x y \<and> main_pc y = Stopped"
proof (induction x rule: wf_induct [OF wf_measures, of "[\<lambda>x. 7 - phase (main_pc x), join_rank, \<lambda>x. length (engine_todo x)]"])
  case (1 x)
  show ?case
  proof (cases "main_pc x = Stopped")
    case True
    then show ?thesis using run_here by blast
  next
    case False
    obtain t y where step: "exchange_step fl t x y" and near: "nearer y x"
      using nearer_step [OF "1.prems"(1) fl "1.prems"(2,3) False] by blast
    have last: "lasting x" by (rule budget_lasting [OF "1.prems"(3)])
    have "exchange_inv y" using step_inv [OF step "1.prems"(1) fl] last by (simp add: lasting_def)
    with "1.IH" near shutdown_stays [OF step "1.prems"(2)] obtain z where
      "exchange_run fl y z" "main_pc z = Stopped" unfolding nearer_def by blast
    with run_on [OF last step] show ?thesis by blast
  qed
qed

end
