(* ===== verification/Exchange_Properties.thy ===== *)
theory Exchange_Properties
  imports Exchange_System
begin

text \<open>
  The properties of the running exchange, over every interleaving of its threads: what every
  reachable state satisfies, that no thread can be stuck, and how it stops.
\<close>

section \<open>A concrete execution\<close>

text \<open>
  \<^verbatim>\<open>main\<close> without arguments; a client with the identity \<open>[65]\<close> cancels an order that does not
  exist, and the server delivers the answer.
\<close>

definition example_env :: Environment where
  "example_env =
     \<lparr>env_clock = (\<lambda>_. 0), env_dummy_clock = (\<lambda>_. 0), env_reals = (\<lambda>n. if even n then 1 / 4 else 3 / 4),
      env_ints = (\<lambda>n a b. a), env_inet_pton = (\<lambda>_. True), env_network = (\<lambda>_ d. int (length d))\<rparr>"

definition example_config :: ExchangeConfiguration where
  "example_config = default_configuration\<lparr>cfg_dummyConfig := main_dummy default_DummyConfig\<rparr>"

definition example_exchange :: Exchange where
  "example_exchange = snd (the (exchange_start 3 True True (new_exchange example_env example_config)))"

lemma example_rounding: "rounding_ok (\<lambda>x. x)"
  by (simp add: rounding_ok_def mono_def)

lemma example_main: "main_config [] = Run example_config" "environment_ok example_env"
  by (simp add: main_config_def example_config_def default_configuration_def)
    (simp add: environment_ok_def example_env_def)

lemma example_started:
  "exchange_start 3 True True (new_exchange example_env example_config) = Some (True, example_exchange)"
  using exchange_start_up [OF new_exchange_idle, of 3 True True] by (simp add: example_exchange_def)

lemma example_exchange_reachable: "exchange_reachable fl example_exchange"
  by (rule started [OF example_main example_started])

lemma example_exchange_fields:
  "matchingEngine example_exchange = (new_engine (mpsc_new default_InboundMessage)
     (spsc_new default_OutboundMessage) (spsc_new default_MarketDataMessage) (to_bytes ''SYM1'') (\<lambda>_. 0))
       \<lparr>running := True\<rparr>"
  "sessionManager example_exchange = setDisconnectCallback new_SessionManager"
  "zmqServer example_exchange = new_ZmqServer\<lparr>zs_running := True\<rparr>"
  "main_pc example_exchange = Waiting" "server_pc example_exchange = ServerCheck"
  "engine_pc example_exchange = EngineCheck" "engine_todo example_exchange = []" "dummy_pc example_exchange = DummyOff"
  "feed_pc example_exchange = FeedCheck"
  using exchange_start_up [OF new_exchange_idle, of 3 True True example_env example_config]
  by (simp_all add: example_exchange_def new_exchange_def example_config_def
      default_configuration_def example_env_def)

lemma example_exchange_lasting: "ids_left (matchingEngine example_exchange)"
  "sessions_left (sessionManager example_exchange)" "shutdown_budget example_exchange"
  by (simp_all add: example_exchange_fields ids_left_def new_engine_def sessions_left_def
      setDisconnectCallback_def new_SessionManager_def shutdown_budget_def due_orders_def id_budget_def
      pending_def rb_count_def mpsc_new_def)

section \<open>Properties\<close>

text \<open>
  Property C11. However the threads are scheduled and whatever the clients send: the books, order
  tracking and queues of the engine stay consistent, the sessions are one-to-one with the
  identities, the server's tables agree with them while it runs, and everything that was ever
  handed to the network is a whole message which the receiving program decodes to the fields that
  the engine filled in. What the sockets supply and what else the random source yields is arbitrary.
\<close>

theorem exchange_always_consistent:
  assumes "exchange_reachable fl x" and "rounding_ok fl"
  shows "engine_inv (matchingEngine x) \<and> sm_inv (sessionManager x) \<and>
    (server_pc x = ServerOff \<or> server_inv (zmqServer x) (sessionManager x)) \<and>
    (\<forall>frames\<in>set (zs_wire (zmqServer x)). \<exists>identity body. frames = [identity, [], put_response body] \<and>
       printResponse (put_response body) = Some (response_line body)) \<and>
    (\<forall>d\<in>set (datagrams (fh_multicast (feedHandler x))). \<exists>m. d = put_market_data m \<and>
       receive_round rest (Some d) = Some (market_line m))"
proof -
  note inv = reachable_inv [OF assms]
  note s = state_okD [OF inv]
  have "server_pc x = ServerOff \<or> server_inv (zmqServer x) (sessionManager x)"
    using inv s(3) by (auto simp: exchange_inv_def threads_ok_def tables_at_def)
  moreover have sent: "sent_ok x" using inv by (simp add: exchange_inv_def)
  moreover have "\<exists>identity body. frames = [identity, [], put_response body] \<and>
      printResponse (put_response body) = Some (response_line body)"
    if "frames \<in> set (zs_wire (zmqServer x))" for frames
    using sent that printResponse_put by (fastforce simp: sent_ok_def response_frames_def)
  moreover have "\<exists>m. d = put_market_data m \<and> receive_round rest (Some d) = Some (market_line m)"
    if "d \<in> set (datagrams (fh_multicast (feedHandler x)))" for d
    using sent that receive_round_put by (fastforce simp: sent_ok_def market_datagram_def)
  ultimately show ?thesis
    using engine_okD(1) [OF s(1)] s(2) by (simp add: sessions_plain_def)
qed

definition example_body :: InboundBody where
  "example_body = CancelOrderBody (new_CancelOrderRequest 0 5 9)"

definition example_message :: InboundMessage where
  "example_message = \<lparr>im_sessionId = 1, im_body = example_body\<rparr>"

lemma example_incoming:
  "\<exists>zs sm. processIncoming (Some [65]) (Some []) (Some (put_request example_body))
      (new_ZmqServer\<lparr>zs_running := True\<rparr>) (setDisconnectCallback new_SessionManager) (mpsc_new default_InboundMessage) =
    Some (zs, sm, snd (the (mpsc_push INBOUND_QUEUE_SIZE example_message (mpsc_new default_InboundMessage)))) \<and>
    zs_sessionToIdentity zs 1 = Some [65] \<and> zs_wire zs = [] \<and> sessions_left sm"
proof -
  obtain zs sm where conn: "connectClient [65] (new_ZmqServer\<lparr>zs_running := True\<rparr>) (setDisconnectCallback new_SessionManager) = (zs, sm)"
    by (rule prod.exhaust)
  then have zs: "zs_identityToSession zs [65] = Some 1" "zs_sessionToIdentity zs 1 = Some [65]" "zs_wire zs = []"
    "sessions_left sm"
    by (auto simp: connectClient_def createSession_def new_ZmqServer_def new_SessionManager_def
        setDisconnectCallback_def Let_def sessions_left_def)
  let ?q = "mpsc_new default_InboundMessage"
  obtain ok q where push: "mpsc_push INBOUND_QUEUE_SIZE example_message ?q = Some (ok, q)"
    by (simp add: mpsc_push_spsc mpsc_new_def) (metis prod.exhaust)
  moreover have "parseAndRouteMessage [65] (put_request example_body) zs ?q = routeToInbound 1 example_body ?q"
    by (rule parse_put_request [OF zs(1)])
      (simp_all add: example_body_def new_CancelOrderRequest_def new_MessageHeader_def sizeof_defs)
  ultimately show ?thesis
    using conn zs by (simp add: processIncoming_def routeToInbound_def example_message_def split_beta)
qed

text \<open>The engine's answer to the cancel: its handler has one push to do.\<close>

definition example_action :: EngineAction where
  "example_action = RejectCancel 1 5 9 ORDER_NOT_FOUND"

lemma example_begin:
  assumes "e = (matchingEngine example_exchange)\<lparr>inboundQueue := q\<rparr>"
  shows "begin_message example_message e = (e, [example_action])"
  by (simp add: assms begin_message_def begin_cancel_def example_exchange_fields new_engine_def example_action_def
      example_message_def example_body_def new_CancelOrderRequest_def)

lemma example_answer:
  assumes "e = (matchingEngine example_exchange)\<lparr>inboundQueue := q\<rparr>"
  shows "\<exists>m. out_pending (do_action example_action e) = [m] \<and> om_sessionId m = 1 \<and>
    response_line (om_body m) = CancelRejectLine 5 9 (RejectReason_code ORDER_NOT_FOUND)"
  unfolding assms out_pending_def example_action_def
  by (simp add: example_exchange_fields new_engine_def
      example_message_def example_body_def new_CancelOrderRequest_def sender_defs push_outbound_def
      spsc_push_def OUTBOUND_QUEUE_SIZE_def spsc_new_def rb_list_def rb_count_def rb_index_def)

lemma example_inv: "engine_inv (matchingEngine example_exchange)"
  using engine_okD(1) [OF state_okD(1) [OF reachable_inv [OF example_exchange_reachable example_rounding]]] .

lemma example_pop:
  "\<exists>q. pop_inbound (push_inbound example_message (matchingEngine example_exchange)) =
     (Some example_message, (matchingEngine example_exchange)\<lparr>inboundQueue := q\<rparr>)"
proof -
  let ?e0 = "matchingEngine example_exchange"
  have "pending ?e0 = []"
    by (simp add: pending_def example_exchange_fields new_engine_def rb_list_def rb_count_def mpsc_new_def)
  then have "pending (push_inbound example_message ?e0) = [example_message]"
    using push_inbound_pending [OF example_inv, of "[example_message]"] by simp
  then have "fst (pop_inbound (push_inbound example_message ?e0)) = Some example_message"
    using pop_inbound_pending(1) [OF inbound_keeps(1) [OF example_inv], of example_message] by simp
  then show ?thesis by (auto simp: pop_inbound_def push_inbound_def split_beta)
qed

text \<open>
  An execution: the client \<open>[65]\<close> connects with a cancel of an unknown order, the engine answers,
  and the server sends the answer.
\<close>

lemma example_run:
  obtains xa xb xc xd xe xf and m :: OutboundMessage where
    "lasting example_exchange" "exchange_step fl ServerThread example_exchange xa"
    "lasting xa" "exchange_step fl ServerThread xa xb" "lasting xb" "exchange_step fl MatchingThread xb xc"
    "lasting xc" "exchange_step fl MatchingThread xc xd" "lasting xd" "exchange_step fl MatchingThread xd xe"
    "lasting xe" "exchange_step fl ServerThread xe xf"
    "zs_wire (zmqServer xf) = [[[65], [], put_response (om_body m)]]" "framed_response (om_body m)"
    "response_line (om_body m) = CancelRejectLine 5 9 (RejectReason_code ORDER_NOT_FOUND)"
    "zs_sessionToIdentity (zmqServer xf) 1 = Some [65]" "engine_todo xf = []"
proof -
  let ?e0 = "matchingEngine example_exchange"
  note left = example_exchange_lasting
  obtain zs sm q where inc: "processIncoming (Some [65]) (Some []) (Some (put_request example_body))
      (zmqServer example_exchange) (sessionManager example_exchange) (inboundQueue ?e0) = Some (zs, sm, q)"
    and q: "?e0\<lparr>inboundQueue := q\<rparr> = push_inbound example_message ?e0"
    and zs: "zs_sessionToIdentity zs 1 = Some [65]" "zs_wire zs = []" "sessions_left sm"
    using example_incoming by (auto simp: example_exchange_fields new_engine_def push_inbound_def)
  define xa where "xa = example_exchange\<lparr>server_pc := ServerIncoming\<rparr>"
  define xb where "xb = xa\<lparr>zmqServer := zs, sessionManager := sm,
    matchingEngine := push_inbound example_message ?e0, server_pc := ServerOutbound\<rparr>"
  define xc where "xc = xb\<lparr>engine_pc := EngineDrain\<rparr>"
  have a: "exchange_step fl ServerThread example_exchange xa"
    using server_look [of example_exchange fl] by (simp add: xa_def example_exchange_fields)
  have b: "exchange_step fl ServerThread xa xb"
    using server_receive [of xa "Some [65]" "Some []" "Some (put_request example_body)" zs sm q fl] inc q
    by (simp add: xa_def xb_def)
  have c: "exchange_step fl MatchingThread xb xc"
    using engine_look [of xb fl] by (simp add: xa_def xb_def xc_def example_exchange_fields new_engine_def push_inbound_def)
  obtain e iq where e: "pop_inbound (push_inbound example_message ?e0) = (Some example_message, e)"
    "e = ?e0\<lparr>inboundQueue := iq\<rparr>" using example_pop by blast
  let ?f = "do_action example_action e"
  define xd where "xd = xc\<lparr>matchingEngine := e, engine_todo := [example_action]\<rparr>"
  define xe where "xe = xd\<lparr>matchingEngine := ?f, engine_todo := []\<rparr>"
  have d: "exchange_step fl MatchingThread xc xd"
    using engine_message [of xc example_message e e "[example_action]" fl] e(1) example_begin [OF e(2)]
    by (simp add: xa_def xb_def xc_def xd_def example_exchange_fields(7))
  have push: "exchange_step fl MatchingThread xd xe"
    using engine_push [of xd example_action "[]" fl] by (simp add: xd_def xe_def)
  from example_answer [OF e(2)] obtain m where m: "out_pending ?f = [m]" "om_sessionId m = 1"
    "response_line (om_body m) = CancelRejectLine 5 9 (RejectReason_code ORDER_NOT_FOUND)" by blast
  have "engine_ok ?e0"
    using state_okD(1) [OF reachable_inv [OF example_exchange_reachable example_rounding]] .
  then have "engine_ok e" by (rule engine_ok_inbound(1) [OF engine_ok_inbound(2) e(1)])
  then have f: "engine_ok ?f" by (rule do_action_ok) (simp add: example_action_def)
  then have oq: "rb_inv OUTBOUND_QUEUE_SIZE (outboundQueue ?f)"
    using engine_okD(2) by (simp add: well_framed_def)
  from outbound.pop_some [OF oq m(1) [unfolded out_pending_def]] obtain oq' where
    pop: "getOutboundMessage (outboundQueue ?f) = (Some m, oq')" by (auto simp: getOutboundMessage_def)
  define xf where "xf = xe\<lparr>zmqServer := sendResponse m 3 zs, matchingEngine := ?f\<lparr>outboundQueue := oq'\<rparr>\<rparr>"
  have step: "exchange_step fl ServerThread xe xf"
    using server_send [of xe m oq' fl 3] pop by (simp add: xb_def xc_def xd_def xe_def xf_def)
  have "nextOrderId (push_inbound example_message ?e0) = 1" "nextOrderId e = 1"
    by (simp_all add: push_inbound_def e(2) example_exchange_fields new_engine_def)
  then have last: "lasting example_exchange" "lasting xa" "lasting xb" "lasting xc" "lasting xd" "lasting xe"
    using left zs(3) by (simp_all add: lasting_def xa_def xb_def xc_def xd_def xe_def ids_left_def)
  show thesis
    by (rule that [OF last(1) a last(2) b last(3) c last(4) d last(5) push last(6) step])
      (use zs m popped_response_framed [OF f pop] in
        \<open>simp_all add: xb_def xc_def xd_def xe_def xf_def sendResponse_def sendToClient_def Let_def\<close>)
qed

text \<open>The execution, as the properties use it.\<close>

lemma example_path:
  obtains xf and m :: OutboundMessage where "exchange_run fl example_exchange xf"
    "zs_wire (zmqServer xf) = [[[65], [], put_response (om_body m)]]" "framed_response (om_body m)"
    "response_line (om_body m) = CancelRejectLine 5 9 (RejectReason_code ORDER_NOT_FOUND)"
proof (rule example_run [of fl])
  fix xa xb xc xd xe xf and m :: OutboundMessage
  assume "lasting example_exchange" "exchange_step fl ServerThread example_exchange xa"
    "lasting xa" "exchange_step fl ServerThread xa xb" "lasting xb" "exchange_step fl MatchingThread xb xc"
    "lasting xc" "exchange_step fl MatchingThread xc xd" "lasting xd" "exchange_step fl MatchingThread xd xe"
    "lasting xe" "exchange_step fl ServerThread xe xf"
    and wire: "zs_wire (zmqServer xf) = [[[65], [], put_response (om_body m)]]" "framed_response (om_body m)"
    "response_line (om_body m) = CancelRejectLine 5 9 (RejectReason_code ORDER_NOT_FOUND)"
  then have "exchange_run fl example_exchange xf" by (blast intro: run_on run_here)
  from this wire show thesis by (rule that)
qed

theorem exchange_always_consistent_witness:
  "\<exists>x bytes. exchange_reachable (\<lambda>r. r) x \<and> zs_wire (zmqServer x) = [[[65], [], bytes]] \<and>
     printResponse bytes = Some (CancelRejectLine 5 9 (RejectReason_code ORDER_NOT_FOUND)) \<and>
     engine_inv (matchingEngine x)"
proof -
  obtain x and m :: OutboundMessage where run: "exchange_run (\<lambda>r. r) example_exchange x"
    and x: "zs_wire (zmqServer x) = [[[65], [], put_response (om_body m)]]" "framed_response (om_body m)"
      "response_line (om_body m) = CancelRejectLine 5 9 (RejectReason_code ORDER_NOT_FOUND)"
    by (rule example_path)
  have reach: "exchange_reachable (\<lambda>r. r) x" by (rule run_reachable [OF run example_exchange_reachable])
  with exchange_always_consistent [OF reach example_rounding] printResponse_put [OF x(2)] x(1,3)
  show ?thesis by auto
qed

definition live_threads :: "Exchange \<Rightarrow> Thread set" where
  "live_threads x =
     (if server_pc x = ServerOff then {} else {ServerThread}) \<union>
     (if engine_pc x = EngineOff then {} else {MatchingThread}) \<union>
     (if feed_pc x = FeedOff then {} else {FeedThread}) \<union>
     (if dummy_pc x = DummyOff then {} else {DummyThread})"

lemma processIncoming_returns:
  assumes "\<not> producerLock q"
  shows "processIncoming f1 f2 f3 zs sm q \<noteq> None"
proof -
  have "routeToInbound sid body q \<noteq> None" for sid body
    using assms by (simp add: routeToInbound_def mpsc_push_spsc)
  then have "parseAndRouteMessage identity msg zs q \<noteq> None" for identity msg zs
    using parse_routes_or_drops [of identity msg zs q] by auto
  then show ?thesis
    by (simp add: processIncoming_def split_beta del: not_None_eq split: option.split)
qed

lemma live_engine_steps: "engine_pc x \<noteq> EngineOff \<Longrightarrow> \<exists>y. exchange_step fl MatchingThread x y"
proof -
  assume on: "engine_pc x \<noteq> EngineOff"
  obtain m e where pop: "pop_inbound (matchingEngine x) = (m, e)" by (rule prod.exhaust)
  show ?thesis
  proof (cases "engine_todo x")
    case Nil
    obtain e' actions where "begin_message (the m) e = (e', actions)" by (rule prod.exhaust)
    with on Nil show ?thesis
      using engine_look [of x] engine_message [of x] engine_empty [of x] pop
      by (cases "engine_pc x"; cases m) fastforce+
  next
    case (Cons a actions)
    then show ?thesis using engine_push by blast
  qed
qed

lemma live_feed_steps: "feed_pc x \<noteq> FeedOff \<Longrightarrow> \<exists>y. exchange_step fl FeedThread x y"
proof -
  assume on: "feed_pc x \<noteq> FeedOff"
  obtain m q where pop: "spsc_pop FEED_QUEUE_SIZE (feedQueue (matchingEngine x)) = (m, q)" by (rule prod.exhaust)
  from on show ?thesis
    using feed_look [of x] feed_message [of x] feed_empty [of x] pop
    by (cases "feed_pc x"; cases m) blast+
qed

lemma live_server_steps: "server_pc x \<noteq> ServerOff \<Longrightarrow> \<exists>y. exchange_step fl ServerThread x y"
proof -
  assume on: "server_pc x \<noteq> ServerOff"
  obtain m q where pop: "getOutboundMessage (outboundQueue (matchingEngine x)) = (m, q)" by (rule prod.exhaust)
  from on show ?thesis
    using server_look [of x] server_error [of x] server_send [of x] server_sent [of x] pop
    by (cases "server_pc x"; cases m) blast+
qed

text \<open>
  Property C30. No thread of a running exchange can get stuck or run into undefined behaviour: in
  every reachable state each live thread has a next step, handling a received message returns
  whatever the bytes are (the lock of the inbound queue is free between two steps), and the
  generator's next order can be produced.
\<close>

theorem no_thread_gets_stuck:
  assumes "exchange_reachable fl x" and "rounding_ok fl"
  shows "(\<forall>t\<in>live_threads x. \<exists>y. exchange_step fl t x y) \<and>
    processIncoming f1 f2 f3 (zmqServer x) (sessionManager x) (inboundQueue (matchingEngine x)) \<noteq> None \<and>
    pred_option (\<lambda>g. generateOrder fl g (inboundQueue (matchingEngine x)) \<noteq> None) (dummyGenerator x)"
proof -
  note inv = reachable_inv [OF assms]
  note q = threads_okD(2) [OF inv]
  have gen: "generateOrder fl g (inboundQueue (matchingEngine x)) \<noteq> None" if "dummyGenerator x = Some g" for g
    using generateOrder_effect [OF assms(2) _ q, of g] state_okD(4) [OF inv] that by auto
  have "\<exists>y. exchange_step fl DummyThread x y" if on: "dummy_pc x \<noteq> DummyOff"
  proof -
    obtain g where g: "dummyGenerator x = Some g" using threads_okD(1) [OF inv on] by blast
    from gen [OF this] obtain g' q' where "generateOrder fl g (inboundQueue (matchingEngine x)) = Some (g', q')" by auto
    with g on show ?thesis
      using dummy_enter [of x g] dummy_look [of x g] dummy_order [of x _ g]
      by (cases "dummy_pc x") blast+
  qed
  moreover have "\<not> producerLock (inboundQueue (matchingEngine x))" using q by (simp add: mpsc_inv_def)
  ultimately show ?thesis
    using gen live_engine_steps [of x fl] live_feed_steps [of x fl] live_server_steps [of x fl]
      processIncoming_returns
    by (cases "dummyGenerator x") (auto simp: live_threads_def)
qed

theorem no_thread_gets_stuck_witness:
  "\<exists>y. exchange_step (\<lambda>r. r) MatchingThread example_exchange y"
  using no_thread_gets_stuck [OF example_exchange_reachable example_rounding]
  by (simp add: live_threads_def example_exchange_fields)

text \<open>
  Property C29. A graceful stop: once \<open>stop\<close> has run to its end, no thread is left and no flag is
  set, the multicast socket is closed, all sessions are ended, and no message is left unprocessed:
  no handler is cut off, and the inbound queue and the feed queue are empty.
\<close>

theorem stopped_exchange_is_drained:
  assumes "exchange_reachable fl x" and "rounding_ok fl" and "main_pc x = Stopped"
  shows "live_threads x = {} \<and> engine_todo x = [] \<and> pending (matchingEngine x) = [] \<and>
    rb_list FEED_QUEUE_SIZE (feedQueue (matchingEngine x)) = [] \<and>
    stat_sessions (printStatistics x) = 0 \<and> zs_sessionToIdentity (zmqServer x) = Map.empty \<and>
    socketFd (fh_multicast (feedHandler x)) < 0 \<and>
    \<not> ex_running x \<and> \<not> zs_running (zmqServer x) \<and> \<not> running (matchingEngine x) \<and>
    \<not> fh_running (feedHandler x) \<and> pred_option (\<lambda>g. \<not> dg_running g) (dummyGenerator x)"
proof -
  note inv = reachable_inv [OF assms(1,2)]
  have off: "server_pc x = ServerOff" "engine_pc x = EngineOff" "feed_pc x = FeedOff" "dummy_pc x = DummyOff"
    using inv assms(3) by (simp_all add: exchange_inv_def threads_ok_def)
  then have idle: "engine_todo x = []" using inv by (auto simp: exchange_inv_def busy_ok_def)
  have "identityToSession (sessionManager x) = Map.empty" "zs_sessionToIdentity (zmqServer x) = Map.empty"
    using state_okD(3) [OF inv] assms(3) by (simp_all add: tables_at_def)
  moreover have "sessions (sessionManager x) sid = None" for sid
    using state_okD(2) [OF inv] calculation(1) sm_invD(1) [of "sessionManager x" _ sid]
    by (cases "sessions (sessionManager x) sid") (auto simp: sessions_plain_def)
  ultimately have "stat_sessions (printStatistics x) = 0"
    by (simp add: printStatistics_def getActiveSessionCount_def dom_def)
  with off idle inv \<open>zs_sessionToIdentity (zmqServer x) = Map.empty\<close> assms(3) show ?thesis
    by (simp add: live_threads_def exchange_inv_def drained_ok_def feed_pending_def flags_ok_def)
qed

text \<open>
  Property C28. A shutdown can always complete: from every reachable state, whatever the threads are
  in the middle of and whatever waits in the queues, there is a schedule that begins with the
  signal and ends with the main thread at the end of \<open>stop\<close>, as long as there are order ids for
  the orders that wait.
\<close>

theorem shutdown_can_always_complete:
  assumes "exchange_reachable fl x" and "rounding_ok fl" and "shutdown_budget x"
  shows "\<exists>y z. exchange_step fl Signal x y \<and> exchange_run fl y z \<and> exchange_reachable fl z \<and>
    main_pc z = Stopped"
proof -
  let ?y = "x\<lparr>shutdownRequested := True\<rparr>"
  have step: "exchange_step fl Signal x ?y" by (rule signal)
  have b: "shutdown_budget ?y" using assms(3) by (simp add: shutdown_budget_def due_orders_def)
  have y: "exchange_reachable fl ?y"
    using stepped [OF assms(1) _ _ step] budget_lasting [OF assms(3)] by (simp add: lasting_def)
  from requested_shutdown_ends [OF assms(2) reachable_inv [OF y assms(2)] _ b] obtain z where
    "exchange_run fl ?y z" "main_pc z = Stopped" by auto
  with step run_reachable [OF this(1) y] show ?thesis by blast
qed

theorem shutdown_can_always_complete_witness:
  "\<exists>z. exchange_reachable (\<lambda>r. r) z \<and> main_pc z = Stopped"
  using shutdown_can_always_complete [OF example_exchange_reachable example_rounding example_exchange_lasting(3)]
  by blast

lemma example_stop:
  "\<exists>z. exchange_reachable (\<lambda>r. r) z \<and> main_pc z = Stopped"
proof -
  let ?y = "example_exchange\<lparr>shutdownRequested := True\<rparr>"
  have b: "shutdown_budget ?y"
    using example_exchange_lasting(3) by (simp add: shutdown_budget_def due_orders_def)
  have y: "exchange_reachable (\<lambda>r. r) ?y"
    using stepped [OF example_exchange_reachable _ _ signal] example_exchange_lasting by simp
  from requested_shutdown_ends [OF example_rounding reachable_inv [OF y example_rounding] _ b]
  show ?thesis using run_reachable [OF _ y] by auto
qed

theorem stopped_exchange_is_drained_witness:
  "\<exists>z. exchange_reachable (\<lambda>r. r) z \<and> live_threads z = {} \<and> pending (matchingEngine z) = []"
proof -
  obtain z where z: "exchange_reachable (\<lambda>r. r) z" "main_pc z = Stopped" using example_stop by blast
  from stopped_exchange_is_drained [OF z(1) example_rounding z(2)] z(1) show ?thesis by blast
qed

end
