(* ===== verification/Engine_Sessions.thy ===== *)
theory Engine_Sessions
  imports Exchange_System
begin

text \<open>
  Whom the engine answers: every response that a handler queues goes to the session of the request
  or to a session that owns an order, and a handler only ever appends to the outgoing queues. The
  predicate \<open>answers\<close> is kept by the senders and by every action of a handler.
\<close>

definition answers :: "SessionId set \<Rightarrow> OutboundMessage list \<Rightarrow> MarketDataMessage list \<Rightarrow> Engine \<Rightarrow> bool" where
  "answers K outs feeds e \<longleftrightarrow>
     rb_inv OUTBOUND_QUEUE_SIZE (outboundQueue e) \<and> rb_inv FEED_QUEUE_SIZE (feedQueue e) \<and>
     (\<exists>rs. out_pending e = outs @ rs \<and> om_sessionId ` set rs \<subseteq> K) \<and>
     (\<exists>ts. feed_pending e = feeds @ ts) \<and> ran (orderToSession e) \<subseteq> K"

text \<open>A push appends its message or, on a full queue, nothing.\<close>

context bounded_queue
begin

lemma push_appends:
  assumes "inv q"
  shows "inv (snd (push x q)) \<and>
    (contents (snd (push x q)) = contents q \<or> contents (snd (push x q)) = contents q @ [x])"
  using push_contents [OF assms, of x] length_bound [OF assms] by (cases "length (contents q) < bound") auto

end

lemma answers_push_outbound:
  assumes "answers K outs feeds e" and "sid \<in> K"
  shows "answers K outs feeds (push_outbound sid body e)"
proof -
  have "rb_inv OUTBOUND_QUEUE_SIZE (outboundQueue e)" using assms(1) by (simp add: answers_def)
  from outbound.push_appends [OF this, of "\<lparr>om_sessionId = sid, om_body = body\<rparr>"]
  show ?thesis
    using assms by (fastforce simp: answers_def push_outbound_def out_pending_def feed_pending_def)
qed

lemma answers_push_feed:
  assumes "answers K outs feeds e"
  shows "answers K outs feeds (push_feed m e)"
proof -
  have "rb_inv FEED_QUEUE_SIZE (feedQueue e)" using assms by (simp add: answers_def)
  from feed.push_appends [OF this, of m]
  show ?thesis
    using assms by (fastforce simp: answers_def push_feed_def out_pending_def feed_pending_def)
qed

lemma answers_cong:
  "outboundQueue e' = outboundQueue e \<Longrightarrow> feedQueue e' = feedQueue e \<Longrightarrow>
   ran (orderToSession e') \<subseteq> insert sid (ran (orderToSession e)) \<Longrightarrow> sid \<in> K \<Longrightarrow>
   answers K outs feeds e \<Longrightarrow> answers K outs feeds e'"
  by (auto simp: answers_def out_pending_def feed_pending_def)

lemma answers_fields [simp]:
  "answers K outs feeds (e\<lparr>clock := f\<rparr>) = answers K outs feeds e"
  "answers K outs feeds (e\<lparr>clock := f, nextTradeId := tid\<rparr>) = answers K outs feeds e"
  "answers K outs feeds (e\<lparr>orderbook := b\<rparr>) = answers K outs feeds e"
  "answers K outs feeds (e\<lparr>orderbook := b, next_address := x\<rparr>) = answers K outs feeds e"
  "answers K outs feeds (e\<lparr>nextOrderId := i\<rparr>) = answers K outs feeds e"
  "answers K outs feeds (e\<lparr>ordersProcessed := n\<rparr>) = answers K outs feeds e"
  "answers K outs feeds (e\<lparr>tradesExecuted := n, lastTradePrice := p, lastTradeQty := q\<rparr>) = answers K outs feeds e"
  by (simp_all add: answers_def out_pending_def feed_pending_def)

lemma answers_senders [intro]:
  assumes "answers K outs feeds e" and "sid \<in> K"
  shows "answers K outs feeds (sendOrderAck sid cid oid status e)"
    and "answers K outs feeds (sendOrderReject sid cid reason e)"
    and "answers K outs feeds (sendExecutionReport sid oid p q leaves side e)"
    and "answers K outs feeds (sendCancelAck sid cid oid e)"
    and "answers K outs feeds (sendCancelReject sid cid oid reason e)"
    and "answers K outs feeds (sendModifyAck sid cid oid p q e)"
    and "answers K outs feeds (sendModifyReject sid cid oid reason e)"
  unfolding sender_defs prod.case using assms by (auto intro!: answers_push_outbound)

lemma answers_publishers [intro]:
  assumes "answers K outs feeds e"
  shows "answers K outs feeds (publishTradeUpdate trade side e)" and "answers K outs feeds (publishTickUpdate e)"
  unfolding sender_defs prod.case using assms by (auto intro!: answers_push_feed split: prod.splits)

lemma answers_track:
  assumes "answers K outs feeds e" and "sid \<in> K"
  shows "answers K outs feeds (track_order sid oid cid e)"
  by (rule answers_cong [OF _ _ _ assms(2,1)]) (auto simp: track_order_def ran_def)

lemma answers_untrack:
  assumes "answers K outs feeds e"
  shows "answers K outs feeds (untrack_order sid oid e)"
  using assms by (auto simp: untrack_order_def answers_def out_pending_def feed_pending_def ran_def)

lemma answers_owner: "answers K outs feeds e \<Longrightarrow> orderToSession e oid = Some sid \<Longrightarrow> sid \<in> K"
  by (auto simp: answers_def ran_def)

text \<open>The session that an action names; a passive report goes to the owner of the order.\<close>

fun action_session :: "EngineAction \<Rightarrow> SessionId set" where
  "action_session (PublishTrade trade side) = {}"
| "action_session (ReportAggressor sid orderId side x trade) = {sid}"
| "action_session (ReportPassive side trade) = {}"
| "action_session (AckOrder sid clientOrderId orderId x) = {sid}"
| "action_session (RejectOrder sid clientOrderId reason) = {sid}"
| "action_session (AckCancel sid clientOrderId orderId) = {sid}"
| "action_session (RejectCancel sid clientOrderId orderId reason) = {sid}"
| "action_session (AckModify sid clientOrderId orderId newPrice newQty) = {sid}"
| "action_session (RejectModify sid clientOrderId orderId reason) = {sid}"
| "action_session PublishTick = {}"

lemma answers_action:
  assumes "answers K outs feeds e" and "action_session a \<subseteq> K"
  shows "answers K outs feeds (do_action a e)"
  using assms answers_owner [OF assms(1)]
  by (cases a)
    (auto simp: Let_def intro!: answers_senders answers_publishers answers_untrack split: option.split)

text \<open>An action appends to the queues, and writes only to sessions that are known.\<close>

lemma action_appends:
  assumes "engine_ok e" and "ran (orderToSession e) \<subseteq> K" and "action_session a \<subseteq> K"
  shows "\<exists>rs. out_pending (do_action a e) = out_pending e @ rs \<and> om_sessionId ` set rs \<subseteq> K"
    and "\<exists>ts. feed_pending (do_action a e) = feed_pending e @ ts"
    and "ran (orderToSession (do_action a e)) \<subseteq> K"
proof -
  have "answers K (out_pending e) (feed_pending e) e"
    using engine_okD(2) [OF assms(1)] assms(2) by (simp add: answers_def well_framed_def)
  from answers_action [OF this assms(3)]
  show "\<exists>rs. out_pending (do_action a e) = out_pending e @ rs \<and> om_sessionId ` set rs \<subseteq> K"
    and "\<exists>ts. feed_pending (do_action a e) = feed_pending e @ ts"
    and "ran (orderToSession (do_action a e)) \<subseteq> K"
    by (simp_all add: answers_def)
qed

text \<open>Before its first push a handler says nothing, and it will answer only sessions that are known.\<close>

lemma ran_tracking:
  "s \<in> ran (m(i \<mapsto> sid)) \<Longrightarrow> s = sid \<or> s \<in> ran m"
  "s \<in> ran (orderToSession (untrack_order sid i e)) \<Longrightarrow> s \<in> ran (orderToSession e)"
  by (auto simp: untrack_order_def ran_def split: if_splits)

lemma begin_sessions:
  assumes "begin_message msg e = (e', as)" and "ran (orderToSession e) \<subseteq> K" and "im_sessionId msg \<in> K"
  shows "ran (orderToSession e') \<subseteq> K \<and> (\<forall>a\<in>set as. action_session a \<subseteq> K)"
  using assms
  by (auto simp: begin_message_def begin_new_order_eq begin_cancel_def begin_modify_def begin_accept_eq
      trade_actions_def Let_def dest!: ran_tracking
      split: InboundBody.splits option.splits if_splits)

end
