(* ===== verification/Exchange_Delivery.thy ===== *)
theory Exchange_Delivery
  imports Exchange_Properties Engine_Sessions
begin

text \<open>
  Messages over a whole execution. An execution carries a history: the requests that entered the
  engine's queue, the responses and the market data that the engine queued for each, what the
  server and the feed thread took, each with whether the socket took it whole, and whether the
  engine ever found a queue full. The history is read off the steps, from what appears at the end of
  a queue and disappears from its front, and from what appears on the network. The invariant
  \<open>delivery_inv\<close> ties it to the queues and to what went out.
\<close>

section \<open>Histories\<close>

record History =
  h_accepted :: "InboundMessage list"
  h_answers :: "(InboundMessage \<times> OutboundMessage list \<times> MarketDataMessage list) list"
  h_sent :: "(OutboundMessage \<times> bool) list"
  h_published :: "(MarketDataMessage \<times> bool) list"
  h_overflow :: bool

definition arrived :: "'a list \<Rightarrow> 'a list \<Rightarrow> 'a list" where
  "arrived before after = drop (length before) after"

definition departed :: "'a list \<Rightarrow> 'a list \<Rightarrow> 'a list" where
  "departed before after = take (length before - length after) before"

lemma moved [simp]:
  "arrived xs (xs @ ys) = ys" "departed (ys @ xs) xs = ys" "arrived xs xs = []" "departed xs xs = []"
  by (simp_all add: arrived_def departed_def)

text \<open>The request that was taken last is the one that is being answered.\<close>

fun add_to_last :: "'b list \<Rightarrow> 'c list \<Rightarrow> ('a \<times> 'b list \<times> 'c list) list \<Rightarrow> ('a \<times> 'b list \<times> 'c list) list" where
  "add_to_last rs ts [] = []"
| "add_to_last rs ts [(m, outs, feeds)] = [(m, outs @ rs, feeds @ ts)]"
| "add_to_last rs ts (a # b # replies) = a # add_to_last rs ts (b # replies)"

lemma add_to_last_snoc [simp]:
  "add_to_last rs ts (replies @ [(m, outs, feeds)]) = replies @ [(m, outs @ rs, feeds @ ts)]"
  by (induction rs ts replies rule: add_to_last.induct) auto

lemma add_nothing [simp]: "add_to_last [] [] replies = replies"
  by (induction "[] :: 'b list" "[] :: 'c list" replies rule: add_to_last.induct) auto

definition queue_full :: "Engine \<Rightarrow> bool" where
  "queue_full e \<longleftrightarrow> length (out_pending e) \<ge> outbound_room \<or> length (feed_pending e) \<ge> feed_room"

text \<open>The messages that a socket took whole, and the others.\<close>

definition gone :: "('a \<times> bool) list \<Rightarrow> 'a list" where
  "gone ms = map fst (filter snd ms)"

definition not_gone :: "('a \<times> bool) list \<Rightarrow> 'a list" where
  "not_gone ms = map fst (filter (\<lambda>m. \<not> snd m) ms)"

lemma gone_simps [simp]:
  "gone [] = []" "gone (ms @ ns) = gone ms @ gone ns" "gone [(m, ok)] = (if ok then [m] else [])"
  "not_gone [] = []" "not_gone (ms @ ns) = not_gone ms @ not_gone ns"
  "not_gone [(m, ok)] = (if ok then [] else [m])"
  by (simp_all add: gone_def not_gone_def)

lemma gone_subset: "set (gone ms) \<subseteq> fst ` set ms" "set (not_gone ms) \<subseteq> fst ` set ms"
  by (auto simp: gone_def not_gone_def)

definition observe :: "Thread \<Rightarrow> Exchange \<Rightarrow> Exchange \<Rightarrow> History \<Rightarrow> History" where
  "observe t x y h =
     (let e = matchingEngine x; e' = matchingEngine y in
      case t of
        ServerThread \<Rightarrow> h\<lparr>h_accepted := h_accepted h @ arrived (pending e) (pending e'),
          h_sent := h_sent h @ map (\<lambda>m. (m, zs_wire (zmqServer y) \<noteq> zs_wire (zmqServer x)))
            (departed (out_pending e) (out_pending e'))\<rparr>
      | DummyThread \<Rightarrow> h\<lparr>h_accepted := h_accepted h @ arrived (pending e) (pending e')\<rparr>
      | MatchingThread \<Rightarrow>
          (case departed (pending e) (pending e') of
             m # _ \<Rightarrow> h\<lparr>h_answers := h_answers h @ [(m, [], [])]\<rparr>
           | [] \<Rightarrow> h\<lparr>h_answers := add_to_last (arrived (out_pending e) (out_pending e'))
                 (arrived (feed_pending e) (feed_pending e')) (h_answers h),
               h_overflow := h_overflow h \<or> engine_todo x \<noteq> [] \<and> queue_full e\<rparr>)
      | FeedThread \<Rightarrow> h\<lparr>h_published := h_published h @
          map (\<lambda>m. (m, sent_whole (fh_multicast (feedHandler y)) \<noteq> sent_whole (fh_multicast (feedHandler x))))
            (departed (feed_pending e) (feed_pending e'))\<rparr>
      | _ \<Rightarrow> h)"

definition no_history :: History where
  "no_history = \<lparr>h_accepted = [], h_answers = [], h_sent = [], h_published = [], h_overflow = False\<rparr>"

inductive exchange_history :: "(real \<Rightarrow> real) \<Rightarrow> History \<Rightarrow> Exchange \<Rightarrow> bool" for fl where
  history_started: "main_config args = Run c \<Longrightarrow> environment_ok env \<Longrightarrow>
    exchange_start fd ttl_ok bound (new_exchange env c) = Some (True, x) \<Longrightarrow>
    exchange_history fl no_history x"
| history_stepped: "exchange_history fl h x \<Longrightarrow> lasting x \<Longrightarrow> exchange_step fl t x y \<Longrightarrow>
    exchange_history fl (observe t x y h) y"

text \<open>The executions are those of \<open>exchange_reachable\<close>.\<close>

lemma history_reachable: "exchange_history fl h x \<Longrightarrow> exchange_reachable fl x"
  by (induction rule: exchange_history.induct)
    (auto simp: lasting_def intro: exchange_reachable.started exchange_reachable.stepped)

lemma reachable_history: "exchange_reachable fl x \<Longrightarrow> \<exists>h. exchange_history fl h x"
proof (induction rule: exchange_reachable.induct)
  case (stepped x t y)
  then show ?case using history_stepped [of fl _ x t y] by (auto simp: lasting_def)
qed (blast intro: history_started)

definition queued_responses :: "History \<Rightarrow> OutboundMessage list" where
  "queued_responses h = concat (map (\<lambda>(m, outs, feeds). outs) (h_answers h))"

definition queued_ticks :: "History \<Rightarrow> MarketDataMessage list" where
  "queued_ticks h = concat (map (\<lambda>(m, outs, feeds). feeds) (h_answers h))"

lemma queued_simps [simp]:
  "queued_responses (h\<lparr>h_accepted := as\<rparr>) = queued_responses h" "queued_ticks (h\<lparr>h_accepted := as\<rparr>) = queued_ticks h"
  "queued_responses (h\<lparr>h_sent := ss\<rparr>) = queued_responses h" "queued_ticks (h\<lparr>h_sent := ss\<rparr>) = queued_ticks h"
  "queued_responses (h\<lparr>h_published := ps\<rparr>) = queued_responses h"
  "queued_ticks (h\<lparr>h_published := ps\<rparr>) = queued_ticks h"
  "queued_responses (h\<lparr>h_answers := h_answers h @ [(m, [], [])]\<rparr>) = queued_responses h"
  "queued_ticks (h\<lparr>h_answers := h_answers h @ [(m, [], [])]\<rparr>) = queued_ticks h"
  by (simp_all add: queued_responses_def queued_ticks_def)

lemma queued_more:
  assumes "h_answers h \<noteq> []"
  shows "map fst (add_to_last rs ts (h_answers h)) = map fst (h_answers h)"
    and "queued_responses (h\<lparr>h_answers := add_to_last rs ts (h_answers h), h_overflow := f\<rparr>) = queued_responses h @ rs"
    and "queued_ticks (h\<lparr>h_answers := add_to_last rs ts (h_answers h), h_overflow := f\<rparr>) = queued_ticks h @ ts"
proof -
  obtain replies a where "h_answers h = replies @ [a]" using assms rev_exhaust by blast
  moreover obtain m outs feeds where "a = (m, outs, feeds)" by (rule prod_cases3)
  ultimately show "map fst (add_to_last rs ts (h_answers h)) = map fst (h_answers h)"
    "queued_responses (h\<lparr>h_answers := add_to_last rs ts (h_answers h), h_overflow := f\<rparr>) = queued_responses h @ rs"
    "queued_ticks (h\<lparr>h_answers := add_to_last rs ts (h_answers h), h_overflow := f\<rparr>) = queued_ticks h @ ts"
    by (simp_all add: queued_responses_def queued_ticks_def)
qed

section \<open>Who is known\<close>

text \<open>\<open>T\<close> is the table of the sessions that the server has ever given to an identity.\<close>

definition known :: "(SessionId \<rightharpoonup> Identity) \<Rightarrow> SessionId set" where
  "known T = insert DUMMY_SESSION_ID (dom T)"

definition sids_ok :: "(SessionId \<rightharpoonup> Identity) \<Rightarrow> History \<Rightarrow> Engine \<Rightarrow> bool" where
  "sids_ok T h e \<longleftrightarrow> ran (orderToSession e) \<subseteq> known T \<and> im_sessionId ` set (pending e) \<subseteq> known T \<and>
     om_sessionId ` set (queued_responses h) \<subseteq> known T"

definition todo_known :: "(SessionId \<rightharpoonup> Identity) \<Rightarrow> History \<Rightarrow> EngineAction list \<Rightarrow> bool" where
  "todo_known T h actions \<longleftrightarrow> (\<forall>a\<in>set actions. action_session a \<subseteq> known T) \<and>
     (actions \<noteq> [] \<longrightarrow> h_answers h \<noteq> [])"

definition table_ok :: "(SessionId \<rightharpoonup> Identity) \<Rightarrow> Exchange \<Rightarrow> bool" where
  "table_ok T x \<longleftrightarrow> (phase (main_pc x) \<le> 4 \<longrightarrow> T = zs_sessionToIdentity (zmqServer x)) \<and>
     T DUMMY_SESSION_ID = None \<and> inj_on T (dom T)"

definition streams_ok :: "(SessionId \<rightharpoonup> Identity) \<Rightarrow> History \<Rightarrow> Exchange \<Rightarrow> bool" where
  "streams_ok T h x \<longleftrightarrow>
     h_accepted h = map fst (h_answers h) @ pending (matchingEngine x) \<and>
     queued_responses h = map fst (h_sent h) @ out_pending (matchingEngine x) \<and>
     queued_ticks h = map fst (h_published h) @ feed_pending (matchingEngine x) \<and>
     zs_wire (zmqServer x) = responses T (gone (h_sent h)) \<and>
     map snd (zs_failed (zmqServer x)) = responses T (not_gone (h_sent h)) \<and>
     sent_whole (fh_multicast (feedHandler x)) = map put_market_data (gone (h_published h)) \<and>
     datagrams (fh_multicast (feedHandler x)) =
       (if address_ok (fh_multicast (feedHandler x)) then map (put_market_data \<circ> fst) (h_published h) else [])"

definition delivery_inv :: "(SessionId \<rightharpoonup> Identity) \<Rightarrow> History \<Rightarrow> Exchange \<Rightarrow> bool" where
  "delivery_inv T h x \<longleftrightarrow> table_ok T x \<and> sids_ok T h (matchingEngine x) \<and>
     todo_known T h (engine_todo x) \<and> streams_ok T h x"

lemma responses_extend:
  assumes "T \<subseteq>\<^sub>m T'" and "T' DUMMY_SESSION_ID = None" and "om_sessionId ` set ms \<subseteq> known T"
  shows "responses T' ms = responses T ms"
  using assms(3)
proof (induction ms)
  case (Cons m ms)
  have "T' (om_sessionId m) = T (om_sessionId m)"
    using Cons.prems assms(1,2) by (cases "T (om_sessionId m)") (force simp: known_def map_le_def)+
  with Cons show ?case by simp
qed simp

lemma known_mono: "T \<subseteq>\<^sub>m T' \<Longrightarrow> known T \<subseteq> known T'"
  by (auto simp: known_def dest: map_le_implies_dom_le)

text \<open>Connecting a client only ever adds to the server's table.\<close>

lemma server_inv_table:
  assumes "server_inv zs sm"
  shows "zs_sessionToIdentity zs DUMMY_SESSION_ID = None"
    and "inj_on (zs_sessionToIdentity zs) (dom (zs_sessionToIdentity zs))"
proof -
  have sm: "sm_inv sm" and T: "zs_sessionToIdentity zs sid = map_option zmqIdentity (sessions sm sid)" for sid
    using assms by (simp_all add: server_inv_def)
  have "DUMMY_SESSION_ID = - 1" by (simp add: DUMMY_SESSION_ID_def)
  then have "\<not> DUMMY_SESSION_ID < nextSessionId sm" by (metis word_n1_ge leD)
  then show "zs_sessionToIdentity zs DUMMY_SESSION_ID = None"
    using sm_invD(2) [OF sm, of DUMMY_SESSION_ID] by (cases "sessions sm DUMMY_SESSION_ID") (auto simp: T)
  show "inj_on (zs_sessionToIdentity zs) (dom (zs_sessionToIdentity zs))"
  proof (rule inj_onI)
    fix a b
    assume "a \<in> dom (zs_sessionToIdentity zs)" "b \<in> dom (zs_sessionToIdentity zs)"
      and "zs_sessionToIdentity zs a = zs_sessionToIdentity zs b"
    then obtain s u where "sessions sm a = Some s" "sessions sm b = Some u" "zmqIdentity s = zmqIdentity u"
      by (auto simp: T)
    then show "a = b" using sm_invD(1) [OF sm, of "zmqIdentity s"] by (metis option.inject)
  qed
qed

lemma connect_table:
  assumes "server_inv zs sm" and "connectClient identity zs sm = (zs', sm')"
  shows "zs_sessionToIdentity zs \<subseteq>\<^sub>m zs_sessionToIdentity zs'" and "zs_wire zs' = zs_wire zs"
    and "zs_failed zs' = zs_failed zs"
proof -
  have sm: "sm_inv sm" and tables: "zs_identityToSession zs = identityToSession sm"
    "zs_sessionToIdentity zs (nextSessionId sm) = map_option zmqIdentity (sessions sm (nextSessionId sm))"
    using assms(1) by (simp_all add: server_inv_def)
  have "sessions sm (nextSessionId sm) = None"
    using sm_invD(2) [OF sm, of "nextSessionId sm"] by (cases "sessions sm (nextSessionId sm)") auto
  then show "zs_sessionToIdentity zs \<subseteq>\<^sub>m zs_sessionToIdentity zs'" "zs_wire zs' = zs_wire zs"
    "zs_failed zs' = zs_failed zs"
    using assms(2) tables
    by (auto simp: connectClient_def createSession_def Let_def map_le_def split: option.splits)
qed

section \<open>What a step does to the queues\<close>

lemma push_inbound_appends:
  assumes "engine_inv e"
  shows "\<exists>ms. pending (push_inbound m e) = pending e @ ms \<and> set ms \<subseteq> {m}"
proof -
  have "mpsc_inv INBOUND_QUEUE_SIZE (inboundQueue e)" using engine_invD(4) [OF assms] by (simp add: queues_ok_def)
  from inbound.push_appends [OF this, of m] show ?thesis
    by (auto simp: pending_def push_inbound_def)
qed

lemma received_requests:
  assumes "processIncoming f1 f2 f3 zs sm (inboundQueue e) = Some (zs', sm', q)"
    and "engine_inv e" and "server_inv zs sm" and "sessions_left sm"
  shows "\<exists>ms. pending (e\<lparr>inboundQueue := q\<rparr>) = pending e @ ms \<and>
    im_sessionId ` set ms \<subseteq> dom (zs_sessionToIdentity zs')"
    and "zs_sessionToIdentity zs \<subseteq>\<^sub>m zs_sessionToIdentity zs'" and "zs_wire zs' = zs_wire zs"
    and "server_inv zs' sm'" and "zs_failed zs' = zs_failed zs"
proof -
  note tables = processIncoming_effect(2) [OF assms(1)]
  show "zs_sessionToIdentity zs \<subseteq>\<^sub>m zs_sessionToIdentity zs'" "zs_wire zs' = zs_wire zs" "server_inv zs' sm'"
    "zs_failed zs' = zs_failed zs"
    using tables connect_table [OF assms(3)] connectClient_keeps(1) [OF assms(3,4)] assms(3) by auto
  have "(zs', sm', q) = (zs, sm, inboundQueue e) \<or>
    (\<exists>identity msg ok. parseAndRouteMessage identity msg zs' (inboundQueue e) = Some (ok, q))"
    using assms(1) by (auto simp: processIncoming_def split: option.splits if_splits prod.splits)
  then consider (none) "q = inboundQueue e"
    | (route) sid body ok identity where "zs_identityToSession zs' identity = Some sid"
      "routeToInbound sid body (inboundQueue e) = Some (ok, q)"
    using parse_routes_or_drops by (metis option.inject prod.inject)
  then show "\<exists>ms. pending (e\<lparr>inboundQueue := q\<rparr>) = pending e @ ms \<and>
      im_sessionId ` set ms \<subseteq> dom (zs_sessionToIdentity zs')"
  proof cases
    case none
    then show ?thesis by (intro exI [of _ "[]"]) simp
  next
    case route
    then have "e\<lparr>inboundQueue := q\<rparr> = push_inbound \<lparr>im_sessionId = sid, im_body = body\<rparr> e"
      using mpsc_push_inbound by (simp add: routeToInbound_def)
    moreover have "zs_sessionToIdentity zs' sid = Some identity"
      using \<open>server_inv zs' sm'\<close> route(1) sm_invD(1) [of sm' identity sid] by (auto simp: server_inv_def)
    ultimately show ?thesis
      using push_inbound_appends [OF assms(2), of "\<lparr>im_sessionId = sid, im_body = body\<rparr>"] by fastforce
  qed
qed

lemma generated_requests:
  assumes "generateOrder fl g (inboundQueue e) = Some (g', q)" and "engine_inv e"
  shows "\<exists>ms. pending (e\<lparr>inboundQueue := q\<rparr>) = pending e @ ms \<and> im_sessionId ` set ms \<subseteq> {DUMMY_SESSION_ID}"
proof -
  obtain msg g1 ok where "generate_request fl g = Some (msg, g1)"
    "mpsc_push INBOUND_QUEUE_SIZE msg (inboundQueue e) = Some (ok, q)"
    using assms(1) by (auto simp: generateOrder_def bind_eq_Some_conv split: prod.splits)
  moreover have "im_sessionId msg = DUMMY_SESSION_ID" if "generate_request fl g = Some (msg, g1)" for msg g1
    using that by (auto simp: generate_request_def Let_def bind_eq_Some_conv split_beta)
  ultimately show ?thesis
    using push_inbound_appends [OF assms(2), of msg] mpsc_push_inbound [of msg e ok q] by fastforce
qed

lemma popped_request:
  assumes "engine_inv e" and "pop_inbound e = (Some m, e')"
  shows "pending e = m # pending e'" and "out_pending e' = out_pending e" and "feed_pending e' = feed_pending e"
    and "orderToSession e' = orderToSession e"
  using pop_inbound_pending(1,2) [OF assms(1)] assms(2)
  by (auto simp: pop_inbound_def split_beta out_pending_def feed_pending_def split: list.splits)

lemma popped_response:
  assumes "engine_ok e" and "getOutboundMessage (outboundQueue e) = (m, q)"
  shows "out_pending e = (case m of None \<Rightarrow> [] | Some r \<Rightarrow> [r]) @ out_pending (e\<lparr>outboundQueue := q\<rparr>)"
proof -
  have "rb_inv OUTBOUND_QUEUE_SIZE (outboundQueue e)" using engine_okD(2) [OF assms(1)] by (simp add: well_framed_def)
  from outbound.pop_contents(2,3) [OF this] assms(2) show ?thesis
    by (auto simp: getOutboundMessage_def out_pending_def split: list.splits)
qed

lemma popped_feed:
  assumes "engine_ok e" and "spsc_pop FEED_QUEUE_SIZE (feedQueue e) = (m, q)"
  shows "feed_pending e = (case m of None \<Rightarrow> [] | Some d \<Rightarrow> [d]) @ feed_pending (e\<lparr>feedQueue := q\<rparr>)"
proof -
  have "rb_inv FEED_QUEUE_SIZE (feedQueue e)" using engine_okD(2) [OF assms(1)] by (simp add: well_framed_def)
  from feed.pop_contents(2,3) [OF this] assms(2) show ?thesis
    by (auto simp: feed_pending_def split: list.splits)
qed

lemma processMessage_sends:
  "address_ok (fh_multicast (processMessage m fh)) = address_ok (fh_multicast fh)"
  "0 \<le> socketFd (fh_multicast fh) \<Longrightarrow> datagrams (fh_multicast (processMessage m fh)) =
     datagrams (fh_multicast fh) @ (if address_ok (fh_multicast fh) then [put_market_data m] else [])"
  "sent_whole (fh_multicast (processMessage m fh)) = sent_whole (fh_multicast fh) \<or>
   sent_whole (fh_multicast (processMessage m fh)) = sent_whole (fh_multicast fh) @ [put_market_data m]"
  by (auto simp: processMessage_def publishMessage_def publish_def Let_def split: MarketDataMessage.splits prod.splits)

section \<open>Every step keeps the streams in order\<close>

text \<open>A step that moves no message and begins or ends no handler.\<close>

lemma delivery_quiet:
  assumes "delivery_inv T h x" and "engine_todo y = engine_todo x" and "t = MatchingThread \<Longrightarrow> engine_todo x = []" and "pending (matchingEngine y) = pending (matchingEngine x)"
    and "out_pending (matchingEngine y) = out_pending (matchingEngine x)"
    and "feed_pending (matchingEngine y) = feed_pending (matchingEngine x)"
    and "orderToSession (matchingEngine y) = orderToSession (matchingEngine x)"
    and "zs_wire (zmqServer y) = zs_wire (zmqServer x)" and "zs_failed (zmqServer y) = zs_failed (zmqServer x)"
    and "sent_whole (fh_multicast (feedHandler y)) = sent_whole (fh_multicast (feedHandler x))"
    and "address_ok (fh_multicast (feedHandler y)) = address_ok (fh_multicast (feedHandler x))"
    and "datagrams (fh_multicast (feedHandler y)) = datagrams (fh_multicast (feedHandler x))"
    and "phase (main_pc y) \<le> 4 \<Longrightarrow>
      phase (main_pc x) \<le> 4 \<and> zs_sessionToIdentity (zmqServer y) = zs_sessionToIdentity (zmqServer x)"
  shows "delivery_inv T (observe t x y h) y"
proof -
  have "observe t x y h = h" using assms(3-6) by (cases t) (simp_all add: observe_def Let_def)
  moreover have "sids_ok T h (matchingEngine y)" "table_ok T y" "todo_known T h (engine_todo y)"
    using assms by (simp_all add: delivery_inv_def table_ok_def sids_ok_def)
  moreover have "streams_ok T h y" using assms by (simp add: delivery_inv_def streams_ok_def)
  ultimately show ?thesis by (simp add: delivery_inv_def)
qed

lemma delivery_server_receive:
  assumes inv: "delivery_inv T h x" and p: "phase (main_pc x) \<le> 4" and left: "sessions_left (sessionManager x)"
    and e: "engine_inv (matchingEngine x)" and tables: "server_inv (zmqServer x) (sessionManager x)"
    and run: "processIncoming f1 f2 f3 (zmqServer x) (sessionManager x) (inboundQueue (matchingEngine x)) =
      Some (zs, sm, q)"
  defines "y \<equiv> x\<lparr>zmqServer := zs, sessionManager := sm,
    matchingEngine := (matchingEngine x)\<lparr>inboundQueue := q\<rparr>, server_pc := ServerOutbound\<rparr>"
  shows "delivery_inv (zs_sessionToIdentity zs) (observe ServerThread x y h) y"
proof -
  let ?T = "zs_sessionToIdentity zs"
  note R = received_requests [OF run e tables left]
  obtain ms where ms: "pending ((matchingEngine x)\<lparr>inboundQueue := q\<rparr>) = pending (matchingEngine x) @ ms"
    "im_sessionId ` set ms \<subseteq> dom ?T" using R(1) by blast
  have T: "T \<subseteq>\<^sub>m ?T" using inv p R(2) by (simp add: delivery_inv_def table_ok_def)
  have same: "out_pending (matchingEngine y) = out_pending (matchingEngine x)"
    "feed_pending (matchingEngine y) = feed_pending (matchingEngine x)"
    "orderToSession (matchingEngine y) = orderToSession (matchingEngine x)"
    "pending (matchingEngine y) = pending (matchingEngine x) @ ms"
    by (simp_all add: y_def out_pending_def feed_pending_def ms(1))
  have obs: "observe ServerThread x y h = h\<lparr>h_accepted := h_accepted h @ ms\<rparr>"
    by (simp add: observe_def Let_def same)
  have "table_ok ?T y" using server_inv_table [OF R(4)] by (simp add: table_ok_def y_def)
  moreover have "sids_ok ?T (h\<lparr>h_accepted := h_accepted h @ ms\<rparr>) (matchingEngine y)"
  proof -
    have K: "known T \<subseteq> known ?T" "dom ?T \<subseteq> known ?T" using known_mono [OF T] by (auto simp: known_def)
    have "sids_ok T h (matchingEngine x)" using inv by (simp add: delivery_inv_def)
    then show ?thesis
      using order_trans [OF _ K(1)] order_trans [OF ms(2) K(2)]
      by (simp add: sids_ok_def same image_Un)
  qed
  moreover have "todo_known ?T (h\<lparr>h_accepted := h_accepted h @ ms\<rparr>) (engine_todo y)"
    using inv known_mono [OF T] by (auto simp: delivery_inv_def todo_known_def y_def)
  moreover have "om_sessionId ` set (queued_responses h) \<subseteq> known T"
    "queued_responses h = map fst (h_sent h) @ out_pending (matchingEngine x)"
    using inv unfolding delivery_inv_def sids_ok_def streams_ok_def by blast+
  then have "om_sessionId ` fst ` set (h_sent h) \<subseteq> known T" by (simp add: image_Un)
  then have "om_sessionId ` set (gone (h_sent h)) \<subseteq> known T" "om_sessionId ` set (not_gone (h_sent h)) \<subseteq> known T"
    using gone_subset [of "h_sent h"] by blast+
  note sent = this [THEN responses_extend [OF T server_inv_table(1) [OF R(4)]]]
  have "streams_ok ?T (h\<lparr>h_accepted := h_accepted h @ ms\<rparr>) y"
    using inv R(3,5) by (simp add: delivery_inv_def streams_ok_def same sent) (simp add: y_def)
  ultimately show ?thesis by (simp add: delivery_inv_def obs)
qed

lemma delivery_server_send:
  fixes accepted :: nat
  assumes inv: "delivery_inv T h x" and p: "phase (main_pc x) \<le> 4"
    and e: "engine_ok (matchingEngine x)"
    and pop: "getOutboundMessage (outboundQueue (matchingEngine x)) = (Some msg, q)"
  defines "y \<equiv> x\<lparr>zmqServer := sendResponse msg accepted (zmqServer x),
    matchingEngine := (matchingEngine x)\<lparr>outboundQueue := q\<rparr>\<rparr>"
  shows "delivery_inv T (observe ServerThread x y h) y"
proof -
  have out: "out_pending (matchingEngine x) = [msg] @ out_pending (matchingEngine y)"
    using popped_response [OF e pop] by (simp add: y_def)
  have same: "feed_pending (matchingEngine y) = feed_pending (matchingEngine x)"
    "orderToSession (matchingEngine y) = orderToSession (matchingEngine x)"
    "pending (matchingEngine y) = pending (matchingEngine x)" by (simp_all add: y_def)
  let ?ok = "zs_wire (zmqServer y) \<noteq> zs_wire (zmqServer x)"
  let ?h = "h\<lparr>h_sent := h_sent h @ [(msg, ?ok)]\<rparr>"
  have obs: "observe ServerThread x y h = ?h"
    by (simp add: observe_def Let_def same out del: append_Cons append_Nil)
  have T: "T = zs_sessionToIdentity (zmqServer x)" using inv p by (simp add: delivery_inv_def table_ok_def)
  have "zs_wire (zmqServer y) = zs_wire (zmqServer x) @ responses T (gone [(msg, ?ok)])"
    "map snd (zs_failed (zmqServer y)) = map snd (zs_failed (zmqServer x)) @ responses T (not_gone [(msg, ?ok)])"
    by (auto simp: y_def T sendResponse_logs split: option.split)
  then have "streams_ok T ?h y"
    using inv out by (simp add: delivery_inv_def streams_ok_def same responses_append del: gone_simps(3,6))
      (simp add: y_def)
  moreover have "table_ok T y" "sids_ok T ?h (matchingEngine y)" "todo_known T ?h (engine_todo y)"
    using inv by (simp_all add: delivery_inv_def table_ok_def sids_ok_def same todo_known_def)
      (simp_all add: y_def)
  ultimately show ?thesis by (simp add: delivery_inv_def obs)
qed

text \<open>Taking a request: it is the one that is answered from now on.\<close>

lemma delivery_engine_message:
  assumes inv: "delivery_inv T h x" and r: "engine_ok (matchingEngine x)"
    and pop: "pop_inbound (matchingEngine x) = (Some msg, e)" and started: "begin_message msg e = (e', actions)"
  defines "y \<equiv> x\<lparr>matchingEngine := e', engine_todo := actions\<rparr>"
  shows "observe MatchingThread x y h = h\<lparr>h_answers := h_answers h @ [(msg, [], [])]\<rparr>"
    and "delivery_inv T (observe MatchingThread x y h) y"
proof -
  note P = popped_request [OF engine_okD(1) [OF r] pop] and B = begin_message_frame [OF started]
  have same: "pending (matchingEngine x) = [msg] @ pending (matchingEngine y)"
    "out_pending (matchingEngine y) = out_pending (matchingEngine x)"
    "feed_pending (matchingEngine y) = feed_pending (matchingEngine x)"
    using P B by (simp_all add: y_def pending_def out_pending_def feed_pending_def)
  let ?h = "h\<lparr>h_answers := h_answers h @ [(msg, [], [])]\<rparr>"
  show obs: "observe MatchingThread x y h = ?h"
    unfolding observe_def Let_def same(1) moved by simp
  have K: "ran (orderToSession e) \<subseteq> known T" "im_sessionId msg \<in> known T"
    using inv P by (auto simp: delivery_inv_def sids_ok_def)
  have "streams_ok T ?h y" using inv same by (simp add: delivery_inv_def streams_ok_def) (simp add: y_def)
  moreover have "sids_ok T ?h (matchingEngine y)" "todo_known T ?h (engine_todo y)"
    using inv same(1) begin_sessions [OF started K] by (simp_all add: delivery_inv_def sids_ok_def todo_known_def y_def)
  moreover have "table_ok T y" using inv by (simp add: delivery_inv_def table_ok_def y_def)
  ultimately show "delivery_inv T (observe MatchingThread x y h) y" by (simp add: delivery_inv_def obs)
qed

text \<open>A push of the handler adds to that answer.\<close>

lemma observe_push:
  assumes "engine_todo x \<noteq> []" and "pending (matchingEngine y) = pending (matchingEngine x)"
    and "out_pending (matchingEngine y) = out_pending (matchingEngine x) @ rs"
    and "feed_pending (matchingEngine y) = feed_pending (matchingEngine x) @ ts"
  shows "observe MatchingThread x y h = h\<lparr>h_answers := add_to_last rs ts (h_answers h),
    h_overflow := h_overflow h \<or> queue_full (matchingEngine x)\<rparr>"
  using assms by (simp add: observe_def Let_def)

lemma delivery_engine_push:
  assumes inv: "delivery_inv T h x" and r: "engine_ok (matchingEngine x)" and todo: "engine_todo x = a # actions"
  defines "y \<equiv> x\<lparr>matchingEngine := do_action a (matchingEngine x), engine_todo := actions\<rparr>"
  shows "delivery_inv T (observe MatchingThread x y h) y"
proof -
  have K: "ran (orderToSession (matchingEngine x)) \<subseteq> known T" "action_session a \<subseteq> known T" "h_answers h \<noteq> []"
    using inv todo by (simp_all add: delivery_inv_def sids_ok_def todo_known_def)
  note A = action_appends [OF r K(1,2)] and Q = queued_more [OF K(3)]
  obtain rs ts where rs: "out_pending (matchingEngine y) = out_pending (matchingEngine x) @ rs"
      "om_sessionId ` set rs \<subseteq> known T"
    and ts: "feed_pending (matchingEngine y) = feed_pending (matchingEngine x) @ ts"
    using A(1,2) by (auto simp: y_def)
  have pend: "pending (matchingEngine y) = pending (matchingEngine x)" by (simp add: y_def)
  let ?h = "h\<lparr>h_answers := add_to_last rs ts (h_answers h), h_overflow := h_overflow h \<or> queue_full (matchingEngine x)\<rparr>"
  have obs: "observe MatchingThread x y h = ?h" using observe_push [OF _ pend rs(1) ts] todo by simp
  have "streams_ok T ?h y"
    using inv rs(1) ts by (simp add: delivery_inv_def streams_ok_def pend Q) (simp add: y_def)
  moreover have "sids_ok T ?h (matchingEngine y)"
    using inv rs(2) A(3) by (simp add: delivery_inv_def sids_ok_def pend Q image_Un) (simp add: y_def)
  moreover have "h_answers ?h \<noteq> []" using arg_cong [OF Q(1), of length "rs" ts] K(3) by auto
  then have "todo_known T ?h (engine_todo y)"
    using inv todo by (simp add: delivery_inv_def todo_known_def y_def)
  moreover have "table_ok T y" using inv by (simp add: delivery_inv_def table_ok_def y_def)
  ultimately show ?thesis by (simp add: delivery_inv_def obs)
qed

lemma delivery_feed_message:
  assumes inv: "delivery_inv T h x" and r: "engine_ok (matchingEngine x)"
    and sock: "0 \<le> socketFd (fh_multicast (feedHandler x))"
    and pop: "spsc_pop FEED_QUEUE_SIZE (feedQueue (matchingEngine x)) = (Some msg, q)"
  defines "y \<equiv> x\<lparr>feedHandler := processMessage msg (feedHandler x),
    matchingEngine := (matchingEngine x)\<lparr>feedQueue := q\<rparr>\<rparr>"
  shows "delivery_inv T (observe FeedThread x y h) y"
proof -
  have fd: "feed_pending (matchingEngine x) = [msg] @ feed_pending (matchingEngine y)"
    using popped_feed [OF r pop] by (simp add: y_def)
  have same: "out_pending (matchingEngine y) = out_pending (matchingEngine x)"
    "orderToSession (matchingEngine y) = orderToSession (matchingEngine x)"
    "pending (matchingEngine y) = pending (matchingEngine x)" by (simp_all add: y_def out_pending_def)
  let ?ok = "sent_whole (fh_multicast (feedHandler y)) \<noteq> sent_whole (fh_multicast (feedHandler x))"
  let ?h = "h\<lparr>h_published := h_published h @ [(msg, ?ok)]\<rparr>"
  have obs: "observe FeedThread x y h = ?h"
    by (simp add: observe_def Let_def fd del: append_Cons append_Nil)
  have "sent_whole (fh_multicast (feedHandler y)) =
      sent_whole (fh_multicast (feedHandler x)) @ map put_market_data (gone [(msg, ?ok)])"
    using processMessage_sends(3) [of msg "feedHandler x"] by (auto simp: y_def)
  then have "streams_ok T ?h y"
    using inv fd by (simp add: delivery_inv_def streams_ok_def same del: gone_simps(3,6))
      (simp add: y_def processMessage_sends(1,2) sock)
  moreover have "table_ok T y" "sids_ok T ?h (matchingEngine y)" "todo_known T ?h (engine_todo y)"
    using inv by (simp_all add: delivery_inv_def table_ok_def sids_ok_def same todo_known_def)
      (simp_all add: y_def)
  ultimately show ?thesis by (simp add: delivery_inv_def obs)
qed

lemma popped_none:
  assumes "engine_inv e" and "pop_inbound e = (None, e')"
  shows "pending e' = pending e" and "out_pending e' = out_pending e" and "feed_pending e' = feed_pending e"
    and "orderToSession e' = orderToSession e"
  using pop_inbound_pending(1,2) [OF assms(1)] assms(2)
  by (auto simp: pop_inbound_def split_beta out_pending_def feed_pending_def split: list.splits)

lemma out_pending_fields [simp]:
  "out_pending (e\<lparr>feedQueue := fq\<rparr>) = out_pending e" "out_pending (e\<lparr>inboundQueue := iq\<rparr>) = out_pending e"
  "out_pending (e\<lparr>running := r\<rparr>) = out_pending e"
  by (simp_all add: out_pending_def)

lemma delivery_step:
  assumes step: "exchange_step fl t x y" and inv: "delivery_inv T h x" and xinv: "exchange_inv x" and last: "lasting x"
  shows "\<exists>T'. delivery_inv T' (observe t x y h) y"
proof -
  note S = state_okD [OF xinv] and left = last [unfolded lasting_def]
  have E: "engine_inv (matchingEngine x)" by (rule engine_okD(1) [OF S(1)])
  have on: "server_pc x \<noteq> ServerOff \<Longrightarrow> phase (main_pc x) \<le> 3"
    and sock: "feed_pc x \<noteq> FeedOff \<Longrightarrow> 0 \<le> socketFd (fh_multicast (feedHandler x))"
    using xinv by (fastforce simp: exchange_inv_def threads_ok_def flags_ok_def)+
  have idle: "engine_pc x = EngineCheck \<Longrightarrow> engine_todo x = []"
    using xinv by (auto simp: exchange_inv_def busy_ok_def)
  note quiet = delivery_quiet [OF inv]
  show ?thesis
    using step
  proof (cases rule: exchange_step_cases)
    case (server_receive f1 f2 f3 zs sm q)
    have p: "phase (main_pc x) \<le> 3" using on server_receive by simp
    then have "server_inv (zmqServer x) (sessionManager x)" using S(3) by (simp add: tables_at_def)
    from delivery_server_receive [OF inv _ conjunct2 [OF left] E this server_receive(4)] p server_receive
    show ?thesis by auto
  next
    case (server_send msg q accepted)
    with delivery_server_send [OF inv _ S(1) server_send(4)] on show ?thesis by auto
  next
    case (server_sent q)
    with popped_response [OF S(1) server_sent(4)] show ?thesis by (intro exI [of _ T] quiet) simp_all
  next
    case (engine_message msg e e' actions)
    with delivery_engine_message(2) [OF inv S(1) engine_message(5,6)] show ?thesis by auto
  next
    case (engine_push a actions)
    with delivery_engine_push [OF inv S(1) engine_push(3)] show ?thesis by auto
  next
    case engine_look
    with idle show ?thesis by (intro exI [of _ T] quiet) simp_all
  next
    case (engine_empty e)
    with popped_none [OF E engine_empty(5)] show ?thesis by (intro exI [of _ T] quiet) simp_all
  next
    case (feed_message msg q)
    then have "feed_pc x \<noteq> FeedOff" by auto
    with feed_message delivery_feed_message [OF inv S(1) sock feed_message(4)] show ?thesis by auto
  next
    case (feed_empty q)
    with popped_feed [OF S(1) feed_empty(4)] show ?thesis by (intro exI [of _ T] quiet) simp_all
  next
    case (dummy_enter g now)
    then show ?thesis
      by (intro exI [of _ T] quiet; cases "ordersPerSecond (config g) = 0") simp_all
  next
    case (dummy_order now g g' q)
    obtain ms where ms: "pending ((matchingEngine x)\<lparr>inboundQueue := q\<rparr>) = pending (matchingEngine x) @ ms"
      "im_sessionId ` set ms \<subseteq> {DUMMY_SESSION_ID}" using generated_requests [OF dummy_order(5) E] by blast
    have "observe DummyThread x y h = h\<lparr>h_accepted := h_accepted h @ ms\<rparr>"
      by (simp add: observe_def dummy_order(2) ms(1) Let_def)
    moreover have "im_sessionId ` set ms \<subseteq> known T" using ms(2) by (auto simp: known_def)
    then have "sids_ok T (h\<lparr>h_accepted := h_accepted h @ ms\<rparr>) (matchingEngine y)"
      using inv ms(1) by (simp add: delivery_inv_def sids_ok_def dummy_order(2) image_Un)
    moreover have "streams_ok T (h\<lparr>h_accepted := h_accepted h @ ms\<rparr>) y" "table_ok T y"
      using inv ms(1) by (simp_all add: delivery_inv_def streams_ok_def table_ok_def dummy_order(2))
    moreover have "todo_known T (h\<lparr>h_accepted := h_accepted h @ ms\<rparr>) (engine_todo y)"
      using inv by (simp add: delivery_inv_def todo_known_def dummy_order(2))
    ultimately show ?thesis using dummy_order(1) by (auto simp: delivery_inv_def)
  next
    case main_server_joined
    then show ?thesis by (intro exI [of _ T] quiet) simp_all
  next
    case (main_end_session i sid ends cb sm e)
    with no_callback_run [OF S(2) main_end_session(4,5)] show ?thesis by (intro exI [of _ T] quiet) simp_all
  next
    case main_feed_joined
    then show ?thesis by (intro exI [of _ T] quiet) (simp_all add: udp_shutdown_def)
  qed (intro exI [of _ T] quiet; simp)+
qed

lemma delivery_started:
  assumes "exchange_start fd ttl_ok bound (new_exchange env c) = Some (True, x)"
  shows "delivery_inv Map.empty no_history x"
proof -
  from exchange_start_true [OF assms(1)] have up: "0 \<le> fd" ttl_ok bound by simp_all
  note x = exchange_start_up [OF new_exchange_idle up, of env c, unfolded assms(1) option.inject prod.inject, THEN conjunct2]
  have "zs_sessionToIdentity (zmqServer (new_exchange env c)) = Map.empty"
    by (simp add: new_exchange_def new_ZmqServer_def)
  moreover have "orderToSession (matchingEngine (new_exchange env c)) = Map.empty"
    "pending (matchingEngine (new_exchange env c)) = []" "out_pending (matchingEngine (new_exchange env c)) = []"
    "feed_pending (matchingEngine (new_exchange env c)) = []"
    by (simp_all add: new_exchange_def new_engine_def pending_def out_pending_def feed_pending_def
        rb_list_def rb_count_def mpsc_new_def spsc_new_def)
  ultimately show ?thesis
    using new_exchange_state(4-7) [of env c]
    by (simp add: x delivery_inv_def table_ok_def sids_ok_def streams_ok_def todo_known_def no_history_def
        queued_responses_def queued_ticks_def responses_def feed_pending_def new_exchange_fields)
qed

lemma history_delivery:
  "exchange_history fl h x \<Longrightarrow> rounding_ok fl \<Longrightarrow> \<exists>T. delivery_inv T h x"
proof (induction rule: exchange_history.induct)
  case (history_stepped h x t y)
  then obtain T where "delivery_inv T h x" by blast
  from delivery_step [OF history_stepped.hyps(3) this reachable_inv [OF history_reachable [OF history_stepped.hyps(1)]
      history_stepped.prems] history_stepped.hyps(2)] show ?case .
qed (use delivery_started in blast)

section \<open>One client\<close>

lemma responses_to_one:
  assumes "inj_on T (dom T)" and "T sid = Some identity"
  shows "[f \<leftarrow> responses T ms. hd f = identity] =
    map (\<lambda>m. [identity, [], put_response (om_body m)]) [m \<leftarrow> ms. om_sessionId m = sid]"
proof (induction ms)
  case (Cons m ms)
  have "T (om_sessionId m) = Some identity \<longleftrightarrow> om_sessionId m = sid"
    using assms(2) inj_onD [OF assms(1), of "om_sessionId m" sid] by (auto simp: domIff)
  then show ?case
    using Cons responses_append [of T "[m]" ms]
    by (cases "T (om_sessionId m)") (simp_all add: responses_def)
qed (simp add: responses_def)

lemma connected_phase:
  assumes "exchange_inv x" and "zs_sessionToIdentity (zmqServer x) sid = Some identity"
  shows "phase (main_pc x) \<le> 4"
  using assms by (cases "main_pc x") (auto simp: exchange_inv_def state_ok_def tables_at_def)

end
