(* ===== verification/Market_Refinement.thy ===== *)
theory Market_Refinement
  imports Market_Spec Action_Effects
begin

text \<open>
  \<open>MatchingEngine\<close> refines the market of \<open>Market_Spec\<close>: \<open>market_of\<close> reads the market off an engine,
  and every request moves it, and makes the engine say, what the market says it should.
\<close>

section \<open>The market of an engine\<close>

definition market_of :: "Engine \<Rightarrow> Market" where
  "market_of e =
     \<lparr>mk_book = book_abs (orderbook e), mk_owner = orderToSession e, mk_orderId = nextOrderId e,
      mk_tradeId = nextTradeId e, mk_lastPrice = lastTradePrice e, mk_lastQty = lastTradeQty e,
      mk_trades = trades (orderbook e)\<rparr>"

lemma market_of_sel [simp]:
  "mk_book (market_of e) = book_abs (orderbook e)" "mk_owner (market_of e) = orderToSession e"
  "mk_orderId (market_of e) = nextOrderId e" "mk_tradeId (market_of e) = nextTradeId e"
  "mk_lastPrice (market_of e) = lastTradePrice e" "mk_lastQty (market_of e) = lastTradeQty e"
  "mk_trades (market_of e) = trades (orderbook e)"
  by (simp_all add: market_of_def)

lemma new_engine_market: "market_of (new_engine inq outq feedq sym_name time) = new_market"
  by (simp add: market_of_def new_engine_def new_market_def empty_orderbook_def book_abs_def)

section \<open>The shown prices\<close>

lemma shown_if:
  "(if (0 :: Quantity) < word_of_nat n then (p, word_of_nat n) else (0, 0)) =
   (if 2 ^ 32 dvd n then (0, 0 :: Quantity) else (p :: Price, word_of_nat n))"
  by (simp add: word_neq_0_conv [symmetric] word_of_nat_eq_0_iff)

lemma tick_is_market_tick:
  assumes "book_inv E b" and "mk_book M = book_abs b"
  shows "tick_update sym_name (mk_lastPrice M) (mk_lastQty M) b = market_tick sym_name M"
proof -
  have "GetBestBidAsk b =
      (fst (GetBestBidAsk b), shown_quote (bid_queue (mk_book M)), shown_quote (ask_queue (mk_book M)))"
    using shown_if
    by (simp add: GetBestBidAsk_def best_bid_abs [OF assms(1)] best_ask_abs [OF assms(1)] assms(2)
        shown_quote_def Let_def split: list.split)
  then show ?thesis
    by (metis (no_types, lifting) tick_update_def market_tick_def Let_def case_prod_beta fst_conv snd_conv)
qed

lemma crossed_takes_price:
  assumes "getBuySell ord = BUY \<or> getBuySell ord = SELL"
  shows "crossed ord = takes_price (getBuySell ord) (getOrderType ord) (getPrice ord)"
  using assms by (auto simp: fun_eq_iff crossed_def takes_price_def priceCrossed_def)

section \<open>Finding an order\<close>

lemma find_unique:
  assumes "distinct (map e_id es)" and "en \<in> set es" and "e_id en = i"
  shows "List.find (\<lambda>e. e_id e = i) es = Some en"
  using assms by (induction es) (auto simp: image_iff)

lemma locate_indexed:
  assumes inv: "book_inv {} b" and i: "orders b i = Some x"
  shows "locate i (book_abs b) = Some (getBuySell (obj b x), entry b x)"
proof -
  note x = book_inv_obj_indexed [OF inv i] and ids = abs_ids_distinct [OF inv]
  have id: "e_id (entry b x) = i" using x(2) by (simp add: entry_def)
  consider (bid) z where "z \<in> set (queue_of (bids b))" "snd z = x"
    | (ask) z where "z \<in> set (queue_of (asks b))" "snd z = x"
    using x(3) by (auto simp: resting_def)
  then show ?thesis
  proof cases
    case bid
    then have "entry b x \<in> set (bid_queue (book_abs b))" by (auto simp: book_abs_def entries_def)
    moreover have "getBuySell (obj b x) = BUY"
      using side_okD(2) [OF book_inv_sides(1) [OF inv] bid(1)] bid(2) by simp
    ultimately show ?thesis using find_unique [OF _ _ id] ids by (simp add: locate_def)
  next
    case ask
    then have mem: "entry b x \<in> set (ask_queue (book_abs b))" by (auto simp: book_abs_def entries_def)
    with ids id have "\<forall>e\<in>set (bid_queue (book_abs b)). e_id e \<noteq> i" by fastforce
    then have "List.find (\<lambda>e. e_id e = i) (bid_queue (book_abs b)) = None" by (simp add: find_None_iff)
    moreover have "getBuySell (obj b x) = SELL"
      using side_okD(2) [OF book_inv_sides(2) [OF inv] ask(1)] ask(2) by simp
    ultimately show ?thesis using find_unique [OF _ mem id] ids by (simp add: locate_def)
  qed
qed

lemma locate_unindexed:
  assumes "book_inv {} b" and "orders b i = None"
  shows "locate i (book_abs b) = None"
proof -
  have "e_id e \<noteq> i" if "e \<in> set (own_queue side (book_abs b))" for e side
    using own_queue_indexed [OF assms(1) that] assms(2) by auto
  from this [of _ BUY] this [of _ SELL] show ?thesis
    by (auto simp: locate_def own_queue_def find_None_iff split: option.split)
qed

section \<open>Reactions\<close>

text \<open>
  The reaction of the market, against what a handler computes before its first push and the pushes
  that it then has to do.
\<close>

definition reacts :: "Reaction \<Rightarrow> Engine \<times> EngineAction list \<Rightarrow> bool" where
  "reacts R started \<longleftrightarrow> (case started of (e, as) \<Rightarrow>
     R = (todo_outs as e, todo_feeds as e, market_of (run_actions as e)))"

lemma reject_counters [simp]:
  "nextTradeId (sendOrderReject s c r e) = nextTradeId e"
  "lastTradePrice (sendOrderReject s c r e) = lastTradePrice e"
  "lastTradeQty (sendOrderReject s c r e) = lastTradeQty e"
  "nextTradeId (sendCancelReject s c i r e) = nextTradeId e"
  "lastTradePrice (sendCancelReject s c i r e) = lastTradePrice e"
  "lastTradeQty (sendCancelReject s c i r e) = lastTradeQty e"
  "nextTradeId (sendModifyReject s c i r e) = nextTradeId e"
  "lastTradePrice (sendModifyReject s c i r e) = lastTradePrice e"
  "lastTradeQty (sendModifyReject s c i r e) = lastTradeQty e"
  "nextTradeId (sendCancelAck s c i e) = nextTradeId e"
  "nextTradeId (sendModifyAck s c i p q e) = nextTradeId e"
  by (simp_all add: sendOrderReject_def sendCancelReject_def sendModifyReject_def sendCancelAck_def
      sendModifyAck_def send_defs push_outbound_def)

lemma says_market:
  assumes "says e outs feeds e'" and "nextTradeId e' = nextTradeId e"
    and "lastTradePrice e' = lastTradePrice e" and "lastTradeQty e' = lastTradeQty e"
  shows "market_of e' = market_of e"
  using assms by (simp add: says_def same_books_def market_of_def)

lemma reacts_rejects [simp]:
  "reacts ([order_reject sid cid reason], [], market_of e) (e, [RejectOrder sid cid reason])"
  "reacts ([cancel_reject sid cid i reason], [], market_of e) (e, [RejectCancel sid cid i reason])"
  "reacts ([modify_reject sid cid i reason], [], market_of e) (e, [RejectModify sid cid i reason])"
  using says_market [OF says_sendOrderReject [of e sid cid reason]]
    says_market [OF says_sendCancelReject [of e sid cid i reason]]
    says_market [OF says_sendModifyReject [of e sid cid i reason]]
  by (simp_all add: reacts_def)

text \<open>No handler renames the instrument.\<close>

lemma sender_symbol [simp]:
  "symbol (sendOrderAck s c i st e) = symbol e" "symbol (sendOrderReject s c r e) = symbol e"
  "symbol (sendExecutionReport s i p q l side e) = symbol e" "symbol (sendCancelAck s c i e) = symbol e"
  "symbol (sendCancelReject s c i r e) = symbol e" "symbol (sendModifyAck s c i p q e) = symbol e"
  "symbol (sendModifyReject s c i r e) = symbol e" "symbol (publishTradeUpdate t side e) = symbol e"
  "symbol (publishTickUpdate e) = symbol e" "symbol (untrack_order s i e) = symbol e"
  by (simp_all add: sendOrderAck_def sendOrderReject_def sendExecutionReport_def sendCancelAck_def
      sendCancelReject_def sendModifyAck_def sendModifyReject_def publishTradeUpdate_def
      publishTickUpdate_def untrack_order_def send_defs push_outbound_def push_feed_def Let_def split: prod.splits)

lemma fold_symbol: "(\<And>x e. symbol (f x e) = symbol e) \<Longrightarrow> symbol (fold f xs e) = symbol e"
  by (induction xs arbitrary: e) simp_all

lemma report_symbol [simp]:
  "symbol (report_trades sid i side x ts e) = symbol e"
  "symbol (fold (report_modify_trade i) ts e) = symbol e"
  by (auto simp: report_trades_def report_trade_def report_modify_trade_def Let_def
      intro!: fold_symbol split: option.split)

lemma accept_symbol [simp]: "symbol (accept_order sid request side type e) = symbol e"
  by (simp add: accept_order_eq Let_def)

section \<open>New orders\<close>

lemma accept_says:
  fixes sid :: SessionId
  assumes inv: "engine_inv e" and ok: "valid_terms request side type"
    and started: "begin_accept sid request side type e = (e', as)"
  shows "todo_outs as e' = new_order_messages sid request side type e"
    and "todo_feeds as e' = new_order_feed sid request side type e"
proof -
  let ?e5 = "admitted sid request side type e" and ?i = "nextOrderId e" and ?x = "next_address e"
  define b where "b = orderbook ?e5"
  let ?e6 = "report_trades sid ?i side ?x (trades b) ?e5"
  have e': "e' = ?e5" and as: "as = concat (map (trade_actions sid ?i side ?x) (trades b)) @
      [AckOrder sid (nor_clientOrderId request) ?i ?x, PublishTick]"
    using started by (auto simp: begin_accept_eq Let_def b_def)
  note tracked = admitted_trades_tracked [OF inv ok, of _ sid, folded b_def]
  then have "\<forall>t\<in>set (trades b). orderToSession ?e5 (resting_side_id side t) \<noteq> None" by auto
  note reports = trades_actions_say [OF this, of sid ?i ?x, unfolded admitted_fields, folded b_def]
    and reported = report_trades_says [OF this, of sid ?i ?x, unfolded admitted_fields, folded b_def]
  have b6: "orderbook ?e6 = b" "symbol ?e6 = symbol e"
    "lastTradePrice ?e6 = last_price (lastTradePrice e) (trades b)"
    "lastTradeQty ?e6 = last_qty (lastTradeQty e) (trades b)"
    using reported by (simp_all add: says_def same_books_def trade_counters_def b_def)
  have owners: "trade_reports ((orderToSession e)(?i \<mapsto> sid)) sid ?i side (getQuantity (obj b ?x))
      (nextTradeId e) (trades b) =
      trade_reports (orderToSession e) sid ?i side (getQuantity (obj b ?x)) (nextTradeId e) (trades b)"
    using tracked(2) by (intro trade_reports_cong) auto
  show "todo_outs as e' = new_order_messages sid request side type e"
    using reports by (simp add: e' as report_trades_actions b6 owners new_order_messages_def Let_def b_def [symmetric])
  have "action_feeds PublishTick (do_action (AckOrder sid (nor_clientOrderId request) ?i ?x) ?e6) =
      [tick_update (symbol e) (last_price (lastTradePrice e) (trades b)) (last_qty (lastTradeQty e) (trades b)) b]"
    unfolding do_action_ack action_feeds.simps finish_order_fields ack_counters sender_symbol b6
    using says_sendOrderAck [of ?e6 sid "nor_clientOrderId request" ?i "getOrderStatus (obj b ?x)"]
    by (simp add: says_def same_books_def b6)
  with reports show "todo_feeds as e' = new_order_feed sid request side type e"
    by (simp add: e' as report_trades_actions new_order_feed_def Let_def b_def [symmetric]
        del: do_action.simps action_feeds.simps(10))
qed

lemma market_accept_reacts:
  fixes sid :: SessionId
  assumes inv: "engine_inv e" and acc: "acceptable request side type" and ids: "ids_left e"
  shows "reacts (market_accept (symbol e) sid request side type (market_of e)) (begin_accept sid request side type e)"
proof -
  let ?x = "next_address e" and ?n = "nextOrderId e"
  let ?ord = "incoming_order sid request side type e"
  let ?b0 = "new_order ?x ?ord (orderbook e)" and ?e' = "accept_order sid request side type e"
  define b where "b = AddOrder ?x ?b0"
  note ok = acceptable_valid [OF acc]
  note ins = incoming_insertable [OF inv ok, of sid]
  note eff = accept_order_effect [OF inv ok ids, of sid, unfolded admitted_orderbook, folded b_def]
  obtain fs r where "refines_add ?x ?b0 b fs r"
    using AddOrder_keeps(2) [OF ins(1,3)] by (auto simp: b_def)
  moreover have side: "side = BUY \<or> side = SELL" and aggressive: "isAggressiveOrder ?ord \<longleftrightarrow> type \<noteq> LIMIT"
    using acc by (auto simp: acceptable_def isAggressiveOrder_def)
  moreover have "crossed ?ord = takes_price side type (nor_price request)"
    using crossed_takes_price [of ?ord] side by simp
  ultimately have spec: "spec_add side (takes_price side type (nor_price request)) (type = LIMIT)
      \<lparr>e_price = nor_price request, e_id = ?n, e_qty = unat (nor_quantity request)\<rparr> (book_abs (orderbook e)) =
      (fs, unat r, book_abs b)"
    and ts: "trades b = map (trade_of side ?n) fs" and fin: "obj b ?x = final_order ?ord r"
    by (simp_all add: refines_add_def Let_def frame_simps ins(2) entry_def)
  let ?rests = "type = LIMIT \<and> 0 < unat r"
  have new: "getOrderStatus ?ord = NEW" by (simp add: incoming_order_def)
  have status: "getOrderStatus (obj b ?x) = status_after type (unat (nor_quantity request)) (unat r)"
    and leaves: "getQuantity (obj b ?x) = (if ?rests then r else 0)"
    using aggressive new
    by (auto simp: fin final_order_def status_after_def unat_eq_0 unat_gt_0 word_less_nat_alt)
  have "orders b ?n = None \<longleftrightarrow> \<not> ?rests"
    using admitted_done [OF inv ok ids, of sid, unfolded admitted_orderbook, folded b_def] status leaves
    by (auto simp: isFilled_def status_after_def unat_eq_0 unat_gt_0 split: if_splits)
  with fresh_id(1) [OF inv] have owner: "orderToSession ?e' =
      (if ?rests then (orderToSession e)(?n \<mapsto> sid) else orderToSession e)"
    by (auto simp: eff(7) fun_upd_idem)
  let ?M = "with_trades (trades b) ((market_of e)\<lparr>mk_book := book_abs b, mk_orderId := ?n + 1,
    mk_tradeId := nextTradeId e + word_of_nat (2 * length fs),
    mk_owner := if ?rests then (orderToSession e)(?n \<mapsto> sid) else orderToSession e\<rparr>)"
  have M: "market_of ?e' = ?M"
    using eff(2,5,6) owner
    by (simp add: market_of_def with_trades_def trade_counters_def ts)
  have binv: "book_inv {} b" using engine_invD(1) [OF eff(1)] eff(2) by simp
  have tick: "tick_update (symbol e) (last_price (lastTradePrice e) (trades b))
      (last_qty (lastTradeQty e) (trades b)) b = market_tick (symbol e) ?M"
    using tick_is_market_tick [OF binv, of ?M "symbol e"] by (simp add: with_trades_def)
  have "market_accept (symbol e) sid request side type (market_of e) =
     (new_order_messages sid request side type e, new_order_feed sid request side type e, ?M)"
    using tick
    by (simp add: market_accept_def spec Let_def new_order_messages_def new_order_feed_def
        admitted_orderbook b_def [symmetric] status leaves ts)
  moreover obtain e' as where started: "begin_accept sid request side type e = (e', as)" by (rule prod.exhaust)
  moreover have "run_actions as e' = accept_order sid request side type e"
    using begin_accept_run [of sid request side type e] by (simp add: started)
  ultimately show ?thesis using accept_says [OF inv ok started] M by (simp add: reacts_def)
qed

lemma market_of_processed [simp]: "market_of (e\<lparr>ordersProcessed := n\<rparr>) = market_of e"
  by (simp add: market_of_def)

lemma market_new_reacts:
  fixes sid :: SessionId
  assumes "engine_inv e" and "ids_left e"
  shows "reacts (market_new (symbol e) sid request (market_of e)) (begin_new_order sid request e)"
proof -
  let ?e = "e\<lparr>ordersProcessed := ordersProcessed e + 1\<rparr>"
  show ?thesis
  proof (cases "order_fault request")
    case None
    then obtain side type where acc: "acceptable request side type" by (rule order_fault_none)
    have "BuySell_cast (nor_side request) = Some side" "OrderType_cast (nor_orderType request) = Some type"
      using acc by (simp_all add: cast_code_iff acceptable_def)
    with None market_accept_reacts [OF _ acc, of ?e sid] assms show ?thesis
      by (simp add: market_new_def begin_new_order_accepts [OF acc])
  next
    case (Some reason)
    then show ?thesis
      using reacts_rejects(1) [of sid "nor_clientOrderId request" reason ?e]
      by (simp add: market_new_def begin_new_order_eq)
  qed
qed

section \<open>Cancelling and modifying\<close>

lemma permitted_may_touch: "permitted sid i (market_of e) = may_touch sid i e"
  by (simp add: permitted_def may_touch_def split: option.split)

lemma CancelOrder_trades: "trades (CancelOrder i b) = trades b"
  by (simp add: CancelOrder_def frame_simps clearOrderRecord_def Let_def split: option.split)

lemma market_cancel_reacts:
  fixes sid :: SessionId
  assumes inv: "engine_inv e"
  shows "reacts (market_cancel (symbol e) sid request (market_of e)) (begin_cancel sid request e)"
proof (cases "may_touch sid (cor_orderId request) e")
  case True
  let ?i = "cor_orderId request" and ?cid = "cor_clientOrderId request"
  obtain s where s: "orderToSession e ?i = Some s" "\<not> (s \<noteq> sid \<and> sid \<noteq> DUMMY_SESSION_ID)"
    using True by (auto simp: may_touch_def)
  let ?b = "CancelOrder ?i (orderbook e)"
  let ?e1 = "untrack_order s ?i (e\<lparr>orderbook := ?b\<rparr>)"
  let ?M = "(market_of e)\<lparr>mk_book := spec_cancel ?i (book_abs (orderbook e)),
    mk_owner := (orderToSession e)(?i := None)\<rparr>"
  have started: "begin_cancel sid request e = (?e1, [AckCancel sid ?cid ?i, PublishTick])"
    using s by (auto simp: begin_cancel_def)
  have book: "book_abs ?b = spec_cancel ?i (book_abs (orderbook e))"
    by (rule CancelOrder_keeps(2) [OF engine_invD(1) [OF inv]])
  have e1: "orderbook ?e1 = ?b" "symbol ?e1 = symbol e" "lastTradePrice ?e1 = lastTradePrice e"
    "lastTradeQty ?e1 = lastTradeQty e" by (simp_all add: untrack_order_def)
  have "market_of ?e1 = ?M" by (simp add: market_of_def book CancelOrder_trades untrack_order_def)
  moreover have "market_of (publishTickUpdate (sendCancelAck sid ?cid ?i ?e1)) = market_of ?e1"
    using says_trans [OF says_sendCancelAck says_publishTickUpdate, of ?e1 sid ?cid ?i]
    by (intro says_market) simp_all
  moreover have "orderbook (sendCancelAck sid ?cid ?i ?e1) = ?b"
    using says_sendCancelAck [of ?e1 sid ?cid ?i] by (simp add: says_def same_books_def e1)
  moreover have "book_inv {} ?b" by (rule ob.cancel_inv [OF engine_invD(1) [OF inv]])
  then have "tick_update (symbol e) (lastTradePrice e) (lastTradeQty e) ?b = market_tick (symbol e) ?M"
    using tick_is_market_tick [of _ ?b ?M] by (simp add: book)
  ultimately show ?thesis
    using True by (simp add: reacts_def started market_cancel_def permitted_may_touch Let_def e1)
next
  case False
  then have "begin_cancel sid request e =
      (e, [RejectCancel sid (cor_clientOrderId request) (cor_orderId request) ORDER_NOT_FOUND])"
    by (auto simp: begin_cancel_def may_touch_def Let_def split: option.split)
  with False show ?thesis by (simp add: market_cancel_def permitted_may_touch Let_def)
qed

lemma ModifyOrder_is_spec_modify:
  assumes inv: "book_inv {} b" and nq: "0 < nq"
  shows "spec_modify i np nq (trades b) (book_abs b) =
    (trades (ModifyOrder i np nq b), book_abs (ModifyOrder i np nq b))"
proof (cases "orders b i")
  case None
  then show ?thesis by (simp add: spec_modify_def locate_unindexed [OF inv] ModifyOrder_noop(1))
next
  case (Some x)
  note x = book_inv_obj_indexed [OF inv Some] and loc = locate_indexed [OF inv Some]
  show ?thesis
  proof (cases "getPrice (obj b x) = np \<and> getQuantity (obj b x) = nq")
    case True
    then show ?thesis
      using x(1) Some by (simp add: spec_modify_def loc entry_def ModifyOrder_noop(2))
  next
    case False
    let ?ord = "modified_order np nq (obj b x)"
    have "crossed ?ord = takes_price (getBuySell (obj b x)) LIMIT np"
      using x(4,5) by (auto simp: crossed_takes_price modified_order_def takes_price_def isAggressiveOrder_def)
    with ModifyOrder_changes(2) [OF inv Some nq False] False show ?thesis
      by (auto simp: spec_modify_def loc entry_def modified_order_def word_unat_eq_iff)
  qed
qed

lemma market_modify_reacts:
  fixes sid :: SessionId
  assumes inv: "engine_inv e"
  shows "reacts (market_modify (symbol e) sid request (market_of e)) (begin_modify sid request e)"
proof (cases "may_touch sid (mor_orderId request) e \<and> modifiable request")
  case True
  let ?i = "mor_orderId request" and ?np = "mor_newPrice request" and ?nq = "mor_newQuantity request"
  let ?cid = "mor_clientOrderId request"
  define b where "b = ModifyOrder ?i ?np ?nq (orderbook e)"
  let ?e1 = "e\<lparr>orderbook := b\<rparr>" and ?e2 = "fold (report_modify_trade ?i) (trades b) (e\<lparr>orderbook := b\<rparr>)"
  let ?e3 = "sendModifyAck sid ?cid ?i ?np ?nq ?e2"
  have started: "begin_modify sid request e =
      (?e1, map (\<lambda>t. PublishTrade t (if buyOrderId t = ?i then BUY else SELL)) (trades b) @
        [AckModify sid ?cid ?i ?np ?nq, PublishTick])"
    using True by (auto simp: begin_modify_def may_touch_def modifiable_def b_def GetRecentTrades_def Let_def)
  have spec: "spec_modify ?i ?np ?nq (trades (orderbook e)) (book_abs (orderbook e)) = (trades b, book_abs b)"
    using ModifyOrder_is_spec_modify [OF engine_invD(1) [OF inv]] True
    by (simp add: b_def modifiable_def word_neq_0_conv)
  let ?M = "with_trades (trades b) ((market_of e)\<lparr>mk_book := book_abs b\<rparr>)"
  note rep = report_modify_trades_says [of ?e1 ?i "trades b"]
  have e2: "orderbook ?e2 = b" "symbol ?e2 = symbol e" "nextTradeId ?e2 = nextTradeId e"
    "lastTradePrice ?e2 = last_price (lastTradePrice e) (trades b)"
    "lastTradeQty ?e2 = last_qty (lastTradeQty e) (trades b)"
    "nextOrderId ?e2 = nextOrderId e" "orderToSession ?e2 = orderToSession e"
    using rep by (simp_all add: says_def same_books_def trade_counters_def)
  have "market_of (publishTickUpdate ?e3) = market_of ?e2"
    using says_trans [OF says_sendModifyAck says_publishTickUpdate, of ?e2 sid ?cid ?i ?np ?nq]
    by (intro says_market) simp_all
  moreover have "market_of ?e2 = ?M" by (simp add: market_of_def e2 with_trades_def)
  moreover have "orderbook ?e3 = b"
    using says_sendModifyAck [of ?e2 sid ?cid ?i ?np ?nq] by (simp add: says_def same_books_def e2)
  moreover have "book_inv {} b"
    using engine_invD(1) [OF modified_book_keeps [OF inv]] True by (simp add: b_def modifiable_def word_neq_0_conv)
  then have "tick_update (symbol e) (last_price (lastTradePrice e) (trades b))
      (last_qty (lastTradeQty e) (trades b)) b = market_tick (symbol e) ?M"
    using tick_is_market_tick [of _ b ?M] by (simp add: with_trades_def)
  ultimately show ?thesis
    using True modify_actions_say [of ?i "trades b" ?e1]
    by (simp add: reacts_def started market_modify_def permitted_may_touch modifiable_def spec Let_def
        modify_trades_actions e2)
next
  case False
  then consider "\<not> may_touch sid (mor_orderId request) e"
    | "may_touch sid (mor_orderId request) e" "\<not> modifiable request" by blast
  then show ?thesis
    by cases (auto simp: begin_modify_def market_modify_def permitted_may_touch may_touch_def modifiable_def Let_def
        split: option.split)
qed

section \<open>Every request\<close>

lemma market_step_reacts:
  assumes "engine_inv e" and "ids_left e"
  shows "reacts (market_step (symbol e) msg (market_of e)) (begin_message msg e)"
  using market_new_reacts [OF assms] market_cancel_reacts [OF assms(1)] market_modify_reacts [OF assms(1)]
  by (simp add: market_step_def begin_message_def split: InboundBody.split)

text \<open>What a handler has to say once it has begun is what the market says.\<close>

lemma begin_market_step:
  assumes "engine_inv e" and "ids_left e" and "begin_message msg e = (e', as)"
    and "market_step (symbol e) msg (market_of e) = (outs, feeds, M)"
  shows "todo_outs as e' = outs" and "todo_feeds as e' = feeds" and "market_of (run_actions as e') = M"
  using market_step_reacts [OF assms(1,2), of msg] assms(3,4) by (simp_all add: reacts_def)

lemma engine_market_step:
  assumes inv: "engine_inv e" and ids: "ids_left e"
    and step: "market_step (symbol e) msg (market_of e) = (outs, feeds, M)"
  defines "e' \<equiv> processInboundMessage msg e"
  shows "market_of e' = M" and "symbol e' = symbol e"
    and "outbound_log e' = take outbound_room (outbound_log e @ outs)"
    and "feed_log e' = take feed_room (feed_log e @ feeds)"
proof -
  obtain f as where started: "begin_message msg e = (f, as)" by (rule prod.exhaust)
  note B = begin_market_step [OF inv ids started step] and F = begin_message_frame [OF started]
  have run: "e' = run_actions as f" by (simp add: e'_def begin_message_finish [OF started])
  have "emits e [] [] f" by (rule emits_silent) (simp_all add: F)
  from emits_trans [OF this todo_emits [of f as]] have em: "emits e outs feeds e'" by (simp add: B run)
  have "inboundQueue e' = inboundQueue e" by (simp add: run F)
  from says_log [OF engine_invD(4) [OF inv] em this]
  show "outbound_log e' = take outbound_room (outbound_log e @ outs)"
    "feed_log e' = take feed_room (feed_log e @ feeds)" by simp_all
  show "market_of e' = M" "symbol e' = symbol e" by (simp_all add: run B F)
qed

text \<open>
  Property C5. The engine refines the market: every request changes the engine's book, owner
  table, counters and last trade exactly as the market says, and the engine queues exactly the
  responses and the market data of the market behind what is already queued, as far as there is
  room. The market has no levels, pointers, order objects, clocks or queues: everything about an
  answer follows from the requests alone.
\<close>

theorem engine_refines_market:
  assumes "engine_reachable e" and "ids_left e"
    and "market_step (symbol e) msg (market_of e) = (outs, feeds, M)"
  defines "e' \<equiv> processInboundMessage msg e"
  shows "market_of e' = M \<and> symbol e' = symbol e \<and>
    outbound_log e' = take outbound_room (outbound_log e @ outs) \<and>
    feed_log e' = take feed_room (feed_log e @ feeds)"
  unfolding e'_def
  using engine_market_step [OF reachable_engine_inv [OF assms(1)] assms(2,3)] by simp

text \<open>
  Session 7 sells 5 at 100; session 8 buys 8 at 101 and gets the 5 at 100, and 3 rest at 101;
  session 8 then reduces them to 2.
\<close>

definition example_messages :: "InboundMessage list" where
  "example_messages =
     [\<lparr>im_sessionId = 7, im_body = NewOrderBody (example_request SELL LIMIT 100 5 70)\<rparr>,
      \<lparr>im_sessionId = 8, im_body = NewOrderBody (example_request BUY LIMIT 101 8 80)\<rparr>,
      \<lparr>im_sessionId = 8, im_body = ModifyOrderBody (example_modify 81 2 101 2)\<rparr>]"

lemmas market_defs = market_step_def market_new_def market_accept_def market_cancel_def market_modify_def
  with_trades_def order_fault_def new_market_def spec_add_def takes_price_def status_after_def
  permitted_def spec_modify_def locate_def spec_cancel_def insert_behind_def trade_of_def last_price_def
  last_qty_def example_request_def example_modify_def example_cancel_def market_tick_def shown_quote_def
  best_depth_def BuySell_cast_def OrderType_cast_def DUMMY_SESSION_ID_def resting_side_id_def

lemma example_market:
  "(case market_run name example_messages new_market of (reactions, M) \<Rightarrow>
     (map fst reactions, mk_book M, mk_lastPrice M, mk_lastQty M)) =
   ([[order_ack 7 70 1 NEW],
     [execution_report 8 2 1 100 5 3 BUY, execution_report 7 1 2 100 5 0 SELL, order_ack 8 80 2 MODIFY],
     [modify_ack 8 81 2 101 2]],
    \<lparr>bid_queue = [\<lparr>e_price = 101, e_id = 2, e_qty = 2\<rparr>], ask_queue = []\<rparr>, 100, 5)"
  by (simp add: example_messages_def market_defs Let_def)

theorem engine_refines_market_witness:
  "mk_book (market_of (processInboundMessage (example_messages ! 0) example_engine)) =
     \<lparr>bid_queue = [], ask_queue = [\<lparr>e_price = 100, e_id = 1, e_qty = 5\<rparr>]\<rparr> \<and>
   outbound_log (processInboundMessage (example_messages ! 0) example_engine) =
     take outbound_room (outbound_log example_engine @ [order_ack 7 70 1 NEW])"
proof -
  have "market_of example_engine = new_market" by (simp add: example_engine_def new_engine_market)
  moreover obtain outs feeds M where
    step: "market_step (symbol example_engine) (example_messages ! 0) new_market = (outs, feeds, M)"
    by (rule prod_cases3)
  moreover have "outs = [order_ack 7 70 1 NEW]"
    "mk_book M = \<lparr>bid_queue = [], ask_queue = [\<lparr>e_price = 100, e_id = 1, e_qty = 5\<rparr>]\<rparr>"
    using step by (auto simp: example_messages_def market_defs Let_def)
  ultimately show ?thesis
    using engine_refines_market [OF example_engine_reachable example_engine_fields(5)] by metis
qed

end
