(* ===== verification/Exchange_Trading.thy ===== *)
theory Exchange_Trading
  imports Exchange_Delivery Market_Refinement "HOL-Library.Sublist"
begin

text \<open>
  What one action of a handler adds to the queues, and how executions are put together from rounds
  of one thread: the server takes a request, the engine handles one to its end, the server sends
  what is queued. The last section uses these to build an execution in which two clients trade.
\<close>

section \<open>What is queued of an action\<close>

lemma action_says_one: "length (action_outs a e) \<le> 1" "length (action_feeds a e) \<le> 1"
  by (cases a; simp split: option.split) (cases a; simp)

text \<open>A full queue loses the message that is pushed.\<close>

lemma queued_push:
  assumes ok: "engine_ok e" and outq: "out_pending (do_action a e) = out_pending e @ rs"
    and feedq: "feed_pending (do_action a e) = feed_pending e @ ts"
  shows "subseq (map untimed_out rs) (action_outs a e)" and "subseq (map untimed_feed ts) (action_feeds a e)"
    and "\<not> queue_full e \<Longrightarrow> map untimed_out rs = action_outs a e \<and> map untimed_feed ts = action_feeds a e"
proof -
  note q = engine_invD(4) [OF engine_okD(1) [OF ok]]
  have "outbound_log (do_action a e) = take outbound_room (outbound_log e @ action_outs a e)"
    "feed_log (do_action a e) = take feed_room (feed_log e @ action_feeds a e)"
    using says_log(2,3) [OF q do_action_emits] by simp_all
  then have logs: "map untimed_out (out_pending e) @ map untimed_out rs =
      take outbound_room (map untimed_out (out_pending e) @ action_outs a e)"
    "map untimed_feed (feed_pending e) @ map untimed_feed ts =
      take feed_room (map untimed_feed (feed_pending e) @ action_feeds a e)"
    using outq feedq by (simp_all add: outbound_log_def feed_log_def out_pending_def feed_pending_def)
  have "length (out_pending e) \<le> outbound_room" "length (feed_pending e) \<le> feed_room"
    using outbound.length_bound [of "outboundQueue e"] feed.length_bound [of "feedQueue e"] q
    by (simp_all add: queues_ok_def out_pending_def feed_pending_def OUTBOUND_QUEUE_SIZE_def
        FEED_QUEUE_SIZE_def outbound_room_def feed_room_def)
  with logs have queued: "map untimed_out rs = take (outbound_room - length (out_pending e)) (action_outs a e)"
    "map untimed_feed ts = take (feed_room - length (feed_pending e)) (action_feeds a e)"
    by simp_all
  show "subseq (map untimed_out rs) (action_outs a e)" "subseq (map untimed_feed ts) (action_feeds a e)"
    unfolding queued by (simp_all add: prefix_imp_subseq take_is_prefix)
  assume "\<not> queue_full e"
  then have "1 \<le> outbound_room - length (out_pending e)" "1 \<le> feed_room - length (feed_pending e)"
    by (simp_all add: queue_full_def not_le Suc_le_eq)
  with action_says_one [of a e] show "map untimed_out rs = action_outs a e \<and> map untimed_feed ts = action_feeds a e"
    unfolding queued by simp
qed

section \<open>Rounds of one thread\<close>

lemma history_engine_ok:
  "exchange_history fl h x \<Longrightarrow> rounding_ok fl \<Longrightarrow> engine_ok (matchingEngine x)"
  using state_okD(1) [OF reachable_inv [OF history_reachable]] .

lemma market_of_private: "same_private e e' \<Longrightarrow> market_of e' = market_of e"
  by (simp add: market_of_def same_privateD)

lemma popped_private: "pop_inbound e = (m, e') \<Longrightarrow> same_private e e'"
  by (auto simp: pop_inbound_def split_beta)

text \<open>The engine does what is left of its handler; there is room for all that it says.\<close>

lemma handler_finishes:
  assumes "exchange_history fl h x" and "rounding_ok fl" and "lasting x" and "\<not> h_overflow h"
    and "engine_todo x = actions"
    and "length (out_pending (matchingEngine x)) + length (todo_outs actions (matchingEngine x)) < outbound_room"
    and "length (feed_pending (matchingEngine x)) + length (todo_feeds actions (matchingEngine x)) < feed_room"
  shows "\<exists>h'. exchange_history fl h' (x\<lparr>matchingEngine := run_actions actions (matchingEngine x), engine_todo := []\<rparr>) \<and>
    \<not> h_overflow h' \<and> map fst (h_answers h') = map fst (h_answers h) \<and>
    h_sent h' = h_sent h \<and> h_published h' = h_published h \<and>
    length (out_pending (run_actions actions (matchingEngine x))) =
      length (out_pending (matchingEngine x)) + length (todo_outs actions (matchingEngine x)) \<and>
    length (feed_pending (run_actions actions (matchingEngine x))) =
      length (feed_pending (matchingEngine x)) + length (todo_feeds actions (matchingEngine x))"
  using assms(1,3-)
proof (induction actions arbitrary: h x)
  case Nil
  then have same: "x\<lparr>matchingEngine := run_actions [] (matchingEngine x), engine_todo := []\<rparr> = x" by simp
  show ?case unfolding same using Nil by auto
next
  case (Cons a actions)
  let ?e = "matchingEngine x"
  define y where "y = x\<lparr>matchingEngine := do_action a ?e, engine_todo := actions\<rparr>"
  have ok: "engine_ok ?e" by (rule history_engine_ok [OF Cons.prems(1) assms(2)])
  obtain rs ts where q: "out_pending (do_action a ?e) = out_pending ?e @ rs"
    "feed_pending (do_action a ?e) = feed_pending ?e @ ts"
    using action_appends [OF ok subset_UNIV subset_UNIV, of a] by blast
  have room: "\<not> queue_full ?e" using Cons.prems(5,6) by (simp add: queue_full_def)
  then have one: "length rs = length (action_outs a ?e)" "length ts = length (action_feeds a ?e)"
    using arg_cong [OF conjunct1 [OF queued_push(3) [OF ok q room]], of length]
      arg_cong [OF conjunct2 [OF queued_push(3) [OF ok q room]], of length] by simp_all
  have obs: "observe MatchingThread x y h =
      h\<lparr>h_answers := add_to_last rs ts (h_answers h), h_overflow := h_overflow h \<or> queue_full ?e\<rparr>"
    by (rule observe_push) (simp_all add: Cons.prems(4) y_def q)
  have "exchange_step fl MatchingThread x y" unfolding y_def by (rule engine_push [OF Cons.prems(4)])
  with Cons.prems(1,2) have run: "exchange_history fl (observe MatchingThread x y h) y" by (rule history_stepped)
  have "lasting y" using Cons.prems(2) by (simp add: lasting_def ids_left_def y_def)
  moreover have "\<not> h_overflow (observe MatchingThread x y h)" using Cons.prems(3) room by (simp add: obs)
  ultimately obtain h' where "exchange_history fl h' (y\<lparr>matchingEngine := run_actions actions (matchingEngine y), engine_todo := []\<rparr>)"
    "\<not> h_overflow h'" "map fst (h_answers h') = map fst (h_answers (observe MatchingThread x y h))"
    "h_sent h' = h_sent (observe MatchingThread x y h)" "h_published h' = h_published (observe MatchingThread x y h)"
    "length (out_pending (run_actions actions (matchingEngine y))) =
      length (out_pending (matchingEngine y)) + length (todo_outs actions (matchingEngine y))"
    "length (feed_pending (run_actions actions (matchingEngine y))) =
      length (feed_pending (matchingEngine y)) + length (todo_feeds actions (matchingEngine y))"
    using Cons.IH [OF run] Cons.prems(5,6) by (auto simp: y_def q one)
  moreover have "map fst (add_to_last rs ts (h_answers h)) = map fst (h_answers h)"
    by (cases "h_answers h = []") (simp_all add: queued_more)
  ultimately show ?case unfolding obs by (intro exI [of _ h']) (simp add: q one y_def)
qed

text \<open>The engine takes the next request and handles it to its end.\<close>

lemma engine_handles:
  assumes run: "exchange_history fl h x" and fl: "rounding_ok fl" and left: "lasting x" and "\<not> h_overflow h"
    and pc: "engine_pc x = EngineDrain" "engine_todo x = []"
    and next_one: "pending (matchingEngine x) = m # ms"
    and step: "market_step (symbol (matchingEngine x)) m (market_of (matchingEngine x)) = (outs, feeds, M)"
    and room: "length (out_pending (matchingEngine x)) + length outs < outbound_room"
      "length (feed_pending (matchingEngine x)) + length feeds < feed_room"
    and ids: "mk_orderId M + 1 \<noteq> 0"
  obtains h' e where "exchange_history fl h' (x\<lparr>matchingEngine := e\<rparr>)" "lasting (x\<lparr>matchingEngine := e\<rparr>)"
    "\<not> h_overflow h'" "map fst (h_answers h') = map fst (h_answers h) @ [m]" "pending e = ms"
    "h_sent h' = h_sent h" "h_published h' = h_published h"
    "market_of e = M" "symbol e = symbol (matchingEngine x)"
    "length (out_pending e) = length (out_pending (matchingEngine x)) + length outs"
    "length (feed_pending e) = length (feed_pending (matchingEngine x)) + length feeds"
proof -
  have ok: "engine_ok (matchingEngine x)" by (rule history_engine_ok [OF run fl])
  obtain e1 where pop: "pop_inbound (matchingEngine x) = (Some m, e1)"
    using pop_inbound_pending(1) [OF engine_okD(1) [OF ok]] next_one by (metis list.simps(5) prod.collapse)
  obtain e2 actions where started: "begin_message m e1 = (e2, actions)" by (rule prod.exhaust)
  note P = popped_request [OF engine_okD(1) [OF ok] pop] and same = popped_private [OF pop]
    and F = begin_message_frame [OF started]
  have ids1: "ids_left e1" using left same_privateD(3) [OF same] by (simp add: lasting_def ids_left_def)
  have B: "todo_outs actions e2 = outs" "todo_feeds actions e2 = feeds" "market_of (run_actions actions e2) = M"
    using begin_market_step [OF engine_okD(1) [OF engine_ok_inbound(1) [OF ok pop]] ids1 started]
      step same_privateD(2) [OF same] market_of_private [OF same] by simp_all
  define y where "y = x\<lparr>matchingEngine := e2, engine_todo := actions\<rparr>"
  let ?h = "h\<lparr>h_answers := h_answers h @ [(m, [], [])]\<rparr>"
  obtain T where "delivery_inv T h x" using history_delivery [OF run fl] by blast
  from delivery_engine_message(1) [OF this ok pop started]
  have obs: "observe MatchingThread x y h = ?h" by (simp add: y_def)
  have "exchange_step fl MatchingThread x y"
    unfolding y_def by (rule engine_message [OF _ pc(2) pop started]) (simp add: pc)
  from history_stepped [OF run left this] have run2: "exchange_history fl ?h y" by (simp add: obs)
  have "nextOrderId e2 = mk_orderId M" using arg_cong [OF B(3), of mk_orderId] by (simp add: market_of_def)
  then have lasts: "lasting (x\<lparr>matchingEngine := e\<rparr>)" if "nextOrderId e = nextOrderId e2" for e
    using left ids that by (simp add: lasting_def ids_left_def)
  have queues: "out_pending e2 = out_pending (matchingEngine x)" "feed_pending e2 = feed_pending (matchingEngine x)"
    "pending e2 = ms" "symbol e2 = symbol (matchingEngine x)"
    using P F next_one same_privateD(2) [OF same] by (simp_all add: out_pending_def feed_pending_def pending_def)
  have "lasting y" using lasts [of e2] by (simp add: lasting_def y_def)
  from handler_finishes [OF run2 fl this, of actions] assms(4) obtain h' where
    "exchange_history fl h' (y\<lparr>matchingEngine := run_actions actions e2, engine_todo := []\<rparr>)" "\<not> h_overflow h'"
    "map fst (h_answers h') = map fst (h_answers h) @ [m]" "h_sent h' = h_sent h" "h_published h' = h_published h"
    "length (out_pending (run_actions actions e2)) = length (out_pending e2) + length outs"
    "length (feed_pending (run_actions actions e2)) = length (feed_pending e2) + length feeds"
    using room by (auto simp: y_def B queues)
  moreover have "y\<lparr>matchingEngine := run_actions actions e2, engine_todo := []\<rparr> =
      x\<lparr>matchingEngine := run_actions actions e2\<rparr>"
    using pc(2) by (simp add: y_def)
  ultimately show thesis
    by (intro that [of h' "run_actions actions e2"]) (simp_all add: lasts B queues pending_def [symmetric],
        use queues(3) in \<open>simp add: pending_def\<close>)
qed

text \<open>The server receives one request.\<close>

lemma server_hears:
  assumes run: "exchange_history fl h x" and fl: "rounding_ok fl" and left: "lasting x"
    and pc: "server_pc x = ServerCheck" "zs_running (zmqServer x)" "identity \<noteq> []"
    and conn: "connectClient identity (zmqServer x) (sessionManager x) = (zs, sm)" "sessions_left sm"
    and zs: "zs_identityToSession zs identity = Some sid"
    and framed: "mh_type (request_header body) = request_type body"
      "unat (mh_length (request_header body)) \<le> length (put_request body)"
    and room: "length (pending (matchingEngine x)) < 65535"
  obtains h' e where
    "exchange_history fl h' (x\<lparr>zmqServer := zs, sessionManager := sm, matchingEngine := e, server_pc := ServerOutbound\<rparr>)"
    "lasting (x\<lparr>zmqServer := zs, sessionManager := sm, matchingEngine := e, server_pc := ServerOutbound\<rparr>)"
    "same_private (matchingEngine x) e" "running e = running (matchingEngine x)"
    "pending e = pending (matchingEngine x) @ [\<lparr>im_sessionId = sid, im_body = body\<rparr>]"
    "out_pending e = out_pending (matchingEngine x)" "feed_pending e = feed_pending (matchingEngine x)"
    "h_answers h' = h_answers h" "h_overflow h' = h_overflow h" "h_sent h' = h_sent h" "h_published h' = h_published h"
proof -
  let ?m = "\<lparr>im_sessionId = sid, im_body = body\<rparr>"
  let ?e = "push_inbound ?m (matchingEngine x)"
  define y where "y = x\<lparr>server_pc := ServerIncoming\<rparr>"
  define z where "z = x\<lparr>zmqServer := zs, sessionManager := sm, matchingEngine := ?e, server_pc := ServerOutbound\<rparr>"
  have ok: "engine_inv (matchingEngine x)" by (rule engine_okD(1) [OF history_engine_ok [OF run fl]])
  then have "\<not> producerLock (inboundQueue (matchingEngine x))"
    using engine_invD(4) by (auto simp: queues_ok_def mpsc_inv_def)
  then obtain okay q where push: "mpsc_push INBOUND_QUEUE_SIZE ?m (inboundQueue (matchingEngine x)) = Some (okay, q)"
    by (simp add: mpsc_push_spsc) (metis prod.exhaust)
  have "processIncoming (Some identity) (Some []) (Some (put_request body)) (zmqServer y) (sessionManager y)
      (inboundQueue (matchingEngine y)) = Some (zs, sm, q)"
    using conn parse_put_request [OF zs framed] push pc(3)
    by (simp add: processIncoming_def routeToInbound_def y_def)
  from server_receive [OF _ this, of fl] mpsc_push_inbound [OF push] have step: "exchange_step fl ServerThread y z"
    by (simp add: y_def z_def)
  have "exchange_step fl ServerThread x y" using server_look [OF pc(1), of fl] pc(2) by (simp add: y_def)
  from history_stepped [OF run left this] have "exchange_history fl (observe ServerThread x y h) y" .
  moreover have "lasting y" using left by (simp add: lasting_def y_def)
  ultimately have run2: "exchange_history fl (observe ServerThread y z (observe ServerThread x y h)) z"
    by (rule history_stepped) (rule step)
  have "lasting z" using left conn(2) by (simp add: lasting_def ids_left_def z_def push_inbound_def)
  moreover have "pending ?e = pending (matchingEngine x) @ [?m]"
    using push_inbound_pending [OF ok, of "[?m]"] room by simp
  ultimately show thesis
    using run2 by (intro that [of "observe ServerThread y z (observe ServerThread x y h)" ?e])
      (simp_all add: y_def z_def push_inbound_def out_pending_def feed_pending_def observe_def Let_def)
qed

text \<open>The server finds nothing more to send.\<close>

lemma server_done_sending:
  assumes run: "exchange_history fl h x" and fl: "rounding_ok fl" and left: "lasting x"
    and pc: "server_pc x = ServerOutbound" and none: "out_pending (matchingEngine x) = []"
  obtains h' where "exchange_history fl h' (x\<lparr>server_pc := ServerCheck\<rparr>)" "lasting (x\<lparr>server_pc := ServerCheck\<rparr>)"
    "h_answers h' = h_answers h" "h_overflow h' = h_overflow h" "h_sent h' = h_sent h" "h_published h' = h_published h"
proof -
  let ?e = "matchingEngine x" and ?y = "x\<lparr>server_pc := ServerCheck\<rparr>"
  obtain m q where pop: "getOutboundMessage (outboundQueue ?e) = (m, q)" by (rule prod.exhaust)
  with popped_response [OF history_engine_ok [OF run fl] pop] none have "m = None" by (cases m) simp_all
  moreover from this pop have "q = outboundQueue ?e"
    by (auto simp: getOutboundMessage_def spsc_pop_def Let_def split: if_splits)
  ultimately have "exchange_step fl ServerThread x ?y"
    using server_sent [OF pc, of q fl] pop by simp
  from history_stepped [OF run left this] left show thesis
    by (intro that [of "observe ServerThread x ?y h"]) (simp_all add: lasting_def observe_def Let_def)
qed

text \<open>The server sends all that is queued; \<open>accepted\<close> of the sends of each response return.\<close>

lemma server_sends_all:
  fixes accepted :: "nat \<Rightarrow> nat"
  assumes "exchange_history fl h x" and "rounding_ok fl" and "lasting x" and "server_pc x = ServerOutbound"
    and "out_pending (matchingEngine x) = ms"
  shows "\<exists>h' zs e. exchange_history fl h' (x\<lparr>zmqServer := zs, matchingEngine := e\<rparr>) \<and> out_pending e = [] \<and>
    h_answers h' = h_answers h \<and> h_overflow h' = h_overflow h \<and> h_published h' = h_published h \<and>
    h_sent h' = h_sent h @ map (\<lambda>(m, k). (m, 3 \<le> k \<and> zs_sessionToIdentity (zmqServer x) (om_sessionId m) \<noteq> None))
      (with_outcomes accepted ms) \<and>
    same_private (matchingEngine x) e \<and> feed_pending e = feed_pending (matchingEngine x) \<and>
    zs_sessionToIdentity zs = zs_sessionToIdentity (zmqServer x)"
  using assms(1,3-)
proof (induction ms arbitrary: h x accepted)
  case Nil
  have "same_private (matchingEngine x) (matchingEngine x)" by (simp add: same_private_def)
  moreover have same: "x\<lparr>zmqServer := zmqServer x, matchingEngine := matchingEngine x\<rparr> = x" by simp
  ultimately show ?case
    using Nil by (intro exI [of _ h] exI [of _ "zmqServer x"] exI [of _ "matchingEngine x"]) (unfold same, simp)
next
  case (Cons m ms)
  let ?e = "matchingEngine x" and ?T = "zs_sessionToIdentity (zmqServer x)"
  have ok: "engine_ok ?e" by (rule history_engine_ok [OF Cons.prems(1) assms(2)])
  then have "rb_inv OUTBOUND_QUEUE_SIZE (outboundQueue ?e)" using engine_okD(2) by (simp add: well_framed_def)
  from outbound.pop_some [OF this Cons.prems(4) [unfolded out_pending_def]] obtain q where
    pop: "getOutboundMessage (outboundQueue ?e) = (Some m, q)" by (auto simp: getOutboundMessage_def)
  define y where "y = x\<lparr>zmqServer := sendResponse m (accepted 0) (zmqServer x), matchingEngine := ?e\<lparr>outboundQueue := q\<rparr>\<rparr>"
  have rest: "out_pending (matchingEngine y) = ms"
    using popped_response [OF ok pop] Cons.prems(4) by (simp add: y_def)
  have "departed (out_pending ?e) (out_pending (matchingEngine y)) = [m]"
    unfolding Cons.prems(4) rest using moved(2) [of "[m]" ms] by simp
  moreover have "zs_wire (zmqServer y) \<noteq> zs_wire (zmqServer x) \<longleftrightarrow> 3 \<le> accepted 0 \<and> ?T (om_sessionId m) \<noteq> None"
    by (auto simp: y_def sendResponse_logs split: option.split)
  ultimately have obs: "h_sent (observe ServerThread x y h) = h_sent h @ [(m, 3 \<le> accepted 0 \<and> ?T (om_sessionId m) \<noteq> None)]"
    "h_answers (observe ServerThread x y h) = h_answers h" "h_overflow (observe ServerThread x y h) = h_overflow h"
    "h_published (observe ServerThread x y h) = h_published h"
    by (simp_all add: observe_def Let_def)
  have "exchange_step fl ServerThread x y" unfolding y_def by (rule server_send [OF Cons.prems(3) pop])
  with Cons.prems(1,2) have run: "exchange_history fl (observe ServerThread x y h) y" by (rule history_stepped)
  have last: "lasting y" "server_pc y = ServerOutbound"
    using Cons.prems(2,3) by (simp_all add: lasting_def ids_left_def y_def)
  obtain h' zs e where
    "exchange_history fl h' (y\<lparr>zmqServer := zs, matchingEngine := e\<rparr>)" "out_pending e = []"
    "h_answers h' = h_answers h" "h_overflow h' = h_overflow h" "h_published h' = h_published h"
    "h_sent h' = (h_sent h @ [(m, 3 \<le> accepted 0 \<and> ?T (om_sessionId m) \<noteq> None)]) @
      map (\<lambda>(m, k). (m, 3 \<le> k \<and> ?T (om_sessionId m) \<noteq> None)) (with_outcomes (\<lambda>n. accepted (Suc n)) ms)"
    "same_private (matchingEngine y) e" "feed_pending e = feed_pending (matchingEngine y)"
    "zs_sessionToIdentity zs = ?T"
    using Cons.IH [OF run last rest, of "\<lambda>n. accepted (Suc n)"] unfolding obs by (auto simp: y_def)
  then show ?case
    by (intro exI [of _ h'] exI [of _ zs] exI [of _ e]) (simp add: y_def same_private_def)
qed

text \<open>The feed thread publishes all that is queued.\<close>

lemma feed_publishes_all:
  assumes "exchange_history fl h x" and "rounding_ok fl" and "lasting x" and "feed_pc x = FeedDrain"
    and "feed_pending (matchingEngine x) = ms"
  shows "\<exists>h' e. exchange_history fl h' (x\<lparr>feedHandler := fold processMessage ms (feedHandler x), matchingEngine := e\<rparr>) \<and>
    feed_pending e = [] \<and> h_answers h' = h_answers h"
  using assms(1,3-)
proof (induction ms arbitrary: h x)
  case Nil
  have same: "x\<lparr>feedHandler := feedHandler x, matchingEngine := matchingEngine x\<rparr> = x" by simp
  show ?case
    using Nil by (intro exI [of _ h] exI [of _ "matchingEngine x"]) (simp add: same)
next
  case (Cons m ms)
  let ?e = "matchingEngine x"
  have ok: "engine_ok ?e" by (rule history_engine_ok [OF Cons.prems(1) assms(2)])
  then have "rb_inv FEED_QUEUE_SIZE (feedQueue ?e)" using engine_okD(2) by (simp add: well_framed_def)
  from feed.pop_some [OF this Cons.prems(4) [unfolded feed_pending_def]] obtain q where
    pop: "spsc_pop FEED_QUEUE_SIZE (feedQueue ?e) = (Some m, q)" by auto
  define y where "y = x\<lparr>feedHandler := processMessage m (feedHandler x), matchingEngine := ?e\<lparr>feedQueue := q\<rparr>\<rparr>"
  have rest: "feed_pending (matchingEngine y) = ms"
    using popped_feed [OF ok pop] Cons.prems(4) by (simp add: y_def)
  have "exchange_step fl FeedThread x y"
    unfolding y_def by (rule feed_message [OF _ pop]) (simp add: Cons.prems(3))
  with Cons.prems(1,2) have run: "exchange_history fl (observe FeedThread x y h) y" by (rule history_stepped)
  have "lasting y" "feed_pc y = FeedDrain"
    using Cons.prems(2,3) by (simp_all add: lasting_def ids_left_def y_def)
  from Cons.IH [OF run this rest] obtain h' e where
    "exchange_history fl h' (y\<lparr>feedHandler := fold processMessage ms (feedHandler y), matchingEngine := e\<rparr>)"
    "feed_pending e = []" "h_answers h' = h_answers h" by (auto simp: observe_def Let_def)
  then show ?case by (intro exI [of _ h'] exI [of _ e]) (simp add: y_def)
qed

section \<open>Two clients trade\<close>

text \<open>
  The client \<open>[65]\<close> offers 5 at 100; the client \<open>[66]\<close> bids for 8 at 101 and buys the 5.
\<close>

definition sell_body :: InboundBody where
  "sell_body = NewOrderBody (new_NewOrderRequest 0 70 (BuySell_code SELL) (OrderType_code LIMIT) 100 5)"

definition buy_body :: InboundBody where
  "buy_body = NewOrderBody (new_NewOrderRequest 0 80 (BuySell_code BUY) (OrderType_code LIMIT) 101 8)"

definition trading_messages :: "InboundMessage list" where
  "trading_messages = [\<lparr>im_sessionId = 1, im_body = sell_body\<rparr>, \<lparr>im_sessionId = 2, im_body = buy_body\<rparr>]"

lemma trading_framed:
  "mh_type (request_header sell_body) = request_type sell_body"
  "unat (mh_length (request_header sell_body)) \<le> length (put_request sell_body)"
  "mh_type (request_header buy_body) = request_type buy_body"
  "unat (mh_length (request_header buy_body)) \<le> length (put_request buy_body)"
  by (simp_all add: sell_body_def buy_body_def new_NewOrderRequest_def new_MessageHeader_def sizeof_defs)

lemma trading_market:
  obtains feeds1 M1 feeds2 M2 where
    "market_step name (trading_messages ! 0) new_market = ([order_ack 1 70 1 NEW], feeds1, M1)"
    "length feeds1 = 1" "mk_orderId M1 = 2"
    "market_step name (trading_messages ! 1) M1 =
      ([execution_report 2 2 1 100 5 3 BUY, execution_report 1 1 2 100 5 0 SELL, order_ack 2 80 2 MODIFY], feeds2, M2)"
    "length feeds2 = 2" "mk_orderId M2 = 3"
    "mk_book M2 = \<lparr>bid_queue = [\<lparr>e_price = 101, e_id = 2, e_qty = 3\<rparr>], ask_queue = []\<rparr>"
proof -
  obtain outs1 feeds1 M1 where one: "market_step name (trading_messages ! 0) new_market = (outs1, feeds1, M1)"
    by (rule prod_cases3)
  obtain outs2 feeds2 M2 where two: "market_step name (trading_messages ! 1) M1 = (outs2, feeds2, M2)"
    by (rule prod_cases3)
  have "outs1 = [order_ack 1 70 1 NEW]" "length feeds1 = 1" "mk_orderId M1 = 2"
    using one by (auto simp: trading_messages_def sell_body_def new_NewOrderRequest_def market_defs Let_def)
  moreover have "outs2 = [execution_report 2 2 1 100 5 3 BUY, execution_report 1 1 2 100 5 0 SELL, order_ack 2 80 2 MODIFY]"
    "length feeds2 = 2" "mk_orderId M2 = 3"
    "mk_book M2 = \<lparr>bid_queue = [\<lparr>e_price = 101, e_id = 2, e_qty = 3\<rparr>], ask_queue = []\<rparr>"
    using one two
    by (auto simp: trading_messages_def sell_body_def buy_body_def new_NewOrderRequest_def market_defs Let_def)
  ultimately show thesis using one two by (intro that) simp_all
qed

lemma trading_connections:
  obtains zs1 sm1 zs2 sm2 where
    "connectClient [65] (new_ZmqServer\<lparr>zs_running := True\<rparr>) (setDisconnectCallback new_SessionManager) = (zs1, sm1)"
    "sessions_left sm1" "zs_running zs1" "zs_identityToSession zs1 [65] = Some 1"
    "connectClient [66] zs1 sm1 = (zs2, sm2)" "sessions_left sm2" "zs_identityToSession zs2 [66] = Some 2"
    "zs_sessionToIdentity zs2 1 = Some [65]" "zs_sessionToIdentity zs2 2 = Some [66]" "zs_wire zs2 = []" "zs_failed zs2 = []"
proof -
  obtain zs1 sm1 where one: "connectClient [65] (new_ZmqServer\<lparr>zs_running := True\<rparr>)
      (setDisconnectCallback new_SessionManager) = (zs1, sm1)" by (rule prod.exhaust)
  obtain zs2 sm2 where two: "connectClient [66] zs1 sm1 = (zs2, sm2)" by (rule prod.exhaust)
  show thesis
    by (rule that [OF one _ _ _ two])
      (use one two in \<open>auto simp: connectClient_def createSession_def new_ZmqServer_def new_SessionManager_def
        setDisconnectCallback_def Let_def sessions_left_def\<close>)
qed

text \<open>Both requests are accepted before the engine looks.\<close>

lemma trading_accepted:
  obtains h x where "exchange_history (\<lambda>r. r) h x" "lasting x" "server_pc x = ServerOutbound"
    "engine_pc x = EngineDrain" "engine_todo x = []" "h_answers h = []" "\<not> h_overflow h"
    "pending (matchingEngine x) = trading_messages" "out_pending (matchingEngine x) = []"
    "feed_pending (matchingEngine x) = []" "market_of (matchingEngine x) = new_market"
    "symbol (matchingEngine x) = to_bytes ''SYM1''" "h_sent h = []" "h_published h = []"
    "feedHandler x = feedHandler example_exchange" "feed_pc x = FeedCheck" "main_pc x = Waiting"
    "dummy_pc x = DummyOff" "zs_wire (zmqServer x) = []" "zs_failed (zmqServer x) = []"
    "zs_sessionToIdentity (zmqServer x) 1 = Some [65]" "zs_sessionToIdentity (zmqServer x) 2 = Some [66]"
proof -
  let ?x = example_exchange and ?name = "to_bytes ''SYM1''"
  obtain zs1 sm1 zs2 sm2 where
    c1: "connectClient [65] (zmqServer ?x) (sessionManager ?x) = (zs1, sm1)" "sessions_left sm1"
    and z1: "zs_running zs1" "zs_identityToSession zs1 [65] = Some 1"
    and c2: "connectClient [66] zs1 sm1 = (zs2, sm2)" "sessions_left sm2"
    and z2: "zs_identityToSession zs2 [66] = Some 2" "zs_sessionToIdentity zs2 1 = Some [65]"
      "zs_sessionToIdentity zs2 2 = Some [66]" "zs_wire zs2 = []" "zs_failed zs2 = []"
    by (rule trading_connections) (simp add: example_exchange_fields)
  have e0: "pending (matchingEngine ?x) = []" "out_pending (matchingEngine ?x) = []"
    "feed_pending (matchingEngine ?x) = []" "running (matchingEngine ?x)"
    "market_of (matchingEngine ?x) = new_market" "symbol (matchingEngine ?x) = ?name"
    "nextOrderId (matchingEngine ?x) = 1"
    using new_engine_market [of "mpsc_new default_InboundMessage" "spsc_new default_OutboundMessage"
        "spsc_new default_MarketDataMessage" ?name "\<lambda>_. 0"]
    by (simp_all add: example_exchange_fields market_of_def)
      (simp_all add: new_engine_def pending_def out_pending_def feed_pending_def rb_list_def rb_count_def mpsc_new_def spsc_new_def)
  have start: "exchange_history (\<lambda>r. r) no_history ?x" "lasting ?x"
    using history_started [OF example_main example_started] example_exchange_lasting by (simp_all add: lasting_def)
  let ?x1 = "\<lambda>e. ?x\<lparr>zmqServer := zs1, sessionManager := sm1, matchingEngine := e, server_pc := ServerOutbound\<rparr>"
  obtain h1 e1 where r1: "exchange_history (\<lambda>r. r) h1 (?x1 e1)" "lasting (?x1 e1)"
    and e1: "same_private (matchingEngine ?x) e1" "running e1" "pending e1 = [trading_messages ! 0]"
      "out_pending e1 = []" "feed_pending e1 = []"
    and h1: "h_answers h1 = []" "\<not> h_overflow h1" "h_sent h1 = []" "h_published h1 = []"
    by (rule server_hears [OF start(1) example_rounding start(2) _ _ _ c1 z1(2) trading_framed(1,2)])
      (simp_all add: e0 example_exchange_fields(3,5) no_history_def trading_messages_def)
  let ?x2 = "\<lambda>e. (?x1 e)\<lparr>server_pc := ServerCheck\<rparr>"
  obtain h2 where r2: "exchange_history (\<lambda>r. r) h2 (?x2 e1)" "lasting (?x2 e1)"
    and h2: "h_answers h2 = []" "\<not> h_overflow h2" "h_sent h2 = []" "h_published h2 = []"
    by (rule server_done_sending [OF r1(1) example_rounding r1(2)]) (simp_all add: e1 h1)
  let ?x3 = "\<lambda>e. (?x2 e)\<lparr>zmqServer := zs2, sessionManager := sm2, matchingEngine := e, server_pc := ServerOutbound\<rparr>"
  obtain h3 e3 where r3: "exchange_history (\<lambda>r. r) h3 (?x3 e3)" "lasting (?x3 e3)"
    and e3: "same_private e1 e3" "running e3" "pending e3 = trading_messages" "out_pending e3 = []" "feed_pending e3 = []"
    and h3: "h_answers h3 = []" "\<not> h_overflow h3" "h_sent h3 = []" "h_published h3 = []"
    by (rule server_hears [OF r2(1) example_rounding r2(2), of "[66]" zs2 sm2 2 buy_body])
      (simp_all add: e1 h2 c2 z1 z2 trading_framed trading_messages_def)
  let ?x4 = "(?x3 e3)\<lparr>engine_pc := EngineDrain\<rparr>"
  have "exchange_step (\<lambda>r. r) MatchingThread (?x3 e3) ?x4"
    using engine_look [of "?x3 e3" "\<lambda>r. r"] e3(2) by (simp add: example_exchange_fields(6))
  from history_stepped [OF r3 this] have r4: "exchange_history (\<lambda>r. r) (observe MatchingThread (?x3 e3) ?x4 h3) ?x4" .
  show thesis
    by (rule that [OF r4])
      (use r3(2) e0 e3 h3 z2 market_of_private [OF e1(1)] market_of_private [OF e3(1)]
        same_privateD(2,3) [OF e1(1)] same_privateD(2,3) [OF e3(1)]
        in \<open>simp_all add: lasting_def observe_def Let_def example_exchange_fields(4,7-9)\<close>)
qed

text \<open>The engine handles both.\<close>

lemma both_handled:
  assumes run: "exchange_history (\<lambda>r. r) h x" and left: "lasting x"
    and pc: "engine_pc x = EngineDrain" "engine_todo x = []" and h: "h_answers h = []" "\<not> h_overflow h"
    and e: "pending (matchingEngine x) = trading_messages" "out_pending (matchingEngine x) = []"
      "feed_pending (matchingEngine x) = []" "market_of (matchingEngine x) = new_market"
      "symbol (matchingEngine x) = to_bytes ''SYM1''"
  obtains h' e' where "exchange_history (\<lambda>r. r) h' (x\<lparr>matchingEngine := e'\<rparr>)" "lasting (x\<lparr>matchingEngine := e'\<rparr>)"
    "\<not> h_overflow h'" "map fst (h_answers h') = trading_messages" "pending e' = []" "symbol e' = to_bytes ''SYM1''"
    "h_sent h' = h_sent h" "h_published h' = h_published h" "length (feed_pending e') = 3" "nextOrderId e' = 3"
    "book_abs (orderbook e') = \<lparr>bid_queue = [\<lparr>e_price = 101, e_id = 2, e_qty = 3\<rparr>], ask_queue = []\<rparr>"
proof -
  let ?name = "to_bytes ''SYM1''"
  obtain feeds1 M1 feeds2 M2 where
    s1: "market_step ?name (trading_messages ! 0) new_market = ([order_ack 1 70 1 NEW], feeds1, M1)"
    and f1: "length feeds1 = 1" "mk_orderId M1 = 2"
    and s2: "market_step ?name (trading_messages ! 1) M1 =
      ([execution_report 2 2 1 100 5 3 BUY, execution_report 1 1 2 100 5 0 SELL, order_ack 2 80 2 MODIFY], feeds2, M2)"
    and f2: "length feeds2 = 2" "mk_orderId M2 = 3"
    and book: "mk_book M2 = \<lparr>bid_queue = [\<lparr>e_price = 101, e_id = 2, e_qty = 3\<rparr>], ask_queue = []\<rparr>"
    by (rule trading_market [of ?name])
  have msgs: "trading_messages = [trading_messages ! 0, trading_messages ! 1]" by (simp add: trading_messages_def)
  then have two: "pending (matchingEngine x) = [trading_messages ! 0, trading_messages ! 1]" unfolding e(1) .
  obtain h1 e1 where r1: "exchange_history (\<lambda>r. r) h1 (x\<lparr>matchingEngine := e1\<rparr>)" "lasting (x\<lparr>matchingEngine := e1\<rparr>)"
    and h1: "\<not> h_overflow h1" "map fst (h_answers h1) = [trading_messages ! 0]" "h_sent h1 = h_sent h"
      "h_published h1 = h_published h"
    and e1: "pending e1 = [trading_messages ! 1]" "market_of e1 = M1" "symbol e1 = ?name"
      "length (out_pending e1) = 1" "length (feed_pending e1) = 1"
    by (rule engine_handles [OF run example_rounding left h(2) pc two, unfolded e(4,5), OF s1])
      (simp_all add: e h f1 outbound_room_def feed_room_def)
  let ?x1 = "x\<lparr>matchingEngine := e1\<rparr>"
  have s2': "market_step (symbol (matchingEngine ?x1)) (trading_messages ! 1) (market_of (matchingEngine ?x1)) =
      ([execution_report 2 2 1 100 5 3 BUY, execution_report 1 1 2 100 5 0 SELL, order_ack 2 80 2 MODIFY], feeds2, M2)"
    using s2 by (simp add: e1)
  obtain h2 e2 where r2: "exchange_history (\<lambda>r. r) h2 (?x1\<lparr>matchingEngine := e2\<rparr>)" "lasting (?x1\<lparr>matchingEngine := e2\<rparr>)"
    and h2: "\<not> h_overflow h2" "map fst (h_answers h2) = trading_messages" "h_sent h2 = h_sent h"
      "h_published h2 = h_published h"
    and e2: "market_of e2 = M2" "symbol e2 = ?name" "pending e2 = []" "length (feed_pending e2) = 3"
    by (rule engine_handles [OF r1(1) example_rounding r1(2) h1(1), of "trading_messages ! 1" "[]", OF _ _ _ s2'])
      (simp_all add: pc e1 h1 f2 outbound_room_def feed_room_def msgs [symmetric, simplified])
  have "book_abs (orderbook e2) = mk_book M2" "nextOrderId e2 = 3"
    using arg_cong [OF e2(1), of mk_book] arg_cong [OF e2(1), of mk_orderId] f2(2) by simp_all
  with r2 h2 e2 book show thesis by (intro that [of h2 e2]) simp_all
qed

text \<open>Then the server sends, or the sends of some responses fail.\<close>

lemma trading_history:
  fixes accepted :: "nat \<Rightarrow> nat"
  obtains h x where "exchange_history (\<lambda>r. r) h x" "\<not> h_overflow h" "engine_todo x = []"
    "map fst (h_answers h) = trading_messages" "symbol (matchingEngine x) = to_bytes ''SYM1''"
    "out_pending (matchingEngine x) = []" "lasting x"
    "h_sent h = map (\<lambda>(m, k). (m, 3 \<le> k \<and> zs_sessionToIdentity (zmqServer x) (om_sessionId m) \<noteq> None))
      (with_outcomes accepted (queued_responses h))"
    "h_published h = []" "feed_pc x = FeedCheck" "feedHandler x = feedHandler example_exchange" "length (feed_pending (matchingEngine x)) = 3"
    "zs_sessionToIdentity (zmqServer x) 1 = Some [65]" "zs_sessionToIdentity (zmqServer x) 2 = Some [66]"
    "book_abs (orderbook (matchingEngine x)) = \<lparr>bid_queue = [\<lparr>e_price = 101, e_id = 2, e_qty = 3\<rparr>], ask_queue = []\<rparr>"
proof -
  obtain h x where run: "exchange_history (\<lambda>r. r) h x" and left: "lasting x"
    and pc: "server_pc x = ServerOutbound" "engine_pc x = EngineDrain" "engine_todo x = []" "feed_pc x = FeedCheck"
      "feedHandler x = feedHandler example_exchange"
    and h: "h_answers h = []" "\<not> h_overflow h" "h_sent h = []" "h_published h = []"
    and e: "pending (matchingEngine x) = trading_messages" "out_pending (matchingEngine x) = []"
      "feed_pending (matchingEngine x) = []" "market_of (matchingEngine x) = new_market"
      "symbol (matchingEngine x) = to_bytes ''SYM1''"
    and zs: "zs_sessionToIdentity (zmqServer x) 1 = Some [65]" "zs_sessionToIdentity (zmqServer x) 2 = Some [66]"
    by (rule trading_accepted)
  obtain h2 e2 where r2: "exchange_history (\<lambda>r. r) h2 (x\<lparr>matchingEngine := e2\<rparr>)" "lasting (x\<lparr>matchingEngine := e2\<rparr>)"
    and h2: "\<not> h_overflow h2" "map fst (h_answers h2) = trading_messages" "h_sent h2 = []" "h_published h2 = []"
    and e2: "symbol e2 = to_bytes ''SYM1''" "length (feed_pending e2) = 3"
    and ids: "nextOrderId e2 = 3"
    and book: "book_abs (orderbook e2) = \<lparr>bid_queue = [\<lparr>e_price = 101, e_id = 2, e_qty = 3\<rparr>], ask_queue = []\<rparr>"
    by (rule both_handled [OF run left pc(2,3) h(1,2) e]) (simp_all add: h)
  obtain h3 zs e3 where r3: "exchange_history (\<lambda>r. r) h3 (x\<lparr>matchingEngine := e2, zmqServer := zs, matchingEngine := e3\<rparr>)"
    and e3: "out_pending e3 = []" "same_private e2 e3" "h_answers h3 = h_answers h2" "h_overflow h3 = h_overflow h2"
      "zs_sessionToIdentity zs = zs_sessionToIdentity (zmqServer x)" "feed_pending e3 = feed_pending e2" "h_published h3 = []"
      "h_sent h3 = map (\<lambda>(m, k). (m, 3 \<le> k \<and> zs_sessionToIdentity (zmqServer x) (om_sessionId m) \<noteq> None))
        (with_outcomes accepted (out_pending e2))"
    using server_sends_all [OF r2(1) example_rounding r2(2), of "out_pending e2" accepted] pc(1) h2(3,4) by auto
  obtain T where "delivery_inv T h2 (x\<lparr>matchingEngine := e2\<rparr>)" using history_delivery [OF r2(1) example_rounding] by blast
  then have "out_pending e2 = queued_responses h2" by (simp add: delivery_inv_def streams_ok_def h2(3))
  then have "out_pending e2 = queued_responses h3" by (simp add: queued_responses_def e3(3))
  with book show thesis
    by (intro that [OF r3])
      (use e3 h2 e2 zs pc same_privateD(1-3) [OF e3(2)] left ids in \<open>simp_all add: lasting_def ids_left_def\<close>)
qed

end
