(* ===== verification/Exchange_Market.thy ===== *)
theory Exchange_Market
  imports Exchange_Trading
begin

text \<open>
  The running exchange refines the market of \<open>Market_Spec\<close>: whatever the threads do and however
  they interleave, also between the pushes of one handler, the book, the answers and the market
  data are those of one sequential market that is given the requests in the order in which the
  inbound queue accepted them. The proof carries \<open>market_inv\<close> along the histories of
  \<open>Exchange_Delivery\<close>.
\<close>

section \<open>The invariant\<close>

text \<open>The requests that the engine has taken, in order.\<close>

definition processed :: "History \<Rightarrow> InboundMessage list" where
  "processed h = map fst (h_answers h)"

text \<open>The engine once it has finished the request in hand.\<close>

definition finished :: "Exchange \<Rightarrow> Engine" where
  "finished x = run_actions (engine_todo x) (matchingEngine x)"

text \<open>What was queued for a request, against what the market has said for it; with no queue ever full, all of it.\<close>

definition reply_of :: "bool \<Rightarrow> InboundMessage \<times> OutboundMessage list \<times> MarketDataMessage list \<Rightarrow>
    InboundMessage \<times> OutboundMessage list \<times> MarketDataMessage list \<Rightarrow> bool" where
  "reply_of lossy = (\<lambda>(_, rs, ts) (_, outs, feeds).
     subseq (map untimed_out rs) outs \<and> subseq (map untimed_feed ts) feeds \<and>
     (lossy \<or> map untimed_out rs = outs \<and> map untimed_feed ts = feeds))"

text \<open>\<open>said\<close>: what the handlers have tried to push so far, the last one perhaps not yet to its end.\<close>

definition market_inv :: "History \<Rightarrow> Exchange \<Rightarrow> bool" where
  "market_inv h x \<longleftrightarrow> (\<exists>said. list_all2 (reply_of (h_overflow h)) (h_answers h) said \<and>
     market_run (symbol (matchingEngine x)) (processed h) new_market =
       (map snd (add_to_last (todo_outs (engine_todo x) (matchingEngine x))
          (todo_feeds (engine_todo x) (matchingEngine x)) said), market_of (finished x)))"

lemma market_of_running [simp]: "market_of (e\<lparr>running := r\<rparr>) = market_of e"
  by (simp add: market_of_def)

lemma add_to_last_twice:
  "add_to_last rs ts (add_to_last rs' ts' said) = add_to_last (rs' @ rs) (ts' @ ts) said"
  by (cases said rule: rev_cases) (auto simp: split_paired_all)

lemma reply_more:
  assumes "list_all2 (reply_of lossy) replies said" and "reply_of lossy' (m, rs, ts) (m, outs, feeds)"
  shows "list_all2 (reply_of (lossy \<or> lossy')) (add_to_last rs ts replies) (add_to_last outs feeds said)"
proof (cases replies rule: rev_cases)
  case (snoc front r)
  then obtain front' s where said: "said = front' @ [s]" and front: "list_all2 (reply_of lossy) front front'"
    and last: "reply_of lossy r s"
    using assms(1) by (auto simp: list_all2_append1 list_all2_Cons1)
  have "list_all2 (reply_of (lossy \<or> lossy')) front front'"
    using front by (rule list_all2_mono) (auto simp: reply_of_def)
  moreover have "reply_of (lossy \<or> lossy') (fst r, fst (snd r) @ rs, snd (snd r) @ ts)
      (fst s, fst (snd s) @ outs, snd (snd s) @ feeds)"
    using last assms(2) by (auto simp: reply_of_def list_emb_append_mono)
  ultimately show ?thesis
    using add_to_last_snoc [of rs ts front "fst r" "fst (snd r)" "snd (snd r)"]
      add_to_last_snoc [of outs feeds front' "fst s" "fst (snd s)" "snd (snd s)"]
    by (simp add: snoc said list_all2_appendI)
qed (use assms(1) in simp)

section \<open>Every step keeps it\<close>

lemma market_quiet:
  assumes inv: "market_inv h x" and same: "same_private (matchingEngine x) (matchingEngine y)"
    and todo: "engine_todo y = engine_todo x"
    and idle: "t = MatchingThread \<longrightarrow> engine_todo x = [] \<and> pending (matchingEngine y) = pending (matchingEngine x) \<and>
      out_pending (matchingEngine y) = out_pending (matchingEngine x) \<and>
      feed_pending (matchingEngine y) = feed_pending (matchingEngine x)"
  shows "market_inv (observe t x y h) y"
proof -
  have "h_answers (observe t x y h) = h_answers h" "h_overflow (observe t x y h) = h_overflow h"
    using idle by (cases t; simp add: observe_def Let_def)+
  moreover have "market_of (finished y) = market_of (finished x)"
    using market_of_private [OF run_actions_private [OF same]] by (simp add: finished_def todo)
  ultimately show ?thesis
    using inv todo_private [OF same] same_privateD(2) [OF same]
    by (simp add: market_inv_def processed_def todo)
qed

lemma market_message:
  assumes inv: "market_inv h x" and r: "engine_ok (matchingEngine x)" and idle: "engine_todo x = []"
    and left: "ids_left (matchingEngine x)" and pop: "pop_inbound (matchingEngine x) = (Some msg, e)"
    and started: "begin_message msg e = (e', actions)"
    and obs: "h' = h\<lparr>h_answers := h_answers h @ [(msg, [], [])]\<rparr>"
  shows "market_inv h' (x\<lparr>matchingEngine := e', engine_todo := actions\<rparr>)"
proof -
  note same = popped_private [OF pop]
  have e: "engine_inv e" by (rule engine_okD(1) [OF engine_ok_inbound(1) [OF r pop]])
  have left': "ids_left e" using left same_privateD(3) [OF same] by (simp add: ids_left_def)
  obtain said where said: "list_all2 (reply_of (h_overflow h)) (h_answers h) said"
    and run: "market_run (symbol e) (processed h) new_market = (map snd said, market_of e)"
    using inv market_of_private [OF same] same_privateD(2) [OF same]
    by (auto simp: market_inv_def finished_def idle)
  obtain outs feeds M where step: "market_step (symbol e) msg (market_of e) = (outs, feeds, M)"
    by (rule prod_cases3)
  note B = begin_market_step [OF e left' started step]
  have "market_run (symbol e') (processed h') new_market =
      (map snd (add_to_last (todo_outs actions e') (todo_feeds actions e') (said @ [(msg, [], [])])), M)"
    using run step by (simp add: obs processed_def market_run_snoc B begin_message_frame(5) [OF started])
  moreover have "list_all2 (reply_of (h_overflow h')) (h_answers h') (said @ [(msg, [], [])])"
    using said by (simp add: obs list_all2_appendI reply_of_def)
  ultimately show ?thesis
    unfolding market_inv_def by (intro exI [of _ "said @ [(msg, [], [])]"]) (simp add: finished_def B)
qed

lemma market_push:
  assumes inv: "market_inv h x" and r: "engine_ok (matchingEngine x)" and todo: "engine_todo x = a # actions"
  defines "y \<equiv> x\<lparr>matchingEngine := do_action a (matchingEngine x), engine_todo := actions\<rparr>"
  shows "market_inv (observe MatchingThread x y h) y"
proof -
  let ?e = "matchingEngine x"
  obtain rs ts where q: "out_pending (do_action a ?e) = out_pending ?e @ rs"
    "feed_pending (do_action a ?e) = feed_pending ?e @ ts"
    using action_appends [OF r subset_UNIV subset_UNIV, of a] by blast
  let ?lossy = "h_overflow h \<or> queue_full ?e"
  have obs: "observe MatchingThread x y h =
      h\<lparr>h_answers := add_to_last rs ts (h_answers h), h_overflow := ?lossy\<rparr>"
    by (rule observe_push) (simp_all add: todo y_def q)
  obtain said where said: "list_all2 (reply_of (h_overflow h)) (h_answers h) said"
    and run: "market_run (symbol ?e) (processed h) new_market =
      (map snd (add_to_last (todo_outs (a # actions) ?e) (todo_feeds (a # actions) ?e) said), market_of (finished x))"
    using inv by (auto simp: market_inv_def todo)
  have "reply_of (queue_full ?e) (m, rs, ts) (m, action_outs a ?e, action_feeds a ?e)" for m
    using queued_push [OF r q] by (auto simp: reply_of_def)
  from reply_more [OF said this] have "list_all2 (reply_of ?lossy) (add_to_last rs ts (h_answers h))
      (add_to_last (action_outs a ?e) (action_feeds a ?e) said)" .
  moreover have "map fst (add_to_last rs ts (h_answers h)) = map fst (h_answers h)"
    by (cases "h_answers h = []") (simp_all add: queued_more)
  moreover have "finished y = finished x" by (simp add: finished_def y_def todo)
  ultimately show ?thesis
    using run unfolding market_inv_def obs
    by (intro exI [of _ "add_to_last (action_outs a ?e) (action_feeds a ?e) said"])
      (simp add: add_to_last_twice processed_def, simp add: y_def)
qed

lemma market_inv_step:
  assumes step: "exchange_step fl t x y" and inv: "market_inv h x" and dinv: "delivery_inv T h x"
    and xinv: "exchange_inv x" and last: "lasting x"
  shows "market_inv (observe t x y h) y"
proof -
  note S = state_okD [OF xinv] and left = last [unfolded lasting_def]
  have E: "engine_inv (matchingEngine x)" by (rule engine_okD(1) [OF S(1)])
  have idle: "engine_pc x = EngineCheck \<Longrightarrow> engine_todo x = []"
    using xinv by (auto simp: exchange_inv_def busy_ok_def)
  note quiet = market_quiet [OF inv]
  show ?thesis
    using step
  proof (cases rule: exchange_step_cases)
    case (engine_message msg e e' actions)
    with market_message [OF inv S(1) engine_message(4) conjunct1 [OF left] engine_message(5,6)
        delivery_engine_message(1) [OF dinv S(1) engine_message(5,6)]] show ?thesis by simp
  next
    case (engine_push a actions)
    with market_push [OF inv S(1) engine_push(3)] show ?thesis by simp
  next
    case engine_look
    with idle show ?thesis by (intro quiet) simp_all
  next
    case (engine_empty e)
    with popped_none [OF E engine_empty(5)] popped_private [OF engine_empty(5)] show ?thesis
      by (intro quiet) simp_all
  next
    case (dummy_enter g now)
    then show ?thesis by (intro quiet; cases "ordersPerSecond (config g) = 0") simp_all
  next
    case (main_end_session i sid ends cb sm e)
    with no_callback_run [OF S(2) main_end_session(4,5)] show ?thesis by (intro quiet) simp_all
  qed (intro quiet; simp)+
qed

lemma market_inv_started:
  assumes "exchange_start fd ttl_ok bound (new_exchange env c) = Some (True, x)"
  shows "market_inv no_history x"
proof -
  from exchange_start_true [OF assms(1)] have up: "0 \<le> fd" ttl_ok bound by simp_all
  note x = exchange_start_up [OF new_exchange_idle up, of env c, unfolded assms(1) option.inject prod.inject, THEN conjunct2]
  have "market_of (finished x) = new_market"
    by (simp add: x finished_def new_exchange_fields) (simp add: new_exchange_def new_engine_market)
  moreover have "engine_todo x = []" by (simp add: x new_exchange_fields)
  ultimately show ?thesis
    by (simp add: market_inv_def processed_def no_history_def)
qed

lemma history_market: "exchange_history fl h x \<Longrightarrow> rounding_ok fl \<Longrightarrow> market_inv h x"
proof (induction rule: exchange_history.induct)
  case (history_stepped h x t y)
  obtain T where "delivery_inv T h x"
    using history_delivery [OF history_stepped.hyps(1) history_stepped.prems] by blast
  from market_inv_step [OF history_stepped.hyps(3) history_stepped.IH [OF history_stepped.prems] this
      reachable_inv [OF history_reachable [OF history_stepped.hyps(1)] history_stepped.prems]
      history_stepped.hyps(2)] show ?case .
qed (use market_inv_started in blast)

text \<open>What was said, against the full reactions of the market.\<close>

lemma market_inv_reactions:
  assumes "market_inv h x"
  obtains said reactions where
    "market_run (symbol (matchingEngine x)) (processed h) new_market = (reactions, market_of (finished x))"
    "list_all2 (reply_of (h_overflow h)) (h_answers h) said"
    "list_all2 (\<lambda>(_, outs, feeds) (outs', feeds'). prefix outs outs' \<and> prefix feeds feeds') said reactions"
    "prefix (concat (map (\<lambda>(_, outs, _). outs) said)) (concat (map fst reactions))"
    "engine_todo x = [] \<Longrightarrow> reactions = map snd said"
proof -
  let ?o = "todo_outs (engine_todo x) (matchingEngine x)" and ?f = "todo_feeds (engine_todo x) (matchingEngine x)"
  obtain said where said: "list_all2 (reply_of (h_overflow h)) (h_answers h) said"
    and run: "market_run (symbol (matchingEngine x)) (processed h) new_market =
      (map snd (add_to_last ?o ?f said), market_of (finished x))"
    using assms by (auto simp: market_inv_def)
  have refl: "list_all2 (\<lambda>(_, outs, feeds) (outs', feeds'). prefix outs outs' \<and> prefix feeds feeds') said (map snd said)" for said
    by (induction said) auto
  have "list_all2 (\<lambda>(_, outs, feeds) (outs', feeds'). prefix outs outs' \<and> prefix feeds feeds') said (map snd (add_to_last ?o ?f said)) \<and>
      prefix (concat (map (\<lambda>(_, outs, _). outs) said)) (concat (map fst (map snd (add_to_last ?o ?f said))))"
  proof (cases said rule: rev_cases)
    case (snoc front s)
    obtain m outs feeds where "s = (m, outs, feeds)" by (rule prod_cases3)
    then show ?thesis
      using refl [of front] by (simp add: snoc list_all2_appendI split_beta' comp_def)
  qed simp
  then show thesis by (intro that [OF run said]) simp_all
qed

lemma reply_within:
  assumes "list_all2 (reply_of lossy) replies said"
    and "list_all2 (\<lambda>(_, outs, feeds) (outs', feeds'). prefix outs outs' \<and> prefix feeds feeds') said reactions"
  shows "list_all2 (\<lambda>(_, rs, ts) (outs, feeds). subseq (map untimed_out rs) outs \<and> subseq (map untimed_feed ts) feeds)
    replies reactions"
proof (rule list_all2_trans [OF _ assms], clarify)
  show "subseq (map untimed_out rs) outs' \<and> subseq (map untimed_feed ts) feeds'"
    if "reply_of lossy (m, rs, ts) (m', outs, feeds)" "prefix outs outs'" "prefix feeds feeds'"
    for m m' :: InboundMessage and rs outs outs' ts feeds feeds'
    using that by (auto simp: reply_of_def intro: subseq_order.trans prefix_imp_subseq)
qed

lemma reply_exact:
  assumes "list_all2 (reply_of False) replies said"
  shows "map (\<lambda>(_, rs, ts). (map untimed_out rs, map untimed_feed ts)) replies = map snd said"
  using assms by (induction rule: list_all2_induct) (auto simp: reply_of_def)

lemma queued_within:
  assumes "market_inv h x"
  obtains reactions where
    "market_run (symbol (matchingEngine x)) (processed h) new_market = (reactions, market_of (finished x))"
    "subseq (map untimed_out (queued_responses h)) (concat (map fst reactions))"
    "h_overflow h \<or> prefix (map untimed_out (queued_responses h)) (concat (map fst reactions))"
proof (rule market_inv_reactions [OF assms])
  fix said reactions
  assume run: "market_run (symbol (matchingEngine x)) (processed h) new_market = (reactions, market_of (finished x))"
    and said: "list_all2 (reply_of (h_overflow h)) (h_answers h) said"
    and all: "prefix (concat (map (\<lambda>(_, outs, _). outs) said)) (concat (map fst reactions))"
  have "subseq (map untimed_out (concat (map (\<lambda>(_, outs, _). outs) ans))) (concat (map (\<lambda>(_, outs, _). outs) said)) \<and>
      (lossy \<or> map untimed_out (concat (map (\<lambda>(_, outs, _). outs) ans)) = concat (map (\<lambda>(_, outs, _). outs) said))"
    if "list_all2 (reply_of lossy) ans said" for ans said lossy
    using that by (induction rule: list_all2_induct) (auto simp: reply_of_def list_emb_append_mono)
  from this [OF said] have "subseq (map untimed_out (queued_responses h)) (concat (map (\<lambda>(_, outs, _). outs) said))"
    "h_overflow h \<or> map untimed_out (queued_responses h) = concat (map (\<lambda>(_, outs, _). outs) said)"
    by (simp_all add: queued_responses_def)
  with all have "subseq (map untimed_out (queued_responses h)) (concat (map fst reactions))"
    "h_overflow h \<or> prefix (map untimed_out (queued_responses h)) (concat (map fst reactions))"
    by (auto intro: subseq_order.trans prefix_imp_subseq)
  with run show thesis by (rule that)
qed

text \<open>Between two requests, with no queue ever full, all that the market says has been queued.\<close>

lemma queued_exact:
  assumes "market_inv h x" and "\<not> h_overflow h" and "engine_todo x = []"
  shows "map untimed_out (queued_responses h) =
    concat (map fst (fst (market_run (symbol (matchingEngine x)) (processed h) new_market)))"
proof (rule market_inv_reactions [OF assms(1)])
  fix said reactions
  assume run: "market_run (symbol (matchingEngine x)) (processed h) new_market = (reactions, market_of (finished x))"
    and said: "list_all2 (reply_of (h_overflow h)) (h_answers h) said"
    and all: "engine_todo x = [] \<Longrightarrow> reactions = map snd said"
  have "map untimed_out (queued_responses h) = concat (map (\<lambda>(_, outs, _). outs) said)"
    using said assms(2) unfolding queued_responses_def
    by (simp, induction rule: list_all2_induct) (auto simp: reply_of_def)
  with all [OF assms(3)] run show ?thesis by (simp add: split_beta' comp_def)
qed

text \<open>The two clients of \<open>trading_history\<close>.\<close>

lemma trading_answers:
  "map fst (fst (market_run name trading_messages new_market)) =
    [[order_ack 1 70 1 NEW],
     [execution_report 2 2 1 100 5 3 BUY, execution_report 1 1 2 100 5 0 SELL, order_ack 2 80 2 MODIFY]]"
proof -
  have two: "trading_messages = [trading_messages ! 0, trading_messages ! 1]" by (simp add: trading_messages_def)
  show ?thesis by (rule trading_market [of name], subst two) (simp del: One_nat_def)
qed

section \<open>Properties\<close>

text \<open>
  Property C2. The running exchange is one sequential market: in every execution, whatever the
  clients send and however the server, matching, feed, generator and main threads interleave, also
  between the pushes of one handler, the requests take effect one after the other in the order in
  which the inbound queue accepted them; the book, the owners and the counters are, once the
  request in hand is finished, those of the market after these requests; what was queued for each
  request is, in order, part of what the market answers and publishes for it, and all of it if no
  queue was ever full when the engine had something to push.
\<close>

theorem exchange_refines_market:
  assumes "exchange_history fl h x" and "rounding_ok fl"
  shows "h_accepted h = processed h @ pending (matchingEngine x) \<and>
    (\<exists>reactions. market_run (symbol (matchingEngine x)) (processed h) new_market =
         (reactions, market_of (finished x)) \<and>
       list_all2 (\<lambda>(_, rs, ts) (outs, feeds). subseq (map untimed_out rs) outs \<and> subseq (map untimed_feed ts) feeds)
         (h_answers h) reactions \<and>
       (h_overflow h \<or> engine_todo x \<noteq> [] \<or>
        map (\<lambda>(_, rs, ts). (map untimed_out rs, map untimed_feed ts)) (h_answers h) = reactions))"
proof -
  obtain T where "delivery_inv T h x" using history_delivery [OF assms] by blast
  then have "h_accepted h = processed h @ pending (matchingEngine x)"
    by (simp add: delivery_inv_def streams_ok_def processed_def)
  moreover obtain said reactions where
    run: "market_run (symbol (matchingEngine x)) (processed h) new_market = (reactions, market_of (finished x))"
    and said: "list_all2 (reply_of (h_overflow h)) (h_answers h) said"
    and more: "list_all2 (\<lambda>(_, outs, feeds) (outs', feeds'). prefix outs outs' \<and> prefix feeds feeds') said reactions"
    and all: "engine_todo x = [] \<Longrightarrow> reactions = map snd said"
    using market_inv_reactions [OF history_market [OF assms]] by metis
  have "list_all2 (\<lambda>(_, rs, ts) (outs, feeds). subseq (map untimed_out rs) outs \<and> subseq (map untimed_feed ts) feeds)
      (h_answers h) reactions"
    by (rule reply_within [OF said more])
  moreover have "map (\<lambda>(_, rs, ts). (map untimed_out rs, map untimed_feed ts)) (h_answers h) = map snd said"
    if "\<not> h_overflow h"
    using reply_exact [of "h_answers h" said] said that by simp
  ultimately show ?thesis using run all by blast
qed

text \<open>The execution in which two clients trade: both requests are answered in full.\<close>

theorem exchange_refines_market_witness:
  "\<exists>h x reactions. exchange_history (\<lambda>r. r) h x \<and> processed h = trading_messages \<and>
     market_run (symbol (matchingEngine x)) (processed h) new_market = (reactions, market_of (matchingEngine x)) \<and>
     map (\<lambda>(_, rs, ts). (map untimed_out rs, map untimed_feed ts)) (h_answers h) = reactions \<and>
     map fst reactions = [[order_ack 1 70 1 NEW],
       [execution_report 2 2 1 100 5 3 BUY, execution_report 1 1 2 100 5 0 SELL, order_ack 2 80 2 MODIFY]]"
proof -
  obtain h x where run: "exchange_history (\<lambda>r. r) h x" and "\<not> h_overflow h" "engine_todo x = []"
    and all: "processed h = trading_messages"
    unfolding processed_def by (rule trading_history [of "\<lambda>_. 3"])
  then obtain reactions where R: "market_run (symbol (matchingEngine x)) (processed h) new_market =
      (reactions, market_of (finished x))"
    and "map (\<lambda>(_, rs, ts). (map untimed_out rs, map untimed_feed ts)) (h_answers h) = reactions"
    using exchange_refines_market [OF run example_rounding] by blast
  moreover have "finished x = matchingEngine x" using \<open>engine_todo x = []\<close> by (simp add: finished_def)
  moreover have "map fst reactions = [[order_ack 1 70 1 NEW],
      [execution_report 2 2 1 100 5 3 BUY, execution_report 1 1 2 100 5 0 SELL, order_ack 2 80 2 MODIFY]]"
    using trading_answers [of "symbol (matchingEngine x)"] R by (simp add: all)
  ultimately show ?thesis
    using run all by (intro exI [of _ h] exI [of _ x] exI [of _ reactions]) simp
qed

text \<open>What is sent to a client, against the market's answers.\<close>

lemma untimed_session [simp]: "om_sessionId (untimed_out m) = om_sessionId m"
  by (simp add: untimed_out_def)

lemma filter_untimed:
  "filter (\<lambda>m. om_sessionId m = sid) (map untimed_out ms) = map untimed_out [m \<leftarrow> ms. om_sessionId m = sid]"
  by (induction ms) simp_all

lemma gone_subseq: "subseq (gone ms) (map fst ms)"
  by (simp add: gone_def subseq_map)

lemma all_gone: "filter P (not_gone ms) = [] \<Longrightarrow> filter P (gone ms) = filter P (map fst ms)"
  by (induction ms) (auto simp: gone_def not_gone_def split: if_splits)

lemma frames_to_one:
  assumes "delivery_inv T h x" and "exchange_inv x" and "zs_sessionToIdentity (zmqServer x) sid = Some identity"
  shows "[f \<leftarrow> zs_wire (zmqServer x). hd f = identity] =
      map (\<lambda>m. [identity, [], put_response (om_body m)]) [m \<leftarrow> gone (h_sent h). om_sessionId m = sid]"
    and "[f \<leftarrow> map snd (zs_failed (zmqServer x)). hd f = identity] =
      map (\<lambda>m. [identity, [], put_response (om_body m)]) [m \<leftarrow> not_gone (h_sent h). om_sessionId m = sid]"
proof -
  have "phase (main_pc x) \<le> 4" by (rule connected_phase [OF assms(2,3)])
  then have T: "T sid = Some identity" "inj_on T (dom T)"
    using assms(1,3) unfolding delivery_inv_def table_ok_def by auto
  have "zs_wire (zmqServer x) = responses T (gone (h_sent h))"
    "map snd (zs_failed (zmqServer x)) = responses T (not_gone (h_sent h))"
    using assms(1) unfolding delivery_inv_def streams_ok_def by blast+
  then show "[f \<leftarrow> zs_wire (zmqServer x). hd f = identity] =
      map (\<lambda>m. [identity, [], put_response (om_body m)]) [m \<leftarrow> gone (h_sent h). om_sessionId m = sid]"
    "[f \<leftarrow> map snd (zs_failed (zmqServer x)). hd f = identity] =
      map (\<lambda>m. [identity, [], put_response (om_body m)]) [m \<leftarrow> not_gone (h_sent h). om_sessionId m = sid]"
    using responses_to_one [OF T(2,1)] by simp_all
qed

text \<open>
  Property C23. What a connected client is sent is the market's: the messages handed to the socket
  whole for it are the bytes of responses that the market gives to its session, in the market's order and
  each at most once, with nothing in between that the market does not say; and as long as no queue
  has overflowed and no send to this client has thrown they are the first of these responses,
  without a gap.
\<close>

theorem client_sees_market:
  assumes "exchange_history fl h x" and "rounding_ok fl"
    and "zs_sessionToIdentity (zmqServer x) sid = Some identity"
  shows "\<exists>delivered. [f \<leftarrow> zs_wire (zmqServer x). hd f = identity] =
      map (\<lambda>m. [identity, [], put_response (om_body m)]) delivered \<and>
    (let answered = [m \<leftarrow> concat (map fst (fst
        (market_run (symbol (matchingEngine x)) (processed h) new_market))). om_sessionId m = sid]
     in subseq (map untimed_out delivered) answered \<and>
        (h_overflow h \<or> (\<exists>f\<in>set (zs_failed (zmqServer x)). hd (snd f) = identity) \<or>
         prefix (map untimed_out delivered) answered))"
proof -
  obtain T where inv: "delivery_inv T h x" using history_delivery [OF assms(1,2)] by blast
  note frames = frames_to_one [OF inv reachable_inv [OF history_reachable [OF assms(1)] assms(2)] assms(3)]
  let ?delivered = "[m \<leftarrow> gone (h_sent h). om_sessionId m = sid]" and ?taken = "[m \<leftarrow> map fst (h_sent h). om_sessionId m = sid]"
  have S: "queued_responses h = map fst (h_sent h) @ out_pending (matchingEngine x)"
    using inv by (simp add: delivery_inv_def streams_ok_def)
  obtain reactions where
    run: "market_run (symbol (matchingEngine x)) (processed h) new_market = (reactions, market_of (finished x))"
    and "subseq (map untimed_out (queued_responses h)) (concat (map fst reactions))"
    and "h_overflow h \<or> prefix (map untimed_out (queued_responses h)) (concat (map fst reactions))"
    by (rule queued_within [OF history_market [OF assms(1,2)]])
  then have "subseq (map untimed_out (map fst (h_sent h))) (concat (map fst reactions))"
    "h_overflow h \<or> prefix (map untimed_out (map fst (h_sent h))) (concat (map fst reactions))"
    unfolding S map_append using list_emb_append_mono subseq_order.trans prefix_order.trans
    by (meson prefixI prefix_imp_subseq)+
  then have taken: "subseq (map untimed_out ?taken) [m \<leftarrow> concat (map fst reactions). om_sessionId m = sid]"
    "h_overflow h \<or> prefix (map untimed_out ?taken) [m \<leftarrow> concat (map fst reactions). om_sessionId m = sid]"
    unfolding filter_untimed [symmetric] by (auto intro: subseq_filter filter_mono_prefix)
  have "subseq (map untimed_out ?delivered) (map untimed_out ?taken)"
    by (intro subseq_map subseq_filter gone_subseq)
  then have "subseq (map untimed_out ?delivered) [m \<leftarrow> concat (map fst reactions). om_sessionId m = sid]"
    using taken(1) by (rule subseq_order.trans)
  have same: "?delivered = ?taken" if "\<not> (\<exists>f\<in>set (zs_failed (zmqServer x)). hd (snd f) = identity)"
  proof (rule all_gone)
    have "[f \<leftarrow> map snd (zs_failed (zmqServer x)). hd f = identity] = []"
      using that by (auto simp: filter_empty_conv)
    then show "[m \<leftarrow> not_gone (h_sent h). om_sessionId m = sid] = []" unfolding frames(2) by simp
  qed
  have "h_overflow h \<or> (\<exists>f\<in>set (zs_failed (zmqServer x)). hd (snd f) = identity) \<or>
      prefix (map untimed_out ?delivered) [m \<leftarrow> concat (map fst reactions). om_sessionId m = sid]"
    using taken(2) same by metis
  with \<open>subseq (map untimed_out ?delivered) [m \<leftarrow> concat (map fst reactions). om_sessionId m = sid]\<close> show ?thesis
    using frames(1) by (intro exI [of _ ?delivered]) (simp add: run Let_def)
qed

lemma all_accepted:
  "gone (map (\<lambda>(m, k). (m, 3 \<le> k \<and> Q m)) (with_outcomes (\<lambda>_. 3) ms)) = filter Q ms"
  "not_gone (map (\<lambda>(m, k). (m, 3 \<le> k \<and> Q m)) (with_outcomes (\<lambda>_. 3) ms)) = filter (\<lambda>m. \<not> Q m) ms"
  by (induction ms) (simp_all add: gone_def not_gone_def)

text \<open>The buyer of that execution is sent the report of its fill and the acknowledgement, and no more.\<close>

theorem client_sees_market_witness:
  "\<exists>h x delivered. exchange_history (\<lambda>r. r) h x \<and>
     [f \<leftarrow> zs_wire (zmqServer x). hd f = [66]] = map (\<lambda>m. [[66], [], put_response (om_body m)]) delivered \<and>
     map untimed_out delivered = [execution_report 2 2 1 100 5 3 BUY, order_ack 2 80 2 MODIFY]"
proof -
  obtain h x where run: "exchange_history (\<lambda>r. r) h x" and h: "\<not> h_overflow h" "engine_todo x = []"
    "processed h = trading_messages"
    and sent: "h_sent h = map (\<lambda>(m, k). (m, 3 \<le> k \<and> zs_sessionToIdentity (zmqServer x) (om_sessionId m) \<noteq> None))
      (with_outcomes (\<lambda>_. 3) (queued_responses h))"
    and two: "zs_sessionToIdentity (zmqServer x) 2 = Some [66]"
    unfolding processed_def by (rule trading_history [of "\<lambda>_. 3"])
  obtain T where inv: "delivery_inv T h x" using history_delivery [OF run example_rounding] by blast
  note frames = frames_to_one [OF inv reachable_inv [OF history_reachable [OF run] example_rounding] two]
  have mine: "[m \<leftarrow> gone (h_sent h). om_sessionId m = 2] = [m \<leftarrow> queued_responses h. om_sessionId m = 2]"
    "[m \<leftarrow> not_gone (h_sent h). om_sessionId m = 2] = []"
    unfolding sent all_accepted by (auto simp: two filter_empty_conv intro: filter_cong)
  let ?mine = "[execution_report 2 2 1 100 5 3 BUY, order_ack 2 80 2 MODIFY]"
  have answered: "[m \<leftarrow> concat (map fst (fst (market_run name trading_messages new_market))). om_sessionId m = 2] = ?mine"
    for name unfolding trading_answers by (simp add: message_defs)
  have "[f \<leftarrow> map snd (zs_failed (zmqServer x)). hd f = [66]] = []" unfolding frames(2) mine(2) by simp
  then have "\<not> (\<exists>f\<in>set (zs_failed (zmqServer x)). hd (snd f) = [66])" by (auto simp: filter_empty_conv)
  then obtain delivered where d: "[f \<leftarrow> zs_wire (zmqServer x). hd f = [66]] =
      map (\<lambda>m. [[66], [], put_response (om_body m)]) delivered" "prefix (map untimed_out delivered) ?mine"
    using client_sees_market [OF run example_rounding two] h(1) by (auto simp: Let_def h(3) answered)
  have "map untimed_out [m \<leftarrow> queued_responses h. om_sessionId m = 2] = ?mine"
    unfolding filter_untimed [symmetric] queued_exact [OF history_market [OF run example_rounding] h(1,2)] h(3) answered ..
  from arg_cong [OF this, of length] have "length [m \<leftarrow> gone (h_sent h). om_sessionId m = 2] = 2" by (simp add: mine)
  moreover from arg_cong [OF trans [OF d(1) [symmetric] frames(1)], of length]
  have "length delivered = length [m \<leftarrow> gone (h_sent h). om_sessionId m = 2]" unfolding length_map .
  ultimately have "length (map untimed_out delivered) = length ?mine" by simp
  with d(2) have "map untimed_out delivered = ?mine" by (metis prefix_def append_eq_conv_conj take_all order_refl)
  with run d(1) show ?thesis by (intro exI [of _ h] exI [of _ x] exI [of _ delivered]) simp
qed

end
