(* ===== verification/Exchange_Fills.thy ===== *)
theory Exchange_Fills
  imports Exchange_Market
begin

text \<open>
  Quantities over a whole execution: what the execution reports of an order add up to, and what of
  it is still in the book, never exceeds what its owner asked for. The bound is proved of the
  market, request by request, and carried over to the running exchange.
\<close>

section \<open>Quantities of one order\<close>

definition open_qty :: "OrderId \<Rightarrow> Book \<Rightarrow> nat" where
  "open_qty i B = depth (filter (\<lambda>e. e_id e = i) (bid_queue B)) + depth (filter (\<lambda>e. e_id e = i) (ask_queue B))"

definition report_qty :: "OrderId \<Rightarrow> OutboundMessage \<Rightarrow> nat" where
  "report_qty i m =
     (case om_body m of
        ExecReportBody r \<Rightarrow> if er_orderId r = i then unat (er_execQty r) else 0
      | _ \<Rightarrow> 0)"

definition reported :: "OrderId \<Rightarrow> OutboundMessage list \<Rightarrow> nat" where
  "reported i ms = (\<Sum>m\<leftarrow>ms. report_qty i m)"

text \<open>What a request asks for under the id: a new order that gets it, or an accepted modify of it while it is in the book.\<close>

definition grant :: "OrderId \<Rightarrow> InboundMessage \<Rightarrow> Market \<Rightarrow> nat" where
  "grant i msg M =
     (case im_body msg of
        NewOrderBody request \<Rightarrow>
          if order_fault request = None \<and> mk_orderId M = i then unat (nor_quantity request) else 0
      | CancelOrderBody request \<Rightarrow> 0
      | ModifyOrderBody request \<Rightarrow>
          if permitted (im_sessionId msg) i M \<and> modifiable request \<and> mor_orderId request = i \<and>
             locate i (mk_book M) \<noteq> None
          then unat (mor_newQuantity request) else 0)"

fun granted :: "OrderId \<Rightarrow> 8 word list \<Rightarrow> InboundMessage list \<Rightarrow> Market \<Rightarrow> nat" where
  "granted i sym_name [] M = 0"
| "granted i sym_name (msg # msgs) M =
     grant i msg M + granted i sym_name msgs (snd (snd (market_step sym_name msg M)))"

lemma reported_simps [simp]:
  "reported i [] = 0" "reported i (m # ms) = report_qty i m + reported i ms"
  "reported i (ms @ ns) = reported i ms + reported i ns"
  by (simp_all add: reported_def)

lemma report_qty_simps [simp]:
  "report_qty i (order_ack s c j st) = 0" "report_qty i (order_reject s c r) = 0"
  "report_qty i (cancel_ack s c j) = 0" "report_qty i (cancel_reject s c j r) = 0"
  "report_qty i (modify_ack s c j p q) = 0" "report_qty i (modify_reject s c j r) = 0"
  "report_qty i (execution_report s j t p q l side) = (if j = i then unat q else 0)"
  by (simp_all add: report_qty_def message_defs)

lemma report_qty_untimed [simp]: "report_qty i (untimed_out m) = report_qty i m"
  by (cases "om_body m") (simp_all add: report_qty_def untimed_out_def)

lemma reported_untimed [simp]: "reported i (map untimed_out ms) = reported i ms"
  by (induction ms) simp_all

lemma reported_subseq: "subseq ms ns \<Longrightarrow> reported i ms \<le> reported i ns"
  by (induction rule: list_emb.induct) auto

section \<open>One book operation\<close>

lemma spec_match_one_order:
  "spec_match crosses r es = (fs, r', es') \<Longrightarrow>
   filled (filter (\<lambda>f. f_id f = i) fs) + depth (filter (\<lambda>e. e_id e = i) es') = depth (filter (\<lambda>e. e_id e = i) es)"
proof (induction crosses r es arbitrary: fs r' es' rule: spec_match.induct)
  case (2 crosses r e es)
  then show ?case by (fastforce split: if_splits prod.splits)
qed simp

lemma filter_insert_behind:
  "depth (filter P (insert_behind cmp k e es)) = depth (filter P es) + (if P e then e_qty e else 0)"
proof -
  have append: "depth (as @ bs) = depth as + depth bs" for as bs by (simp add: depth_def)
  let ?w = "\<lambda>e'. \<not> cmp (k e) (k e')"
  have "depth (filter P (takeWhile ?w es)) + depth (filter P (dropWhile ?w es)) = depth (filter P es)"
    by (metis append filter_append takeWhile_dropWhile_id)
  then show ?thesis by (simp add: insert_behind_def append)
qed

lemma open_qty_sides:
  "open_qty i B = depth (filter (\<lambda>e. e_id e = i) (own_queue side B)) +
     depth (filter (\<lambda>e. e_id e = i) (contra_queue side B))"
  by (simp add: open_qty_def own_queue_def contra_queue_def)

lemma spec_add_one_order:
  assumes "spec_add side crosses rests e B = (fs, r, B')"
  shows "filled (filter (\<lambda>f. f_id f = i) fs) + open_qty i B' \<le> open_qty i B + (if e_id e = i then r else 0)"
  using spec_match_one_order [OF spec_add_queues(1) [OF assms], of i] spec_add_queues(2) [OF assms]
  by (simp add: open_qty_sides [of i _ side] filter_insert_behind)

lemma open_qty_cancel: "open_qty i (spec_cancel j B) \<le> open_qty i B"
proof -
  have "depth (filter (\<lambda>e. e_id e \<noteq> j \<and> e_id e = i) es) \<le> depth (filter (\<lambda>e. e_id e = i) es)" for es
    by (induction es) auto
  then show ?thesis by (simp add: open_qty_def spec_cancel_def conj_commute add_mono)
qed

lemma reported_trades:
  assumes "side = BUY \<or> side = SELL" and "\<forall>f\<in>set fs. f_qty f < 2 ^ 32"
  shows "reported i (trade_reports owner sid n side leaves tid (map (trade_of side n) fs)) =
    (if n = i then filled fs else 0) + filled (filter (\<lambda>f. f_id f = i) fs)"
  using assms(2)
proof (induction fs arbitrary: tid)
  case (Cons f fs)
  then show ?case
    using assms(1) by (auto simp: trade_of_def resting_side_id_def unat_of_nat)
qed simp

section \<open>One request, and all of them\<close>

lemma accept_within_grant:
  assumes "side = BUY \<or> side = SELL"
    and "market_accept sym_name sid request side type M = (outs, feeds, M')"
  shows "reported i outs + open_qty i (mk_book M') \<le>
    open_qty i (mk_book M) + (if mk_orderId M = i then unat (nor_quantity request) else 0)"
proof -
  let ?e = "\<lparr>e_price = nor_price request, e_id = mk_orderId M, e_qty = unat (nor_quantity request)\<rparr>"
  obtain fs r B where add: "spec_add side (takes_price side type (nor_price request)) (type = LIMIT) ?e (mk_book M) = (fs, r, B)"
    by (rule prod_cases3)
  have total: "filled fs + r = unat (nor_quantity request)"
    using spec_add_conserves(1) [OF add] by simp
  have "unat (nor_quantity request) < 2 ^ LENGTH(32)" by (rule unsigned_less)
  then have "\<forall>f\<in>set fs. f_qty f < 2 ^ 32" using fill_le_filled [of _ fs] total by fastforce
  note rep = reported_trades [OF assms(1) this, of i]
  have "mk_book M' = B" and outs: "reported i outs = (if mk_orderId M = i then filled fs else 0) +
      filled (filter (\<lambda>f. f_id f = i) fs)"
    using assms(2) rep by (auto simp: market_accept_def add Let_def with_trades_def)
  with spec_add_one_order [OF add, of i] total show ?thesis by (simp split: if_splits)
qed

lemma modify_within_grant:
  assumes "spec_modify j np nq before B = (ts, B')"
  shows "open_qty i B' \<le> open_qty i B + (if j = i \<and> locate j B \<noteq> None then unat nq else 0)"
proof -
  have "open_qty i C \<le> open_qty i B + (if j = i then unat nq else 0)"
    if add: "spec_add side crosses True \<lparr>e_price = np, e_id = j, e_qty = unat nq\<rparr> (spec_cancel j B) = (fs, r, C)"
    for side crosses fs r C
    using spec_add_one_order [OF add, of i] spec_add_conserves(1) [OF add] open_qty_cancel [of i j B]
    by (simp split: if_splits)
  with assms show ?thesis
    by (fastforce simp: spec_modify_def split: option.splits if_splits prod.splits)
qed

lemma step_within_grant:
  assumes "market_step sym_name msg M = (outs, feeds, M')"
  shows "reported i outs + open_qty i (mk_book M') \<le> open_qty i (mk_book M) + grant i msg M"
proof (cases "im_body msg")
  case (NewOrderBody request)
  show ?thesis
  proof (cases "order_fault request")
    case None
    obtain side type where acc: "acceptable request side type" using order_fault_none [OF None] .
    then have cast: "BuySell_cast (nor_side request) = Some side" and side: "side = BUY \<or> side = SELL"
      by (auto simp: cast_code_iff acceptable_def)
    from assms NewOrderBody None cast obtain t where
      "market_accept sym_name (im_sessionId msg) request side t M = (outs, feeds, M')"
      by (auto simp: market_step_def market_new_def)
    from accept_within_grant [OF side this, of i] NewOrderBody None show ?thesis by (simp add: grant_def)
  next
    case (Some reason)
    with assms NewOrderBody show ?thesis by (auto simp: market_step_def market_new_def)
  qed
next
  case (CancelOrderBody request)
  with assms open_qty_cancel show ?thesis
    by (auto simp: market_step_def market_cancel_def Let_def intro: trans_le_add1 split: if_splits)
next
  case (ModifyOrderBody request)
  obtain ts B where mod: "spec_modify (mor_orderId request) (mor_newPrice request) (mor_newQuantity request)
      (mk_trades M) (mk_book M) = (ts, B)" by force
  show ?thesis
    using assms ModifyOrderBody modify_within_grant [OF mod, of i]
    by (auto simp: market_step_def market_modify_def mod grant_def modifiable_def with_trades_def Let_def
        split: if_splits)
qed

lemma run_within_grant:
  "market_run sym_name msgs M = (reactions, M') \<Longrightarrow>
   reported i (concat (map fst reactions)) + open_qty i (mk_book M') \<le>
   open_qty i (mk_book M) + granted i sym_name msgs M"
proof (induction msgs arbitrary: M reactions)
  case (Cons msg msgs)
  obtain outs feeds M1 where step: "market_step sym_name msg M = (outs, feeds, M1)" by (rule prod_cases3)
  obtain rest where run: "market_run sym_name msgs M1 = (rest, M')" and "reactions = (outs, feeds) # rest"
    using Cons.prems by (auto simp: step split: prod.splits)
  with Cons.IH [OF run] step_within_grant [OF step, of i] show ?case by (simp add: step)
qed simp

text \<open>Order 2 of \<open>example_messages\<close>: 8 asked for, 5 reported; then reduced to 2, which are open.\<close>

lemma example_fills:
  "reported 2 (concat (map fst (fst (market_run name example_messages new_market)))) = 5"
  "open_qty 2 (mk_book (snd (market_run name example_messages new_market))) = 2"
  "granted 2 name example_messages new_market = 8 + 2"
proof -
  obtain reactions M where run: "market_run name example_messages new_market = (reactions, M)" by force
  with example_market [of name] show
    "reported 2 (concat (map fst (fst (market_run name example_messages new_market)))) = 5"
    "open_qty 2 (mk_book (snd (market_run name example_messages new_market))) = 2"
    by (simp_all add: open_qty_def)
  show "granted 2 name example_messages new_market = 8 + 2"
    by (simp add: example_messages_def grant_def modifiable_def market_defs Let_def)
qed

section \<open>The running exchange\<close>

text \<open>
  Property C6. No order is ever filled beyond what was asked for, in any execution: the quantities
  of all execution reports queued for an order, as the incoming side or the resting one and
  whatever the interleaving, together with what of it is still in the book, are at most the
  quantity of the request that got the id plus that of each accepted modify of it while it is in the book.
\<close>

theorem order_never_overfilled:
  assumes "exchange_history fl h x" and "rounding_ok fl"
  shows "reported i (queued_responses h) + open_qty i (book_abs (orderbook (matchingEngine x))) \<le>
    granted i (symbol (matchingEngine x)) (processed h) new_market"
proof -
  obtain reactions where
    run: "market_run (symbol (matchingEngine x)) (processed h) new_market = (reactions, market_of (finished x))"
    and queued: "subseq (map untimed_out (queued_responses h)) (concat (map fst reactions))"
    by (rule queued_within [OF history_market [OF assms]])
  from reported_subseq [OF queued, of i] run_within_grant [OF run, of i] show ?thesis
    by (simp add: open_qty_def new_market_def finished_def)
qed

text \<open>The execution in which two clients trade: the second asks for 8, is filled 5, and 3 are open.\<close>

theorem order_never_overfilled_witness:
  "\<exists>h x. exchange_history (\<lambda>r. r) h x \<and> reported 2 (queued_responses h) = 5 \<and>
     open_qty 2 (book_abs (orderbook (matchingEngine x))) = 3 \<and>
     granted 2 (symbol (matchingEngine x)) (processed h) new_market = 8 \<and>
     reported 2 (queued_responses h) + open_qty 2 (book_abs (orderbook (matchingEngine x))) \<le> 8"
proof -
  obtain h x where run: "exchange_history (\<lambda>r. r) h x" and h: "\<not> h_overflow h" "engine_todo x = []"
    "processed h = trading_messages"
    and book: "book_abs (orderbook (matchingEngine x)) =
      \<lparr>bid_queue = [\<lparr>e_price = 101, e_id = 2, e_qty = 3\<rparr>], ask_queue = []\<rparr>"
    unfolding processed_def by (rule trading_history [of "\<lambda>_. 3"])
  have granted: "granted 2 name trading_messages new_market = 8" for name
    by (simp add: trading_messages_def sell_body_def buy_body_def new_NewOrderRequest_def grant_def
        market_defs Let_def)
  have "reported 2 (map untimed_out (queued_responses h)) = 5"
    unfolding queued_exact [OF history_market [OF run example_rounding] h(1,2)] h(3) trading_answers by simp
  then have "reported 2 (queued_responses h) = 5" by simp
  moreover have "open_qty 2 (book_abs (orderbook (matchingEngine x))) = 3" by (simp add: open_qty_def book)
  moreover note order_never_overfilled [OF run example_rounding, of 2]
  ultimately show ?thesis using run granted h(3) by metis
qed

end
