(* ===== verification/Delivery_Properties.thy ===== *)
theory Delivery_Properties
  imports Exchange_Market
begin

text \<open>
  What becomes of the messages that the engine has queued: the order in which clients get their
  responses, what a failed send loses, what the feed thread publishes, and what is left behind when
  the exchange stops.
\<close>

section \<open>Responses\<close>

text \<open>
  Property C14. Over a whole execution, requests are processed in the order in which the queue
  accepted them, none twice, none skipped; and what the engine queued for a connected client, over
  all requests and in order, is what the server has taken for that client followed by what still
  waits for it. Of what was taken, the responses whose sends all returned were handed to the socket,
  addressed to the client, as exactly their bytes, in this order, with nothing else; the others are those whose sends threw, and
  they are not sent again.
\<close>

theorem responses_arrive_in_order:
  assumes "exchange_history fl h x" and "rounding_ok fl"
    and "zs_sessionToIdentity (zmqServer x) sid = Some identity"
  shows "h_accepted h = map fst (h_answers h) @ pending (matchingEngine x) \<and>
    (let taken = [mk \<leftarrow> h_sent h. om_sessionId (fst mk) = sid];
         frames = (\<lambda>m. [identity, [], put_response (om_body m)])
     in [m \<leftarrow> queued_responses h. om_sessionId m = sid] =
          map fst taken @ [m \<leftarrow> out_pending (matchingEngine x). om_sessionId m = sid] \<and>
        [f \<leftarrow> zs_wire (zmqServer x). hd f = identity] = map frames (gone taken) \<and>
        [f \<leftarrow> map snd (zs_failed (zmqServer x)). hd f = identity] = map frames (not_gone taken))"
proof -
  obtain T where inv: "delivery_inv T h x" using history_delivery [OF assms(1,2)] by blast
  note frames = frames_to_one [OF inv reachable_inv [OF history_reachable [OF assms(1)] assms(2)] assms(3)]
  let ?P = "\<lambda>mk :: OutboundMessage \<times> bool. om_sessionId (fst mk) = sid"
  have "gone (filter ?P ms) = [m \<leftarrow> gone ms. om_sessionId m = sid]"
    "not_gone (filter ?P ms) = [m \<leftarrow> not_gone ms. om_sessionId m = sid]"
    "map fst (filter ?P ms) = [m \<leftarrow> map fst ms. om_sessionId m = sid]" for ms
    by (induction ms) (auto simp: gone_def not_gone_def)
  moreover have "h_accepted h = map fst (h_answers h) @ pending (matchingEngine x)"
    "queued_responses h = map fst (h_sent h) @ out_pending (matchingEngine x)"
    using inv by (simp_all add: delivery_inv_def streams_ok_def)
  ultimately show ?thesis using frames by (simp add: Let_def)
qed

text \<open>
  The two clients of \<open>trading_history\<close>, where the first send of the buyer's execution report throws:
  the buyer only gets the acknowledgement.
\<close>

theorem responses_arrive_in_order_witness:
  "\<exists>h x d1 d2. exchange_history (\<lambda>r. r) h x \<and>
     [mk \<leftarrow> h_sent h. om_sessionId (fst mk) = 2] = [(d1, False), (d2, True)] \<and>
     untimed_out d1 = execution_report 2 2 1 100 5 3 BUY \<and> untimed_out d2 = order_ack 2 80 2 MODIFY \<and>
     [f \<leftarrow> zs_wire (zmqServer x). hd f = [66]] = [[[66], [], put_response (om_body d2)]] \<and>
     [f \<leftarrow> map snd (zs_failed (zmqServer x)). hd f = [66]] = [[[66], [], put_response (om_body d1)]]"
proof -
  let ?accepted = "\<lambda>n. if n = 1 then 0 else 3"
  obtain h x where run: "exchange_history (\<lambda>r. r) h x" and h: "\<not> h_overflow h" "engine_todo x = []"
    "processed h = trading_messages"
    and sent: "h_sent h = map (\<lambda>(m, k). (m, 3 \<le> k \<and> zs_sessionToIdentity (zmqServer x) (om_sessionId m) \<noteq> None))
      (with_outcomes ?accepted (queued_responses h))"
    and two: "zs_sessionToIdentity (zmqServer x) 2 = Some [66]"
    unfolding processed_def by (rule trading_history [of ?accepted])
  have "map untimed_out (queued_responses h) = [order_ack 1 70 1 NEW, execution_report 2 2 1 100 5 3 BUY,
      execution_report 1 1 2 100 5 0 SELL, order_ack 2 80 2 MODIFY]"
    unfolding queued_exact [OF history_market [OF run example_rounding] h(1,2)] h(3) trading_answers by simp
  then obtain a d1 b d2 where q: "queued_responses h = [a, d1, b, d2]"
    and d: "untimed_out a = order_ack 1 70 1 NEW" "untimed_out d1 = execution_report 2 2 1 100 5 3 BUY"
      "untimed_out b = execution_report 1 1 2 100 5 0 SELL" "untimed_out d2 = order_ack 2 80 2 MODIFY"
    by (auto simp: map_eq_Cons_conv)
  have "om_sessionId a = 1" "om_sessionId d1 = 2" "om_sessionId b = 1" "om_sessionId d2 = 2"
    using d [THEN arg_cong [of _ _ om_sessionId]] by (simp_all add: message_defs)
  then have taken: "[mk \<leftarrow> h_sent h. om_sessionId (fst mk) = 2] = [(d1, False), (d2, True)]"
    by (simp add: sent q two)
  then have "gone [mk \<leftarrow> h_sent h. om_sessionId (fst mk) = 2] = [d2]"
    "not_gone [mk \<leftarrow> h_sent h. om_sessionId (fst mk) = 2] = [d1]" by (simp_all add: gone_def not_gone_def)
  with responses_arrive_in_order [OF run example_rounding two] taken run d(2,4) show ?thesis
    by (intro exI [of _ h] exI [of _ x] exI [of _ d1] exI [of _ d2]) (simp add: Let_def)
qed

section \<open>Addressees and market data\<close>

text \<open>
  Property C24. As long as the server has not been stopped, no response is dropped for want of an
  address: every response that the engine ever queued is for a connected client or for the order
  generator. Every market data message that the engine queued, in order, either still waits or was
  taken by the feed thread; each that was taken was handed to \<^verbatim>\<open>sendto\<close> once, as one datagram with
  the message's bytes, in this order, unless \<^verbatim>\<open>inet_pton\<close> refuses the group's address, in which case
  none is; and those that went out whole are those for which \<^verbatim>\<open>sendto\<close> returned their length.
\<close>

theorem every_message_has_a_receiver:
  assumes "exchange_history fl h x" and "rounding_ok fl"
  shows "(phase (main_pc x) \<le> 4 \<longrightarrow>
      (\<forall>m\<in>set (queued_responses h). om_sessionId m = DUMMY_SESSION_ID \<or>
         zs_sessionToIdentity (zmqServer x) (om_sessionId m) \<noteq> None)) \<and>
    (let u = fh_multicast (feedHandler x)
     in queued_ticks h = map fst (h_published h) @ feed_pending (matchingEngine x) \<and>
        datagrams u = (if address_ok u then map (put_market_data \<circ> fst) (h_published h) else []) \<and>
        sent_whole u = map put_market_data (gone (h_published h)))"
proof -
  obtain T where inv: "delivery_inv T h x" using history_delivery [OF assms] by blast
  have "om_sessionId ` set (queued_responses h) \<subseteq> known T" using inv by (simp add: delivery_inv_def sids_ok_def)
  then have "\<forall>m\<in>set (queued_responses h). om_sessionId m = DUMMY_SESSION_ID \<or> T (om_sessionId m) \<noteq> None"
    by (auto simp: known_def)
  moreover have "phase (main_pc x) \<le> 4 \<longrightarrow> T = zs_sessionToIdentity (zmqServer x)"
    using inv unfolding delivery_inv_def table_ok_def by blast
  moreover have "queued_ticks h = map fst (h_published h) @ feed_pending (matchingEngine x)"
    "datagrams (fh_multicast (feedHandler x)) =
       (if address_ok (fh_multicast (feedHandler x)) then map (put_market_data \<circ> fst) (h_published h) else [])"
    "sent_whole (fh_multicast (feedHandler x)) = map put_market_data (gone (h_published h))"
    using inv unfolding delivery_inv_def streams_ok_def by blast+
  ultimately show ?thesis by (auto simp: Let_def)
qed

text \<open>The trade and the two ticks of \<open>trading_history\<close> are published.\<close>

theorem every_message_has_a_receiver_witness:
  "\<exists>h x. exchange_history (\<lambda>r. r) h x \<and> length (queued_ticks h) = 3 \<and>
     datagrams (fh_multicast (feedHandler x)) = map put_market_data (queued_ticks h) \<and>
     sent_whole (fh_multicast (feedHandler x)) = map put_market_data (queued_ticks h) \<and>
     map fst (h_published h) = queued_ticks h"
proof -
  obtain h x where run: "exchange_history (\<lambda>r. r) h x" "lasting x" and pub: "h_published h = []"
    and fd: "feed_pc x = FeedCheck" "feedHandler x = feedHandler example_exchange"
    and three: "length (feed_pending (matchingEngine x)) = 3"
    by (rule trading_history [of "\<lambda>_. 3"])
  let ?ms = "feed_pending (matchingEngine x)" and ?y = "x\<lparr>feed_pc := FeedDrain\<rparr>"
  have fh: "fh_running (feedHandler example_exchange)" "healthy (fh_multicast (feedHandler example_exchange))"
    "datagrams (fh_multicast (feedHandler example_exchange)) = []" "sent_whole (fh_multicast (feedHandler example_exchange)) = []"
    "address_ok (fh_multicast (feedHandler example_exchange))"
    using exchange_start_up [OF new_exchange_idle, of 3 True True example_env example_config]
    by (simp_all add: example_exchange_def new_exchange_def new_FeedHandler_def new_UdpMulticast_def healthy_def
        example_env_def)
  have "exchange_step (\<lambda>r. r) FeedThread x ?y" using feed_look [OF fd(1), of "\<lambda>r. r"] fh(1) by (simp add: fd(2))
  from history_stepped [OF run this] have run2: "exchange_history (\<lambda>r. r) (observe FeedThread x ?y h) ?y" .
  have last: "lasting ?y" "feed_pc ?y = FeedDrain" "feed_pending (matchingEngine ?y) = ?ms"
    using run(2) by (simp_all add: lasting_def)
  obtain h' e where r3: "exchange_history (\<lambda>r. r) h'
      (?y\<lparr>feedHandler := fold processMessage ?ms (feedHandler ?y), matchingEngine := e\<rparr>)"
    and e: "feed_pending e = []" "h_answers h' = h_answers h"
    using feed_publishes_all [OF run2 example_rounding last] by (auto simp: observe_def Let_def)
  obtain T where "delivery_inv T h x" using history_delivery [OF run(1) example_rounding] by blast
  then have "queued_ticks h = ?ms" by (simp add: delivery_inv_def streams_ok_def pub)
  then have ticks: "queued_ticks h' = ?ms" by (simp add: queued_ticks_def e(2))
  note out = processMessages_healthy [OF fh(2), of ?ms]
  from every_message_has_a_receiver [OF r3 example_rounding] have "map fst (h_published h') = ?ms"
    by (simp add: Let_def ticks e(1))
  let ?z = "?y\<lparr>feedHandler := fold processMessage ?ms (feedHandler ?y), matchingEngine := e\<rparr>"
  from \<open>map fst (h_published h') = ?ms\<close> out show ?thesis
    by (intro exI [of _ h'] exI [of _ ?z] conjI r3) (simp_all add: ticks three fh(3,4) fd(2))
qed

section \<open>What a shutdown loses\<close>






end
