(* ===== verification/Queue_Steps.thy ===== *)
theory Queue_Steps
  imports Ring_Queue
begin

text \<open>
  The queues of \<^verbatim>\<open>include/LockFreeQueue.h\<close> at the grain of their memory accesses. A call of
  \<open>push\<close> or \<open>pop\<close> is a program counter that carries the call's local variables; one step is one
  load, store or exchange of shared memory, and the steps of any number of producers and of the
  consumer interleave freely. Every interleaving behaves like a bounded first-in first-out list
  whose operations happen at once: a push where it stores the tail (or finds the queue full), a
  pop where it stores the head (or finds the queue empty).

  The interleaving is sequentially consistent; the acquire and release orderings of the code are
  the subject of \<open>Queue_Memory\<close> and \<open>Queue_Ordering\<close>. A producer never writes the slot that the
  consumer reads.
\<close>

unbundle bit_operations_syntax

section \<open>Calls in progress\<close>

text \<open>
  \<open>PushSpin\<close>: about to exchange the lock. \<open>PushStart\<close>: about to load the tail. \<open>PushTail\<close>: has the
  tail, about to load the head. \<open>PushRoom\<close>: about to write the slot. \<open>PushPublish\<close>: about to store
  the tail. \<open>PushReturn\<close>: about to return (and to release the lock, where there is one).
\<close>

datatype 'a push_pc =
  PushIdle
| PushSpin 'a
| PushStart 'a
| PushTail 'a size_t
| PushRoom 'a size_t
| PushPublish 'a size_t
| PushReturn bool

text \<open>
  \<open>PopHead\<close>: has the head, about to load the tail. \<open>PopFull\<close>: about to read the slot.
  \<open>PopItem\<close>: about to store the head and return the item.
\<close>

datatype 'a pop_pc =
  PopIdle
| PopHead size_t
| PopFull size_t
| PopItem size_t 'a

text \<open>What a step shows to the outside: a call takes effect, or nothing does.\<close>

datatype 'a queue_event =
  Silent
| Accepted 'a
| Refused 'a
| Taken 'a
| FoundEmpty

fun push_micro ::
  "size_t \<Rightarrow> 'a push_pc \<Rightarrow> ('a, 'm) SPSCQueue_scheme \<Rightarrow>
   'a queue_event \<times> 'a push_pc \<times> ('a, 'm) SPSCQueue_scheme" where
  "push_micro capacity (PushStart x) q = (Silent, PushTail x (q_tail q), q)"
| "push_micro capacity (PushTail x currentTail) q =
     (if (currentTail + 1) AND (capacity - 1) = q_head q
      then (Refused x, PushReturn False, q)
      else (Silent, PushRoom x currentTail, q))"
| "push_micro capacity (PushRoom x currentTail) q =
     (Silent, PushPublish x currentTail, q\<lparr>q_buffer := (q_buffer q)(currentTail := x)\<rparr>)"
| "push_micro capacity (PushPublish x currentTail) q =
     (Accepted x, PushReturn True, q\<lparr>q_tail := (currentTail + 1) AND (capacity - 1)\<rparr>)"
| "push_micro capacity pc q = (Silent, pc, q)"

fun pop_micro ::
  "size_t \<Rightarrow> 'a pop_pc \<Rightarrow> ('a, 'm) SPSCQueue_scheme \<Rightarrow>
   'a queue_event \<times> 'a pop_pc \<times> ('a, 'm) SPSCQueue_scheme" where
  "pop_micro capacity PopIdle q = (Silent, PopHead (q_head q), q)"
| "pop_micro capacity (PopHead currentHead) q =
     (if currentHead = q_tail q then (FoundEmpty, PopIdle, q)
      else (Silent, PopFull currentHead, q))"
| "pop_micro capacity (PopFull currentHead) q =
     (Silent, PopItem currentHead (q_buffer q currentHead), q)"
| "pop_micro capacity (PopItem currentHead item) q =
     (Taken item, PopIdle, q\<lparr>q_head := (currentHead + 1) AND (capacity - 1)\<rparr>)"

section \<open>The two systems\<close>

text \<open>One producer and one consumer around an \<open>SPSCQueue\<close>.\<close>

record 'a spsc_sys =
  ss_queue :: "'a SPSCQueue"
  ss_producer :: "'a push_pc"
  ss_consumer :: "'a pop_pc"

inductive spsc_step :: "size_t \<Rightarrow> 'a spsc_sys \<Rightarrow> 'a queue_event \<Rightarrow> 'a spsc_sys \<Rightarrow> bool"
  for capacity :: size_t where
  spsc_call: "ss_producer s = PushIdle \<Longrightarrow>
     spsc_step capacity s Silent (s\<lparr>ss_producer := PushStart x\<rparr>)"
| spsc_micro: "push_micro capacity (ss_producer s) (ss_queue s) = (ev, pc, q) \<Longrightarrow>
     spsc_step capacity s ev (s\<lparr>ss_producer := pc, ss_queue := q\<rparr>)"
| spsc_return: "ss_producer s = PushReturn ok \<Longrightarrow>
     spsc_step capacity s Silent (s\<lparr>ss_producer := PushIdle\<rparr>)"
| spsc_consume: "pop_micro capacity (ss_consumer s) (ss_queue s) = (ev, pc, q) \<Longrightarrow>
     spsc_step capacity s ev (s\<lparr>ss_consumer := pc, ss_queue := q\<rparr>)"

text \<open>Any number of producers, numbered, and one consumer around an \<open>MPSCQueue\<close>.\<close>

record 'a mpsc_sys =
  ms_queue :: "'a MPSCQueue"
  ms_producer :: "nat \<Rightarrow> 'a push_pc"
  ms_consumer :: "'a pop_pc"

inductive mpsc_step :: "size_t \<Rightarrow> 'a mpsc_sys \<Rightarrow> 'a queue_event \<Rightarrow> 'a mpsc_sys \<Rightarrow> bool"
  for capacity :: size_t where
  mpsc_call: "ms_producer s i = PushIdle \<Longrightarrow>
     mpsc_step capacity s Silent (s\<lparr>ms_producer := (ms_producer s)(i := PushSpin x)\<rparr>)"
| mpsc_spin: "ms_producer s i = PushSpin x \<Longrightarrow> producerLock (ms_queue s) \<Longrightarrow>
     mpsc_step capacity s Silent s"
| mpsc_acquire: "ms_producer s i = PushSpin x \<Longrightarrow> \<not> producerLock (ms_queue s) \<Longrightarrow>
     mpsc_step capacity s Silent
       (s\<lparr>ms_producer := (ms_producer s)(i := PushStart x),
          ms_queue := ms_queue s\<lparr>producerLock := True\<rparr>\<rparr>)"
| mpsc_micro: "push_micro capacity (ms_producer s i) (ms_queue s) = (ev, pc, q) \<Longrightarrow>
     mpsc_step capacity s ev (s\<lparr>ms_producer := (ms_producer s)(i := pc), ms_queue := q\<rparr>)"
| mpsc_release: "ms_producer s i = PushReturn ok \<Longrightarrow>
     mpsc_step capacity s Silent
       (s\<lparr>ms_producer := (ms_producer s)(i := PushIdle),
          ms_queue := ms_queue s\<lparr>producerLock := False\<rparr>\<rparr>)"
| mpsc_consume: "pop_micro capacity (ms_consumer s) (ms_queue s) = (ev, pc, q) \<Longrightarrow>
     mpsc_step capacity s ev (s\<lparr>ms_consumer := pc, ms_queue := q\<rparr>)"

inductive mpsc_run :: "size_t \<Rightarrow> 'a mpsc_sys \<Rightarrow> 'a queue_event list \<Rightarrow> 'a mpsc_sys \<Rightarrow> bool"
  for capacity :: size_t where
  run_nil: "mpsc_run capacity s [] s"
| run_cons: "mpsc_step capacity s ev t \<Longrightarrow> mpsc_run capacity t evs u \<Longrightarrow>
     mpsc_run capacity s (ev # evs) u"

inductive spsc_run :: "size_t \<Rightarrow> 'a spsc_sys \<Rightarrow> 'a queue_event list \<Rightarrow> 'a spsc_sys \<Rightarrow> bool"
  for capacity :: size_t where
  spsc_run_nil: "spsc_run capacity s [] s"
| spsc_run_cons: "spsc_step capacity s ev t \<Longrightarrow> spsc_run capacity t evs u \<Longrightarrow>
     spsc_run capacity s (ev # evs) u"

definition mpsc_start :: "'a \<Rightarrow> 'a mpsc_sys" where
  "mpsc_start d = \<lparr>ms_queue = mpsc_new d, ms_producer = (\<lambda>_. PushIdle), ms_consumer = PopIdle\<rparr>"

definition spsc_start :: "'a \<Rightarrow> 'a spsc_sys" where
  "spsc_start d = \<lparr>ss_queue = spsc_new d, ss_producer = PushIdle, ss_consumer = PopIdle\<rparr>"

section \<open>The specification: a bounded list\<close>

fun fifo_next :: "nat \<Rightarrow> 'a queue_event \<Rightarrow> 'a list \<Rightarrow> 'a list option" where
  "fifo_next bound Silent xs = Some xs"
| "fifo_next bound (Accepted x) xs = (if length xs < bound then Some (xs @ [x]) else None)"
| "fifo_next bound (Refused x) xs = (if length xs = bound then Some xs else None)"
| "fifo_next bound (Taken x) xs =
     (case xs of [] \<Rightarrow> None | y # ys \<Rightarrow> if y = x then Some ys else None)"
| "fifo_next bound FoundEmpty xs = (if xs = [] then Some [] else None)"

fun fifo_run :: "nat \<Rightarrow> 'a queue_event list \<Rightarrow> 'a list \<Rightarrow> 'a list option" where
  "fifo_run bound [] xs = Some xs"
| "fifo_run bound (ev # evs) xs = Option.bind (fifo_next bound ev xs) (fifo_run bound evs)"

fun accepted_items :: "'a queue_event list \<Rightarrow> 'a list" where
  "accepted_items [] = []"
| "accepted_items (Accepted x # evs) = x # accepted_items evs"
| "accepted_items (_ # evs) = accepted_items evs"

fun taken_items :: "'a queue_event list \<Rightarrow> 'a list" where
  "taken_items [] = []"
| "taken_items (Taken x # evs) = x # taken_items evs"
| "taken_items (_ # evs) = taken_items evs"

text \<open>Nothing is lost, invented, duplicated or reordered between the two ends.\<close>

lemma fifo_next_items:
  "fifo_next bound ev xs = Some ys \<Longrightarrow> xs @ accepted_items [ev] = taken_items [ev] @ ys"
  by (cases ev) (auto split: if_splits list.splits)

lemma items_Cons:
  "accepted_items (ev # evs) = accepted_items [ev] @ accepted_items evs"
  "taken_items (ev # evs) = taken_items [ev] @ taken_items evs"
  by (cases ev, simp_all)+

lemma fifo_run_items:
  "fifo_run bound evs xs = Some ys \<Longrightarrow> xs @ accepted_items evs = taken_items evs @ ys"
proof (induction evs arbitrary: xs)
  case Nil
  then show ?case by simp
next
  case (Cons ev evs)
  then obtain zs where zs: "fifo_next bound ev xs = Some zs" "fifo_run bound evs zs = Some ys"
    by (auto simp: bind_eq_Some_conv)
  have "xs @ accepted_items (ev # evs) = (xs @ accepted_items [ev]) @ accepted_items evs"
    by (subst items_Cons) simp
  also have "\<dots> = taken_items [ev] @ (zs @ accepted_items evs)"
    using fifo_next_items [OF zs(1)] by simp
  also have "\<dots> = taken_items (ev # evs) @ ys"
    using Cons.IH [OF zs(2)] by (subst (2) items_Cons) simp
  finally show ?case .
qed

section \<open>One step of a call, whoever runs beside it\<close>

definition push_ok :: "size_t \<Rightarrow> ('a, 'm) SPSCQueue_scheme \<Rightarrow> 'a push_pc \<Rightarrow> bool" where
  "push_ok capacity q pc =
     (case pc of
        PushTail x t \<Rightarrow> t = q_tail q
      | PushRoom x t \<Rightarrow> t = q_tail q \<and> Suc (rb_count capacity q) \<noteq> unat capacity
      | PushPublish x t \<Rightarrow> t = q_tail q \<and> Suc (rb_count capacity q) \<noteq> unat capacity \<and> q_buffer q t = x
      | _ \<Rightarrow> True)"

definition pop_ok :: "size_t \<Rightarrow> ('a, 'm) SPSCQueue_scheme \<Rightarrow> 'a pop_pc \<Rightarrow> bool" where
  "pop_ok capacity q pc =
     (case pc of
        PopIdle \<Rightarrow> True
      | PopHead h \<Rightarrow> h = q_head q
      | PopFull h \<Rightarrow> h = q_head q \<and> rb_count capacity q \<noteq> 0
      | PopItem h y \<Rightarrow> h = q_head q \<and> rb_count capacity q \<noteq> 0 \<and> y = q_buffer q h)"

lemma rb_index_not_tail:
  assumes inv: "rb_inv capacity q" and "i < rb_count capacity q"
  shows "rb_index capacity q i \<noteq> q_tail q"
proof
  assume "rb_index capacity q i = q_tail q"
  then have "(unat (q_head q) + i) mod unat capacity = unat (q_tail q)"
    using unat_rb_index [OF inv, of i] by simp
  with inv assms(2) rb_count_bound [OF inv] show False
    by (auto simp: rb_inv_def rb_count_def ring_count mod_wrap split: if_splits)
qed

text \<open>Writing the free slot at the tail changes nothing that is visible.\<close>

lemma rb_write_slot:
  fixes q :: "('a, 'm) SPSCQueue_scheme"
  defines "write x \<equiv> q\<lparr>q_buffer := (q_buffer q)(q_tail q := x)\<rparr>"
  assumes inv: "rb_inv capacity q"
  shows "rb_inv capacity (write x)" and "rb_count capacity (write x) = rb_count capacity q"
    and "rb_list capacity (write x) = rb_list capacity q"
proof -
  show "rb_inv capacity (write x)" and count: "rb_count capacity (write x) = rb_count capacity q"
    using inv by (simp_all add: rb_inv_def rb_count_def write_def)
  have "rb_index capacity (write x) i = rb_index capacity q i" for i
    by (simp add: rb_index_def write_def)
  then show "rb_list capacity (write x) = rb_list capacity q"
    unfolding rb_list_def count using rb_index_not_tail [OF inv]
    by (intro map_cong) (auto simp: write_def)
qed

lemma rb_publish:
  fixes q :: "('a, 'm) SPSCQueue_scheme" and capacity :: size_t
  defines "q' \<equiv> q\<lparr>q_tail := (q_tail q + 1) AND (capacity - 1)\<rparr>"
  assumes inv: "rb_inv capacity q" and room: "Suc (rb_count capacity q) \<noteq> unat capacity"
    and slot: "q_buffer q (q_tail q) = x"
  shows "rb_inv capacity q'" and "rb_list capacity q' = rb_list capacity q @ [x]"
proof -
  have eq: "q' = q\<lparr>q_buffer := (q_buffer q)(q_tail q := x),
                  q_tail := (q_tail q + 1) AND (capacity - 1)\<rparr>"
    using slot by (cases q) (auto simp: q'_def)
  show "rb_inv capacity q'" and "rb_list capacity q' = rb_list capacity q @ [x]"
    unfolding eq by (rule rb_push [OF inv room])+
qed


lemma pop_ok_frame:
  assumes "q_head q' = q_head q" and "rb_count capacity q \<le> rb_count capacity q'"
    and "q_buffer q' (q_head q) = q_buffer q (q_head q)" and "pop_ok capacity q pc"
  shows "pop_ok capacity q' pc"
  using assms by (auto simp: pop_ok_def split: pop_pc.splits)

lemma push_ok_frame:
  assumes "q_tail q' = q_tail q" and "rb_count capacity q' \<le> rb_count capacity q"
    and "rb_inv capacity q" and "q_buffer q' = q_buffer q" and "push_ok capacity q pc"
  shows "push_ok capacity q' pc"
  using assms rb_count_bound [OF assms(3)] by (auto simp: push_ok_def split: push_pc.splits)

text \<open>
  A step of a push: the queue stays well formed, the event is a legal step of the bounded list,
  and a pop in progress is not disturbed.
\<close>

lemma push_micro_step:
  assumes inv: "rb_inv capacity q" and ok: "push_ok capacity q pc"
    and step: "push_micro capacity pc q = (ev, pc', q')"
  shows "rb_inv capacity q'" and "push_ok capacity q' pc'"
    and "fifo_next (unat capacity - 1) ev (rb_list capacity q) = Some (rb_list capacity q')"
    and "pop_ok capacity q cpc \<Longrightarrow> pop_ok capacity q' cpc"
proof -
  note bounds = rb_count_bound [OF inv]
  have head: "rb_count capacity q \<noteq> 0 \<Longrightarrow> q_head q \<noteq> q_tail q"
    using pop_empty_iff [OF inv] by simp
  have "rb_inv capacity q' \<and> push_ok capacity q' pc' \<and>
      fifo_next (unat capacity - 1) ev (rb_list capacity q) = Some (rb_list capacity q') \<and>
      (pop_ok capacity q cpc \<longrightarrow> pop_ok capacity q' cpc)"
  proof (cases pc)
    case (PushTail x t)
    with ok have "t = q_tail q" by (simp add: push_ok_def)
    with PushTail step inv push_full_iff [OF inv] show ?thesis
      by (auto simp: push_ok_def split: if_splits)
  next
    case (PushRoom x t)
    with ok have t: "t = q_tail q" "Suc (rb_count capacity q) \<noteq> unat capacity"
      by (simp_all add: push_ok_def)
    have q': "q' = q\<lparr>q_buffer := (q_buffer q)(q_tail q := x)\<rparr>"
      and ev: "ev = Silent" "pc' = PushPublish x (q_tail q)"
      using PushRoom step t(1) by simp_all
    note slot = rb_write_slot [OF inv, of x, folded q']
    have "pop_ok capacity q cpc \<longrightarrow> pop_ok capacity q' cpc"
      using slot(2) head by (auto simp: pop_ok_def q' split: pop_pc.splits)
    with slot t ev show ?thesis by (simp add: push_ok_def) (simp add: q')
  next
    case (PushPublish x t)
    with ok have t: "t = q_tail q" "Suc (rb_count capacity q) \<noteq> unat capacity"
      "q_buffer q (q_tail q) = x" by (auto simp: push_ok_def)
    have q': "q' = q\<lparr>q_tail := (q_tail q + 1) AND (capacity - 1)\<rparr>"
      and ev: "ev = Accepted x" "pc' = PushReturn True"
      using PushPublish step t(1) by simp_all
    note publish = rb_publish [OF inv t(2,3), folded q']
    have "rb_count capacity q' = Suc (rb_count capacity q)"
      using arg_cong [OF publish(2), of length] by simp
    then have "pop_ok capacity q cpc \<longrightarrow> pop_ok capacity q' cpc"
      using pop_ok_frame [of q' q capacity cpc] by (simp add: q')
    with publish t(2) bounds ev show ?thesis by (simp add: push_ok_def)
  qed (use step inv in \<open>auto simp: push_ok_def\<close>)
  then show "rb_inv capacity q'" and "push_ok capacity q' pc'"
    and "fifo_next (unat capacity - 1) ev (rb_list capacity q) = Some (rb_list capacity q')"
    and "pop_ok capacity q cpc \<Longrightarrow> pop_ok capacity q' cpc" by blast+
qed

text \<open>The same for a step of a pop: no push in progress is disturbed.\<close>

lemma pop_micro_step:
  assumes inv: "rb_inv capacity q" and ok: "pop_ok capacity q pc"
    and step: "pop_micro capacity pc q = (ev, pc', q')"
  shows "rb_inv capacity q'" and "pop_ok capacity q' pc'"
    and "fifo_next (unat capacity - 1) ev (rb_list capacity q) = Some (rb_list capacity q')"
    and "push_ok capacity q ppc \<Longrightarrow> push_ok capacity q' ppc"
proof -
  have empty: "rb_list capacity q = [] \<longleftrightarrow> q_head q = q_tail q"
    using pop_empty_iff [OF inv] length_rb_list [of capacity q] by (metis length_0_conv)
  have "rb_inv capacity q' \<and> pop_ok capacity q' pc' \<and>
      fifo_next (unat capacity - 1) ev (rb_list capacity q) = Some (rb_list capacity q') \<and>
      (push_ok capacity q ppc \<longrightarrow> push_ok capacity q' ppc)"
  proof (cases pc)
    case (PopHead h)
    with ok have "h = q_head q" by (simp add: pop_ok_def)
    with PopHead step inv empty pop_empty_iff [OF inv] show ?thesis
      by (auto simp: pop_ok_def split: if_splits)
  next
    case (PopItem h y)
    with ok have h: "h = q_head q" "rb_count capacity q \<noteq> 0" "y = q_buffer q (q_head q)"
      by (auto simp: pop_ok_def)
    have q': "q' = q\<lparr>q_head := (q_head q + 1) AND (capacity - 1)\<rparr>"
      and ev: "ev = Taken y" "pc' = PopIdle"
      using PopItem step h(1) by simp_all
    note pop = rb_pop [OF inv h(2), folded q']
    have "rb_count capacity q = Suc (rb_count capacity q')"
      using arg_cong [OF pop(2), of length] by simp
    then have "push_ok capacity q ppc \<longrightarrow> push_ok capacity q' ppc"
      using push_ok_frame [OF _ _ inv, of q' ppc] by (simp add: q')
    with pop ev h(3) show ?thesis by (simp add: pop_ok_def)
  qed (use step inv ok in \<open>auto simp: pop_ok_def\<close>)
  then show "rb_inv capacity q'" and "pop_ok capacity q' pc'"
    and "fifo_next (unat capacity - 1) ev (rb_list capacity q) = Some (rb_list capacity q')"
    and "push_ok capacity q ppc \<Longrightarrow> push_ok capacity q' ppc" by blast+
qed

lemma push_micro_lock:
  "push_micro capacity pc q = (ev, pc', q') \<Longrightarrow> producerLock q' = producerLock q"
  "pop_micro capacity cpc q = (ev, cpc', q') \<Longrightarrow> producerLock q' = producerLock q"
  for q :: "'a MPSCQueue"
  by (cases pc; auto split: if_splits) (cases cpc; auto split: if_splits)

section \<open>The invariant of the two systems\<close>

definition spsc_sys_inv :: "size_t \<Rightarrow> 'a spsc_sys \<Rightarrow> bool" where
  "spsc_sys_inv capacity s \<longleftrightarrow>
     rb_inv capacity (ss_queue s) \<and> push_ok capacity (ss_queue s) (ss_producer s) \<and>
     pop_ok capacity (ss_queue s) (ss_consumer s)"

lemma spsc_step_keeps:
  assumes "spsc_step capacity s ev t" and "spsc_sys_inv capacity s"
  shows "spsc_sys_inv capacity t \<and> fifo_next (unat capacity - 1) ev
    (rb_list capacity (ss_queue s)) = Some (rb_list capacity (ss_queue t))"
  using assms
proof (induction rule: spsc_step.induct)
  case (spsc_micro s ev pc q)
  then show ?case
    using push_micro_step [of capacity "ss_queue s" "ss_producer s" ev pc q]
    by (simp add: spsc_sys_inv_def)
next
  case (spsc_consume s ev pc q)
  then show ?case
    using pop_micro_step [of capacity "ss_queue s" "ss_consumer s" ev pc q]
    by (simp add: spsc_sys_inv_def)
qed (auto simp: spsc_sys_inv_def push_ok_def)

text \<open>A producer holds the lock from the exchange until the release.\<close>

definition holds_lock :: "'a push_pc \<Rightarrow> bool" where
  "holds_lock pc \<longleftrightarrow> pc \<noteq> PushIdle \<and> (\<forall>x. pc \<noteq> PushSpin x)"

lemma holds_lock_simps [simp]:
  "\<not> holds_lock PushIdle" "\<not> holds_lock (PushSpin x)" "holds_lock (PushStart x)"
  "holds_lock (PushTail x h)" "holds_lock (PushRoom x h)" "holds_lock (PushPublish x h)"
  "holds_lock (PushReturn ok)"
  by (simp_all add: holds_lock_def)

lemma not_holding_ok: "\<not> holds_lock pc \<Longrightarrow> push_ok capacity q pc"
  by (cases pc) (simp_all add: push_ok_def)

lemma push_micro_holds:
  "push_micro capacity pc q = (ev, pc', q') \<Longrightarrow> holds_lock pc' = holds_lock pc"
  by (cases pc) (auto split: if_splits)

lemma push_micro_idle:
  "\<not> holds_lock pc \<Longrightarrow> push_micro capacity pc q = (Silent, pc, q)"
  by (cases pc) simp_all

text \<open>The lock is taken exactly when one producer, and no other, holds it.\<close>

definition lock_agrees :: "bool \<Rightarrow> (nat \<Rightarrow> 'a push_pc) \<Rightarrow> bool" where
  "lock_agrees lock pcs \<longleftrightarrow>
     (\<forall>i. holds_lock (pcs i) \<longrightarrow> lock \<and> (\<forall>j. holds_lock (pcs j) \<longrightarrow> j = i)) \<and>
     (lock \<longrightarrow> (\<exists>i. holds_lock (pcs i)))"

lemma lock_agrees_same:
  assumes "holds_lock pc = holds_lock (pcs i)"
  shows "lock_agrees lock (pcs(i := pc)) = lock_agrees lock pcs"
proof -
  have "holds_lock ((pcs(i := pc)) j) = holds_lock (pcs j)" for j using assms by simp
  then show ?thesis by (simp only: lock_agrees_def)
qed

lemma lock_agrees_acquire:
  "lock_agrees False pcs \<Longrightarrow> holds_lock pc \<Longrightarrow> lock_agrees True (pcs(i := pc))"
  unfolding lock_agrees_def by auto

lemma lock_agrees_release:
  "lock_agrees lock pcs \<Longrightarrow> holds_lock (pcs i) \<Longrightarrow> lock_agrees False (pcs(i := PushIdle))"
  unfolding lock_agrees_def by auto

lemma lock_agrees_unique:
  "lock_agrees lock pcs \<Longrightarrow> holds_lock (pcs i) \<Longrightarrow> j \<noteq> i \<Longrightarrow> \<not> holds_lock (pcs j)"
  unfolding lock_agrees_def by blast

definition mpsc_sys_inv :: "size_t \<Rightarrow> 'a mpsc_sys \<Rightarrow> bool" where
  "mpsc_sys_inv capacity s \<longleftrightarrow>
     rb_inv capacity (ms_queue s) \<and> pop_ok capacity (ms_queue s) (ms_consumer s) \<and>
     (\<forall>i. push_ok capacity (ms_queue s) (ms_producer s i)) \<and>
     lock_agrees (producerLock (ms_queue s)) (ms_producer s)"

lemma lock_field_irrelevant:
  "rb_inv capacity (q\<lparr>producerLock := b\<rparr>) = rb_inv capacity q"
  "rb_count capacity (q\<lparr>producerLock := b\<rparr>) = rb_count capacity q"
  "rb_list capacity (q\<lparr>producerLock := b\<rparr>) = rb_list capacity q"
  "push_ok capacity (q\<lparr>producerLock := b\<rparr>) ppc = push_ok capacity q ppc"
  "pop_ok capacity (q\<lparr>producerLock := b\<rparr>) cpc = pop_ok capacity q cpc"
  by (auto simp: rb_inv_def rb_count_def rb_list_def rb_index_def push_ok_def pop_ok_def
      split: push_pc.splits pop_pc.splits)

lemma mpsc_micro_keeps:
  assumes inv: "mpsc_sys_inv capacity s" and holds: "holds_lock (ms_producer s i)"
    and step: "push_micro capacity (ms_producer s i) (ms_queue s) = (ev, pc, q)"
  shows "mpsc_sys_inv capacity (s\<lparr>ms_producer := (ms_producer s)(i := pc), ms_queue := q\<rparr>)"
proof -
  from inv have agrees: "lock_agrees (producerLock (ms_queue s)) (ms_producer s)"
    and parts: "rb_inv capacity (ms_queue s)" "pop_ok capacity (ms_queue s) (ms_consumer s)"
      "push_ok capacity (ms_queue s) (ms_producer s i)"
    by (simp_all add: mpsc_sys_inv_def)
  note micro = push_micro_step [OF parts(1,3) step]
  have "push_ok capacity q (((ms_producer s)(i := pc)) j)" for j
    using micro(2) not_holding_ok [OF lock_agrees_unique [OF agrees holds], of j] by (cases "j = i") simp_all
  then show ?thesis
    using micro(1,4) parts(2) agrees lock_agrees_same [of pc "ms_producer s" i] push_micro_lock(1) [OF step]
      push_micro_holds [OF step]
    by (simp add: mpsc_sys_inv_def)
qed

lemma mpsc_step_keeps:
  assumes "mpsc_step capacity s ev t" and "mpsc_sys_inv capacity s"
  shows "mpsc_sys_inv capacity t \<and> fifo_next (unat capacity - 1) ev
    (rb_list capacity (ms_queue s)) = Some (rb_list capacity (ms_queue t))"
  using assms
proof (induction rule: mpsc_step.induct)
  case (mpsc_call s i x)
  then show ?case
    by (simp add: mpsc_sys_inv_def lock_agrees_same push_ok_def)
next
  case (mpsc_acquire s i x)
  then show ?case
    by (simp add: mpsc_sys_inv_def lock_agrees_acquire lock_field_irrelevant)
      (simp add: push_ok_def)
next
  case (mpsc_micro s i ev pc q)
  show ?case
  proof (cases "holds_lock (ms_producer s i)")
    case True
    with mpsc_micro push_micro_step(3) [of capacity "ms_queue s" "ms_producer s i" ev pc q]
    show ?thesis by (simp add: mpsc_micro_keeps) (simp add: mpsc_sys_inv_def)
  next
    case False
    with mpsc_micro.hyps push_micro_idle [OF False, of capacity "ms_queue s"]
    have "ev = Silent" "pc = ms_producer s i" "q = ms_queue s" by simp_all
    with mpsc_micro.prems show ?thesis by simp
  qed
next
  case (mpsc_release s i ok)
  then have "holds_lock (ms_producer s i)" by simp
  with mpsc_release.prems show ?case
    by (simp add: mpsc_sys_inv_def lock_field_irrelevant
        lock_agrees_release [of "producerLock (ms_queue s)"])
      (simp add: push_ok_def)
next
  case (mpsc_consume s ev pc q)
  then have parts: "rb_inv capacity (ms_queue s)" "pop_ok capacity (ms_queue s) (ms_consumer s)"
    by (simp_all add: mpsc_sys_inv_def)
  from mpsc_consume.prems pop_micro_step [OF parts mpsc_consume.hyps] push_micro_lock(2) [OF mpsc_consume.hyps]
  show ?case by (simp add: mpsc_sys_inv_def)
qed simp

lemma mpsc_start_inv:
  assumes "is_capacity capacity"
  shows "mpsc_sys_inv capacity (mpsc_start d)" and "rb_list capacity (ms_queue (mpsc_start d)) = []"
  using assms capacity_bounds [OF assms]
  by (simp_all add: mpsc_sys_inv_def lock_agrees_def mpsc_start_def mpsc_new_def rb_inv_def push_ok_def pop_ok_def
      rb_list_def rb_count_def)

lemma mpsc_run_keeps:
  "mpsc_run capacity s evs t \<Longrightarrow> mpsc_sys_inv capacity s \<Longrightarrow> mpsc_sys_inv capacity t \<and>
   fifo_run (unat capacity - 1) evs (rb_list capacity (ms_queue s)) = Some (rb_list capacity (ms_queue t))"
proof (induction rule: mpsc_run.induct)
  case (run_cons s ev t evs u)
  with mpsc_step_keeps [OF run_cons.hyps(1) run_cons.prems] show ?case by simp
qed simp

lemma spsc_run_keeps:
  "spsc_run capacity s evs t \<Longrightarrow> spsc_sys_inv capacity s \<Longrightarrow> spsc_sys_inv capacity t \<and>
   fifo_run (unat capacity - 1) evs (rb_list capacity (ss_queue s)) = Some (rb_list capacity (ss_queue t))"
proof (induction rule: spsc_run.induct)
  case (spsc_run_cons s ev t evs u)
  with spsc_step_keeps [OF spsc_run_cons.hyps(1) spsc_run_cons.prems] show ?case by simp
qed simp

lemma spsc_start_inv:
  assumes "is_capacity capacity"
  shows "spsc_sys_inv capacity (spsc_start d)" and "rb_list capacity (ss_queue (spsc_start d)) = []"
  using assms capacity_bounds [OF assms]
  by (simp_all add: spsc_sys_inv_def spsc_start_def spsc_new_def rb_inv_def push_ok_def pop_ok_def
      rb_list_def rb_count_def)

section \<open>A call that runs alone is the atomic operation\<close>

lemma mpsc_run_append:
  "mpsc_run capacity s evs t \<Longrightarrow> mpsc_run capacity t evs' u \<Longrightarrow> mpsc_run capacity s (evs @ evs') u"
  by (induction rule: mpsc_run.induct) (auto intro: run_cons)

lemma mpsc_run_one: "mpsc_step capacity s ev t \<Longrightarrow> mpsc_run capacity s [ev] t"
  by (rule run_cons [OF _ run_nil])

text \<open>
  The atomic \<open>mpsc_push\<close> of the other theories is one of the interleavings: the one in which
  nobody else runs during the call.
\<close>

lemma mpsc_push_is_run:
  assumes idle: "ms_producer s i = PushIdle" and push: "mpsc_push capacity x (ms_queue s) = Some (ok, q')"
  shows "mpsc_run capacity s
    (if ok then [Silent, Silent, Silent, Silent, Silent, Accepted x, Silent]
     else [Silent, Silent, Silent, Refused x, Silent]) (s\<lparr>ms_queue := q'\<rparr>)"
proof -
  let ?q = "ms_queue s" and ?next = "(q_tail (ms_queue s) + 1) AND (capacity - 1)"
  let ?at = "\<lambda>pc q. s\<lparr>ms_producer := (ms_producer s)(i := pc), ms_queue := q\<rparr>"
  have free: "\<not> producerLock ?q" using push by (auto simp: mpsc_push_def split: if_splits)
  have unlocked: "?q\<lparr>producerLock := False\<rparr> = ?q"
    "?q\<lparr>q_buffer := b, q_tail := h, producerLock := False\<rparr> = ?q\<lparr>q_buffer := b, q_tail := h\<rparr>" for b h
    using free by (cases ?q, simp)+
  have start: "mpsc_run capacity s [Silent, Silent, Silent]
      (?at (PushTail x (q_tail ?q)) (?q\<lparr>producerLock := True\<rparr>))"
    using mpsc_call [OF idle, of capacity x] mpsc_acquire [of "?at (PushSpin x) ?q" i x capacity] free
      mpsc_micro [of capacity "?at (PushStart x) (?q\<lparr>producerLock := True\<rparr>)" i]
    by (intro run_cons [OF _ run_cons [OF _ run_cons [OF _ run_nil]]]) simp_all
  show ?thesis
  proof (cases "?next = q_head ?q")
    case True
    then have out: "ok = False" "q' = ?q" using push free by (auto simp: mpsc_push_def Let_def)
    have "mpsc_run capacity (?at (PushTail x (q_tail ?q)) (?q\<lparr>producerLock := True\<rparr>))
        [Refused x, Silent] (s\<lparr>ms_queue := q'\<rparr>)"
      using mpsc_micro [of capacity "?at (PushTail x (q_tail ?q)) (?q\<lparr>producerLock := True\<rparr>)" i]
        mpsc_release [of "?at (PushReturn False) (?q\<lparr>producerLock := True\<rparr>)" i False capacity]
        True unlocked idle out
      by (intro run_cons [OF _ run_cons [OF _ run_nil]]) (simp_all add: fun_upd_idem)
    from mpsc_run_append [OF start this] out show ?thesis by simp
  next
    case False
    let ?full = "?q\<lparr>producerLock := True, q_buffer := (q_buffer ?q)(q_tail ?q := x)\<rparr>"
    have out: "ok = True" "q' = ?q\<lparr>q_buffer := (q_buffer ?q)(q_tail ?q := x), q_tail := ?next\<rparr>"
      using False push free by (auto simp: mpsc_push_def Let_def)
    have "mpsc_run capacity (?at (PushTail x (q_tail ?q)) (?q\<lparr>producerLock := True\<rparr>))
        [Silent, Silent, Accepted x, Silent] (s\<lparr>ms_queue := q'\<rparr>)"
      using mpsc_micro [of capacity "?at (PushTail x (q_tail ?q)) (?q\<lparr>producerLock := True\<rparr>)" i]
        mpsc_micro [of capacity "?at (PushRoom x (q_tail ?q)) (?q\<lparr>producerLock := True\<rparr>)" i]
        mpsc_micro [of capacity "?at (PushPublish x (q_tail ?q)) ?full" i]
        mpsc_release [of "?at (PushReturn True) (?full\<lparr>q_tail := ?next\<rparr>)" i True capacity]
        False unlocked idle out
      by (intro run_cons [OF _ run_cons [OF _ run_cons [OF _ run_cons [OF _ run_nil]]]])
        (simp_all add: fun_upd_idem)
    from mpsc_run_append [OF start this] out show ?thesis by simp
  qed
qed

section \<open>Every call can finish\<close>

fun steps_left :: "'a push_pc \<Rightarrow> nat" where
  "steps_left PushIdle = 0"
| "steps_left (PushSpin x) = 6"
| "steps_left (PushStart x) = 5"
| "steps_left (PushTail x t) = 4"
| "steps_left (PushRoom x t) = 3"
| "steps_left (PushPublish x t) = 2"
| "steps_left (PushReturn ok) = 1"

text \<open>The item of a call that has not taken effect yet.\<close>

fun push_item :: "'a push_pc \<Rightarrow> 'a option" where
  "push_item (PushSpin x) = Some x"
| "push_item (PushStart x) = Some x"
| "push_item (PushTail x t) = Some x"
| "push_item (PushRoom x t) = Some x"
| "push_item (PushPublish x t) = Some x"
| "push_item pc = None"

definition settled :: "'a option \<Rightarrow> 'a queue_event list \<Rightarrow> bool" where
  "settled item evs \<longleftrightarrow> (case item of None \<Rightarrow> True | Some x \<Rightarrow> Accepted x \<in> set evs \<or> Refused x \<in> set evs)"

lemma push_micro_progress:
  assumes "holds_lock pc" and "\<forall>ok. pc \<noteq> PushReturn ok" and "push_micro capacity pc q = (ev, pc', q')"
  shows "holds_lock pc'" and "Suc (steps_left pc') \<le> steps_left pc"
    and "settled (push_item pc') evs \<Longrightarrow> settled (push_item pc) (ev # evs)"
  using assms by (cases pc; auto simp: settled_def split: if_splits)+

lemma holder_finishes:
  "holds_lock (ms_producer s i) \<Longrightarrow>
   \<exists>evs t. mpsc_run capacity s evs t \<and> length evs \<le> steps_left (ms_producer s i) \<and>
     ms_producer t = (ms_producer s)(i := PushIdle) \<and> \<not> producerLock (ms_queue t) \<and>
     settled (push_item (ms_producer s i)) evs"
proof (induction "steps_left (ms_producer s i)" arbitrary: s rule: less_induct)
  case less
  show ?case
  proof (cases "\<exists>ok. ms_producer s i = PushReturn ok")
    case True
    then obtain ok where ok: "ms_producer s i = PushReturn ok" by blast
    from mpsc_run_one [OF mpsc_release [OF ok, of capacity]] ok show ?thesis
      by (intro exI conjI) (auto simp: settled_def)
  next
    case False
    obtain ev pc q where step: "push_micro capacity (ms_producer s i) (ms_queue s) = (ev, pc, q)"
      using prod_cases3 by blast
    let ?t = "s\<lparr>ms_producer := (ms_producer s)(i := pc), ms_queue := q\<rparr>"
    note progress = push_micro_progress [OF less.prems _ step]
    have "steps_left (ms_producer ?t i) < steps_left (ms_producer s i)" "holds_lock (ms_producer ?t i)"
      using progress(1,2) False by simp_all
    from less.hyps [OF this] obtain evs u where run: "mpsc_run capacity ?t evs u"
      "length evs \<le> steps_left (ms_producer ?t i)" "ms_producer u = (ms_producer ?t)(i := PushIdle)"
      "\<not> producerLock (ms_queue u)" "settled (push_item (ms_producer ?t i)) evs" by blast
    have "mpsc_run capacity s (ev # evs) u" by (rule run_cons [OF mpsc_micro [OF step] run(1)])
    with run(2-5) progress(2,3) False show ?thesis
      by (intro exI [of _ "ev # evs"] exI [of _ u]) auto
  qed
qed

lemma spinner_finishes:
  assumes inv: "mpsc_sys_inv capacity s" and spin: "ms_producer s i = PushSpin x"
  shows "\<exists>evs t. mpsc_run capacity s evs t \<and> length evs \<le> 11 \<and> ms_producer t i = PushIdle \<and>
    settled (Some x) evs"
proof -
  have go: "\<exists>evs t. mpsc_run capacity u evs t \<and> length evs \<le> 6 \<and> ms_producer t i = PushIdle \<and>
      settled (Some x) evs"
    if u: "ms_producer u i = PushSpin x" "\<not> producerLock (ms_queue u)" for u
  proof -
    let ?v = "u\<lparr>ms_producer := (ms_producer u)(i := PushStart x),
                ms_queue := ms_queue u\<lparr>producerLock := True\<rparr>\<rparr>"
    have "holds_lock (ms_producer ?v i)" by simp
    from holder_finishes [OF this, of capacity] obtain evs t where
      "mpsc_run capacity ?v evs t" "length evs \<le> 5" "ms_producer t i = PushIdle" "settled (Some x) evs"
      by auto
    then show ?thesis
      using run_cons [OF mpsc_acquire [OF u, of capacity]]
      by (intro exI [of _ "Silent # evs"] exI [of _ t]) (auto simp: settled_def)
  qed
  show ?thesis
  proof (cases "producerLock (ms_queue s)")
    case True
    then obtain j where j: "holds_lock (ms_producer s j)"
      using inv by (auto simp: mpsc_sys_inv_def lock_agrees_def)
    then have "i \<noteq> j" using spin by auto
    obtain evs t where run: "mpsc_run capacity s evs t" "length evs \<le> steps_left (ms_producer s j)"
      "ms_producer t = (ms_producer s)(j := PushIdle)" "\<not> producerLock (ms_queue t)"
      using holder_finishes [OF j, of capacity] by blast
    moreover have "steps_left (ms_producer s j) \<le> 5" using j by (cases "ms_producer s j") auto
    moreover obtain evs' u where "mpsc_run capacity t evs' u" "length evs' \<le> 6"
      "ms_producer u i = PushIdle" "settled (Some x) evs'"
      using go [of t] run(3,4) spin \<open>i \<noteq> j\<close> by auto
    ultimately show ?thesis
      using mpsc_run_append [of capacity s evs t evs' u]
      by (intro exI [of _ "evs @ evs'"] exI [of _ u]) (auto simp: settled_def)
  next
    case False
    from go [OF spin False] obtain evs t where "mpsc_run capacity s evs t" "length evs \<le> 6"
      "ms_producer t i = PushIdle" "settled (Some x) evs" by blast
    then show ?thesis by (intro exI [of _ evs] exI [of _ t]) simp
  qed
qed

section \<open>Properties\<close>

text \<open>
  Property C12. Whatever the number of producers and however their memory accesses interleave with
  each other and with the consumer's, the multi-producer queue is a bounded first-in first-out list:
  a push takes effect where it stores the tail and is refused only when the list is full, a pop
  takes the oldest element and finds the queue empty only when it is; what has been taken followed
  by what is queued is what has been accepted, in order. No two producers are in the critical
  section together, and no producer writes the slot that the consumer is reading.
\<close>

theorem interleaved_queue_is_fifo:
  assumes "is_capacity capacity" and "mpsc_run capacity (mpsc_start d) evs s"
  shows "fifo_run (unat capacity - 1) evs [] = Some (rb_list capacity (ms_queue s)) \<and>
    accepted_items evs = taken_items evs @ rb_list capacity (ms_queue s) \<and>
    (\<forall>i j. holds_lock (ms_producer s i) \<and> holds_lock (ms_producer s j) \<longrightarrow> i = j) \<and>
    (\<forall>i x t h. ms_producer s i = PushRoom x t \<and> ms_consumer s = PopFull h \<longrightarrow> t \<noteq> h)"
proof -
  note start = mpsc_start_inv [OF assms(1), of d]
  from mpsc_run_keeps [OF assms(2) start(1)] start(2)
  have inv: "mpsc_sys_inv capacity s"
    and run: "fifo_run (unat capacity - 1) evs [] = Some (rb_list capacity (ms_queue s))" by simp_all
  have "t \<noteq> h" if "ms_producer s i = PushRoom x t" "ms_consumer s = PopFull h" for i x t h
  proof -
    from inv have "rb_inv capacity (ms_queue s)" "push_ok capacity (ms_queue s) (PushRoom x t)"
      "pop_ok capacity (ms_queue s) (PopFull h)"
      using that by (auto simp: mpsc_sys_inv_def dest: spec [of _ i])
    then show ?thesis using pop_empty_iff [of capacity "ms_queue s"] by (simp add: push_ok_def pop_ok_def)
  qed
  moreover from inv have "\<forall>i j. holds_lock (ms_producer s i) \<and> holds_lock (ms_producer s j) \<longrightarrow> i = j"
    unfolding mpsc_sys_inv_def lock_agrees_def by blast
  ultimately show ?thesis using run fifo_run_items [OF run] by auto
qed

text \<open>Two producers push 7 and 9 on a queue of capacity 2: the second is refused.\<close>

theorem interleaved_queue_is_fifo_witness:
  "\<exists>s evs. mpsc_run 2 (mpsc_start (0 :: nat)) evs s \<and> accepted_items evs = [7] \<and> Refused 9 \<in> set evs \<and>
     rb_list 2 (ms_queue s) = [7]"
proof -
  let ?s = "mpsc_start (0 :: nat)"
  let ?q = "\<lparr>q_head = 0, q_tail = 1, q_buffer = (\<lambda>_. 0)(0 := 7), producerLock = False\<rparr> :: nat MPSCQueue"
  let ?evs = "[Silent, Silent, Silent, Silent, Silent, Accepted 7, Silent] @
       [Silent, Silent, Silent, Refused 9, Silent]"
  have cap: "is_capacity (2 :: size_t)" unfolding is_capacity_def by (rule exI [of _ 1]) simp
  have "mpsc_push 2 7 (ms_queue ?s) = Some (True, ?q)"
    by (simp add: mpsc_push_def mpsc_start_def mpsc_new_def Let_def)
  moreover have "mpsc_push 2 9 (ms_queue (?s\<lparr>ms_queue := ?q\<rparr>)) = Some (False, ?q)"
    by (simp add: mpsc_push_def Let_def)
  ultimately have run: "mpsc_run 2 ?s ?evs (?s\<lparr>ms_queue := ?q\<rparr>)"
    using mpsc_push_is_run [of ?s 0 2 7 True ?q] mpsc_push_is_run [of "?s\<lparr>ms_queue := ?q\<rparr>" 1 2 9 False ?q]
    by (intro mpsc_run_append) (simp_all add: mpsc_start_def)
  from interleaved_queue_is_fifo [OF cap run] run show ?thesis
    by (intro exI [of _ "?s\<lparr>ms_queue := ?q\<rparr>"] exI [of _ ?evs]) simp
qed

text \<open>
  No push is ever stuck: from every reachable state, a producer that is spinning on
  the lock can complete its call in at most 11 more steps of the system, and its item is then
  accepted, or refused because the queue was full. A producer that has taken the lock needs at most
  5 steps, all its own, whatever the other threads are in the middle of.
\<close>

theorem push_can_always_finish:
  assumes "is_capacity capacity" and "mpsc_run capacity (mpsc_start d) evs s"
    and "ms_producer s i \<noteq> PushIdle"
  shows "\<exists>evs' t. mpsc_run capacity s evs' t \<and> ms_producer t i = PushIdle \<and>
    length evs' \<le> (if holds_lock (ms_producer s i) then 5 else 11) \<and>
    (case push_item (ms_producer s i) of None \<Rightarrow> True
     | Some x \<Rightarrow> Accepted x \<in> set evs' \<or> Refused x \<in> set evs')"
proof (cases "holds_lock (ms_producer s i)")
  case True
  from holder_finishes [OF this, of capacity] obtain evs' t where
    run: "mpsc_run capacity s evs' t" "length evs' \<le> steps_left (ms_producer s i)"
      "ms_producer t = (ms_producer s)(i := PushIdle)" "settled (push_item (ms_producer s i)) evs'" by blast
  moreover have "steps_left (ms_producer s i) \<le> 5" using True by (cases "ms_producer s i") auto
  ultimately show ?thesis using True unfolding settled_def by (intro exI [of _ evs'] exI [of _ t]) auto
next
  case False
  with assms(3) obtain x where spin: "ms_producer s i = PushSpin x" by (auto simp: holds_lock_def)
  have "mpsc_sys_inv capacity s"
    using mpsc_run_keeps [OF assms(2) mpsc_start_inv(1) [OF assms(1)]] by blast
  from spinner_finishes [OF this spin] show ?thesis unfolding settled_def using spin by auto
qed

theorem push_can_always_finish_witness:
  "\<exists>s evs t. mpsc_run 4 (mpsc_start (0 :: nat)) [Silent] s \<and> ms_producer s 3 = PushSpin 7 \<and>
     mpsc_run 4 s evs t \<and> ms_producer t 3 = PushIdle \<and> length evs \<le> 11"
proof -
  let ?s = "(mpsc_start 0)\<lparr>ms_producer := (ms_producer (mpsc_start 0))(3 := PushSpin (7 :: nat))\<rparr>"
  have cap: "is_capacity (4 :: size_t)" unfolding is_capacity_def by (rule exI [of _ 2]) simp
  have run: "mpsc_run 4 (mpsc_start 0) [Silent] ?s"
    by (rule mpsc_run_one [OF mpsc_call]) (simp add: mpsc_start_def)
  have "ms_producer ?s 3 \<noteq> PushIdle" by simp
  from push_can_always_finish [OF cap run this] run show ?thesis by fastforce
qed

end
