(* ===== verification/Queue_Memory.thy ===== *)
theory Queue_Memory
  imports Queue_Steps
begin

text \<open>
  The queues of \<^verbatim>\<open>include/LockFreeQueue.h\<close> under the memory orderings that the code names,
  instead of the sequential consistency of \<open>Queue_Steps\<close>. An atomic variable is the list of all
  values ever stored to it, each with the view of the thread that stored it; a view says of every
  location how many accesses happened before. A load may read any value that is not older than
  what the thread has already seen; an acquire load also takes over the view that came with the
  value, a relaxed one does not; a release store publishes the view of its thread.

  The slots of the buffer are plain memory: an access that is not ordered behind all earlier
  accesses to the slot is a data race and sets \<open>m_undefined\<close>. A move out of a slot may modify it,
  so the consumer's access counts as a modification too. A store to an atomic variable by a thread
  that has not seen its newest value would have no fixed place in the list; it sets
  \<open>m_undefined\<close> as well. Both are proved not to happen.
\<close>

unbundle bit_operations_syntax

section \<open>Memory and views\<close>

datatype location = AtHead | AtTail | AtLock | AtSlot size_t

type_synonym view = "location \<Rightarrow> nat"

record 'a memory =
  m_head :: "(size_t \<times> view) list"
  m_tail :: "(size_t \<times> view) list"
  m_lock :: "(bool \<times> view) list"
  m_buffer :: "size_t \<Rightarrow> 'a"
  m_touched :: "size_t \<Rightarrow> nat"
  m_undefined :: bool

definition latest :: "'b list \<Rightarrow> nat" where
  "latest h = length h - 1"

definition readable :: "'b list \<Rightarrow> nat \<Rightarrow> nat \<Rightarrow> bool" where
  "readable h seen i \<longleftrightarrow> seen \<le> i \<and> i < length h"

definition acquire :: "location \<Rightarrow> nat \<Rightarrow> view \<Rightarrow> view \<Rightarrow> view" where
  "acquire l i w v = sup (v(l := i)) w"

definition touch :: "view \<Rightarrow> size_t \<Rightarrow> 'a memory \<Rightarrow> view \<times> 'a memory" where
  "touch v s m =
     (v(AtSlot s := Suc (m_touched m s)),
      m\<lparr>m_touched := (m_touched m)(s := Suc (m_touched m s)),
        m_undefined := (m_undefined m \<or> v (AtSlot s) \<noteq> m_touched m s)\<rparr>)"

definition store_head :: "size_t \<Rightarrow> view \<Rightarrow> 'a memory \<Rightarrow> view \<times> 'a memory" where
  "store_head x v m =
     (let v' = v(AtHead := length (m_head m))
      in (v', m\<lparr>m_head := m_head m @ [(x, v')],
                m_undefined := (m_undefined m \<or> v AtHead \<noteq> latest (m_head m))\<rparr>))"

definition store_tail :: "size_t \<Rightarrow> view \<Rightarrow> 'a memory \<Rightarrow> view \<times> 'a memory" where
  "store_tail x v m =
     (let v' = v(AtTail := length (m_tail m))
      in (v', m\<lparr>m_tail := m_tail m @ [(x, v')],
                m_undefined := (m_undefined m \<or> v AtTail \<noteq> latest (m_tail m))\<rparr>))"

definition store_lock :: "view \<Rightarrow> 'a memory \<Rightarrow> view \<times> 'a memory" where
  "store_lock v m =
     (let v' = v(AtLock := length (m_lock m))
      in (v', m\<lparr>m_lock := m_lock m @ [(False, v')],
                m_undefined := (m_undefined m \<or> v AtLock \<noteq> latest (m_lock m))\<rparr>))"

text \<open>
  The exchange reads the newest value and replaces it in one access. Its load acquires; its store
  has no ordering of its own and hands on the view of the store it replaced.
\<close>

definition exchange_lock :: "view \<Rightarrow> 'a memory \<Rightarrow> view \<times> 'a memory" where
  "exchange_lock v m =
     (let w = snd (last (m_lock m))
      in (acquire AtLock (length (m_lock m)) w v, m\<lparr>m_lock := m_lock m @ [(True, w)]\<rparr>))"

section \<open>The accesses of a call\<close>

text \<open>A caller is its program counter, that of \<open>Queue_Steps\<close>, and its view.\<close>

inductive push_access ::
  "size_t \<Rightarrow> 'a push_pc \<times> view \<Rightarrow> 'a memory \<Rightarrow> 'a queue_event \<Rightarrow> 'a push_pc \<times> view \<Rightarrow> 'a memory \<Rightarrow> bool"
  for capacity :: size_t where
  access_tail: "readable (m_tail m) (v AtTail) i \<Longrightarrow>
     push_access capacity (PushStart x, v) m Silent
       (PushTail x (fst (m_tail m ! i)), v(AtTail := i)) m"
| access_full: "readable (m_head m) (v AtHead) i \<Longrightarrow>
     (currentTail + 1) AND (capacity - 1) = fst (m_head m ! i) \<Longrightarrow>
     push_access capacity (PushTail x currentTail, v) m (Refused x)
       (PushReturn False, acquire AtHead i (snd (m_head m ! i)) v) m"
| access_room: "readable (m_head m) (v AtHead) i \<Longrightarrow>
     (currentTail + 1) AND (capacity - 1) \<noteq> fst (m_head m ! i) \<Longrightarrow>
     push_access capacity (PushTail x currentTail, v) m Silent
       (PushRoom x currentTail, acquire AtHead i (snd (m_head m ! i)) v) m"
| access_write: "touch v currentTail m = (v', m') \<Longrightarrow>
     push_access capacity (PushRoom x currentTail, v) m Silent
       (PushPublish x currentTail, v') (m'\<lparr>m_buffer := (m_buffer m')(currentTail := x)\<rparr>)"
| access_publish: "store_tail ((currentTail + 1) AND (capacity - 1)) v m = (v', m') \<Longrightarrow>
     push_access capacity (PushPublish x currentTail, v) m (Accepted x) (PushReturn True, v') m'"

inductive pop_access ::
  "size_t \<Rightarrow> 'a pop_pc \<times> view \<Rightarrow> 'a memory \<Rightarrow> 'a queue_event \<Rightarrow> 'a pop_pc \<times> view \<Rightarrow> 'a memory \<Rightarrow> bool"
  for capacity :: size_t where
  access_head: "readable (m_head m) (v AtHead) i \<Longrightarrow>
     pop_access capacity (PopIdle, v) m Silent (PopHead (fst (m_head m ! i)), v(AtHead := i)) m"
| access_empty: "readable (m_tail m) (v AtTail) i \<Longrightarrow> currentHead = fst (m_tail m ! i) \<Longrightarrow>
     pop_access capacity (PopHead currentHead, v) m FoundEmpty
       (PopIdle, acquire AtTail i (snd (m_tail m ! i)) v) m"
| access_some: "readable (m_tail m) (v AtTail) i \<Longrightarrow> currentHead \<noteq> fst (m_tail m ! i) \<Longrightarrow>
     pop_access capacity (PopHead currentHead, v) m Silent
       (PopFull currentHead, acquire AtTail i (snd (m_tail m ! i)) v) m"
| access_read: "touch v currentHead m = (v', m') \<Longrightarrow>
     pop_access capacity (PopFull currentHead, v) m Silent
       (PopItem currentHead (m_buffer m currentHead), v') m'"
| access_advance: "store_head ((currentHead + 1) AND (capacity - 1)) v m = (v', m') \<Longrightarrow>
     pop_access capacity (PopItem currentHead item, v) m (Taken item) (PopIdle, v') m'"

section \<open>The systems\<close>

record 'a spsc_mem =
  sm_memory :: "'a memory"
  sm_producer :: "'a push_pc \<times> view"
  sm_consumer :: "'a pop_pc \<times> view"

inductive spsc_mem_step :: "size_t \<Rightarrow> 'a spsc_mem \<Rightarrow> 'a queue_event \<Rightarrow> 'a spsc_mem \<Rightarrow> bool"
  for capacity :: size_t where
  sm_call: "sm_producer s = (PushIdle, v) \<Longrightarrow>
     spsc_mem_step capacity s Silent (s\<lparr>sm_producer := (PushStart x, v)\<rparr>)"
| sm_push: "push_access capacity (sm_producer s) (sm_memory s) ev p m \<Longrightarrow>
     spsc_mem_step capacity s ev (s\<lparr>sm_producer := p, sm_memory := m\<rparr>)"
| sm_return: "sm_producer s = (PushReturn ok, v) \<Longrightarrow>
     spsc_mem_step capacity s Silent (s\<lparr>sm_producer := (PushIdle, v)\<rparr>)"
| sm_pop: "pop_access capacity (sm_consumer s) (sm_memory s) ev c m \<Longrightarrow>
     spsc_mem_step capacity s ev (s\<lparr>sm_consumer := c, sm_memory := m\<rparr>)"

text \<open>
  A failing exchange may read an old value of the lock. It writes back the value it read, with the
  view it read, directly behind it: the two are one entry of the list.
\<close>

record 'a mpsc_mem =
  mm_memory :: "'a memory"
  mm_producer :: "nat \<Rightarrow> 'a push_pc \<times> view"
  mm_consumer :: "'a pop_pc \<times> view"

inductive mpsc_mem_step :: "size_t \<Rightarrow> 'a mpsc_mem \<Rightarrow> 'a queue_event \<Rightarrow> 'a mpsc_mem \<Rightarrow> bool"
  for capacity :: size_t where
  mm_call: "mm_producer s i = (PushIdle, v) \<Longrightarrow>
     mpsc_mem_step capacity s Silent (s\<lparr>mm_producer := (mm_producer s)(i := (PushSpin x, v))\<rparr>)"
| mm_spin: "mm_producer s i = (PushSpin x, v) \<Longrightarrow> readable (m_lock (mm_memory s)) (v AtLock) j \<Longrightarrow>
     m_lock (mm_memory s) ! j = (True, w) \<Longrightarrow>
     mpsc_mem_step capacity s Silent
       (s\<lparr>mm_producer := (mm_producer s)(i := (PushSpin x, acquire AtLock j w v))\<rparr>)"
| mm_acquire: "mm_producer s i = (PushSpin x, v) \<Longrightarrow> \<not> fst (last (m_lock (mm_memory s))) \<Longrightarrow>
     exchange_lock v (mm_memory s) = (v', m') \<Longrightarrow>
     mpsc_mem_step capacity s Silent
       (s\<lparr>mm_producer := (mm_producer s)(i := (PushStart x, v')), mm_memory := m'\<rparr>)"
| mm_push: "push_access capacity (mm_producer s i) (mm_memory s) ev p m \<Longrightarrow>
     mpsc_mem_step capacity s ev (s\<lparr>mm_producer := (mm_producer s)(i := p), mm_memory := m\<rparr>)"
| mm_release: "mm_producer s i = (PushReturn ok, v) \<Longrightarrow> store_lock v (mm_memory s) = (v', m') \<Longrightarrow>
     mpsc_mem_step capacity s Silent
       (s\<lparr>mm_producer := (mm_producer s)(i := (PushIdle, v')), mm_memory := m'\<rparr>)"
| mm_pop: "pop_access capacity (mm_consumer s) (mm_memory s) ev c m \<Longrightarrow>
     mpsc_mem_step capacity s ev (s\<lparr>mm_consumer := c, mm_memory := m\<rparr>)"

inductive mpsc_mem_run :: "size_t \<Rightarrow> 'a mpsc_mem \<Rightarrow> 'a queue_event list \<Rightarrow> 'a mpsc_mem \<Rightarrow> bool"
  for capacity :: size_t where
  mm_run_nil: "mpsc_mem_run capacity s [] s"
| mm_run_snoc: "mpsc_mem_run capacity s evs t \<Longrightarrow> mpsc_mem_step capacity t ev u \<Longrightarrow>
     mpsc_mem_run capacity s (evs @ [ev]) u"

inductive spsc_mem_run :: "size_t \<Rightarrow> 'a spsc_mem \<Rightarrow> 'a queue_event list \<Rightarrow> 'a spsc_mem \<Rightarrow> bool"
  for capacity :: size_t where
  sm_run_nil: "spsc_mem_run capacity s [] s"
| sm_run_snoc: "spsc_mem_run capacity s evs t \<Longrightarrow> spsc_mem_step capacity t ev u \<Longrightarrow>
     spsc_mem_run capacity s (evs @ [ev]) u"

text \<open>The constructor runs before there are threads: everybody has seen the initial values.\<close>

definition nothing_seen :: view where
  "nothing_seen = (\<lambda>_. 0)"

definition memory_start :: "'a \<Rightarrow> 'a memory" where
  "memory_start d = \<lparr>m_head = [(0, nothing_seen)], m_tail = [(0, nothing_seen)],
     m_lock = [(False, nothing_seen)], m_buffer = (\<lambda>_. d), m_touched = (\<lambda>_. 0), m_undefined = False\<rparr>"

definition spsc_mem_start :: "'a \<Rightarrow> 'a spsc_mem" where
  "spsc_mem_start d = \<lparr>sm_memory = memory_start d, sm_producer = (PushIdle, nothing_seen),
     sm_consumer = (PopIdle, nothing_seen)\<rparr>"

definition mpsc_mem_start :: "'a \<Rightarrow> 'a mpsc_mem" where
  "mpsc_mem_start d = \<lparr>mm_memory = memory_start d, mm_producer = (\<lambda>_. (PushIdle, nothing_seen)),
     mm_consumer = (PopIdle, nothing_seen)\<rparr>"

end
