(* ===== verification/Queue_Ordering.thy ===== *)
theory Queue_Ordering
  imports Queue_Memory
begin

text \<open>
  The orderings that the queues name are enough: in every execution of \<open>Queue_Memory\<close> no access
  to a slot races with another, the producers exclude each other, and the queue is first-in
  first-out. The invariant says what every view in the system knows about the slots; the producer
  and the consumer each keep it, whatever old value a load returns. What an old value can cause is
  a push that is refused, or a pop that finds nothing, without need.
\<close>

unbundle bit_operations_syntax

section \<open>Positions and slots\<close>

text \<open>
  Every store to the tail or the head adds one, so the number of a store in its list is the index
  that it stores, before it is masked: the position \<open>k\<close> of the \<open>k\<close>-th element ever queued.
\<close>

definition slot :: "size_t \<Rightarrow> nat \<Rightarrow> size_t" where
  "slot capacity k = word_of_nat k AND (capacity - 1)"

lemma unat_slot:
  assumes cap: "is_capacity capacity"
  shows "unat (slot capacity k) = k mod unat capacity"
proof -
  obtain n where n: "n < 64" "capacity = 2 ^ n" using cap by (auto simp: is_capacity_def)
  then have "(2::nat) ^ n dvd 2 ^ 64" by (intro le_imp_power_dvd) simp
  then have "unat capacity dvd 2 ^ 64" by (simp only: n unat_exp)
  moreover have "unat (word_of_nat k :: size_t) = k mod 2 ^ 64" by (simp add: unat_of_nat)
  ultimately show ?thesis by (simp only: slot_def unat_mask_index [OF cap] mod_mod_cancel)
qed

lemma slot_eq_iff:
  "is_capacity capacity \<Longrightarrow> slot capacity i = slot capacity j \<longleftrightarrow> i mod unat capacity = j mod unat capacity"
  by (metis unat_slot word_unat_eq_iff)

lemma slot_Suc:
  assumes cap: "is_capacity capacity"
  shows "(slot capacity k + 1) AND (capacity - 1) = slot capacity (Suc k)"
proof -
  let ?C = "unat capacity"
  have C: "0 < ?C" "2 * ?C \<le> 2 ^ 64" using capacity_bounds [OF cap] by simp_all
  have small: "unat (slot capacity k) + 1 < 2 ^ 64"
    using C mod_less_divisor [OF C(1), of k] by (simp add: unat_slot [OF cap])
  then have "unat (slot capacity k + 1) = k mod ?C + 1"
    using unat_add_lem [of "slot capacity k" 1] by (simp add: unat_slot [OF cap])
  then have "unat ((slot capacity k + 1) AND (capacity - 1)) = (k mod ?C + 1) mod ?C"
    by (simp only: unat_mask_index [OF cap])
  then show ?thesis by (simp add: unat_slot [OF cap] word_unat_eq_iff mod_Suc_eq)
qed

lemma mod_eq_near:
  fixes C :: nat
  assumes "i < j" and "j \<le> i + C" and "0 < C"
  shows "i mod C = j mod C \<longleftrightarrow> j = i + C"
proof -
  have "i mod C = j mod C \<longleftrightarrow> C dvd (j - i)" using assms(1) mod_eq_dvd_iff_nat [of i j C] by auto
  also have "\<dots> \<longleftrightarrow> j - i = C" using assms dvd_imp_le [of C "j - i"] by auto
  finally show ?thesis using assms by auto
qed

text \<open>How often the positions before \<open>n\<close> used a slot.\<close>

definition uses :: "size_t \<Rightarrow> nat \<Rightarrow> size_t \<Rightarrow> nat" where
  "uses capacity n s = length (filter (\<lambda>k. slot capacity k = s) [0..<n])"

lemma uses_Suc: "uses capacity (Suc n) s = uses capacity n s + (if slot capacity n = s then 1 else 0)"
  by (simp add: uses_def)

lemma uses_0 [simp]: "uses capacity 0 s = 0" by (simp add: uses_def)

lemma div_next_round: "is_capacity capacity \<Longrightarrow> (k + unat capacity) div unat capacity = Suc (k div unat capacity)"
  using capacity_bounds [of capacity] by (auto simp: div_add_self2)

lemma uses_before:
  assumes cap: "is_capacity capacity"
  shows "n \<le> k \<Longrightarrow> k < n + unat capacity \<Longrightarrow> uses capacity n (slot capacity k) = k div unat capacity"
proof (induction n arbitrary: k)
  case (Suc n)
  have C: "0 < unat capacity" using capacity_bounds [OF cap] by simp
  show ?case
  proof (cases "k = n + unat capacity")
    case True
    then have "slot capacity n = slot capacity k" by (simp add: slot_eq_iff [OF cap])
    then show ?thesis using True Suc.IH [of n] C by (simp add: uses_Suc div_next_round [OF cap])
  next
    case False
    then have "slot capacity n \<noteq> slot capacity k"
      using Suc.prems mod_eq_near [of n k "unat capacity"] C by (simp add: slot_eq_iff [OF cap])
    then show ?thesis using False Suc by (simp add: uses_Suc)
  qed
qed simp

lemma uses_after:
  assumes cap: "is_capacity capacity" and "k < n" and "n \<le> k + unat capacity"
  shows "uses capacity n (slot capacity k) = Suc (k div unat capacity)"
proof -
  have "slot capacity (k + unat capacity) = slot capacity k" by (simp add: slot_eq_iff [OF cap])
  then show ?thesis
    using uses_before [OF cap, of n "k + unat capacity"] assms by (simp add: div_next_round [OF cap])
qed

section \<open>The invariant\<close>

text \<open>
  What a view knows: it saw the write of every position before the tail that it saw, and the read
  of every position before the head that it saw. Both hold of every view in the system, in
  particular of those that stores carry.
\<close>

definition knows :: "size_t \<Rightarrow> 'a memory \<Rightarrow> view \<Rightarrow> bool" where
  "knows capacity m v \<longleftrightarrow>
     v AtHead \<le> latest (m_head m) \<and> v AtTail \<le> latest (m_tail m) \<and> v AtLock \<le> latest (m_lock m) \<and>
     (\<forall>s. v (AtSlot s) \<le> m_touched m s) \<and>
     (\<forall>k<v AtTail. 2 * (k div unat capacity) + 1 \<le> v (AtSlot (slot capacity k))) \<and>
     (\<forall>k<v AtHead. 2 * (k div unat capacity) + 2 \<le> v (AtSlot (slot capacity k)))"

definition stores_ok :: "size_t \<Rightarrow> 'a memory \<Rightarrow> bool" where
  "stores_ok capacity m \<longleftrightarrow> \<not> m_undefined m \<and> m_head m \<noteq> [] \<and> m_tail m \<noteq> [] \<and> m_lock m \<noteq> [] \<and>
     (\<forall>i<length (m_head m). fst (m_head m ! i) = slot capacity i \<and>
        snd (m_head m ! i) AtHead = i \<and> knows capacity m (snd (m_head m ! i))) \<and>
     (\<forall>i<length (m_tail m). fst (m_tail m ! i) = slot capacity i \<and>
        snd (m_tail m ! i) AtTail = i \<and> knows capacity m (snd (m_tail m ! i))) \<and>
     (\<forall>w\<in>set (m_lock m). knows capacity m (snd w))"

fun written :: "'a push_pc \<Rightarrow> nat" where
  "written (PushPublish x currentTail) = 1"
| "written pc = 0"

fun read_out :: "'a pop_pc \<Rightarrow> nat" where
  "read_out (PopItem currentHead item) = 1"
| "read_out pc = 0"

definition producer_ok :: "size_t \<Rightarrow> 'a memory \<Rightarrow> 'a push_pc \<times> view \<Rightarrow> bool" where
  "producer_ok capacity m p \<longleftrightarrow>
     (let t = latest (m_tail m); v = snd p in
      knows capacity m v \<and> v AtTail = t \<and> t + written (fst p) < v AtHead + unat capacity \<and>
      (case fst p of
         PushTail x currentTail \<Rightarrow> currentTail = slot capacity t
       | PushRoom x currentTail \<Rightarrow> currentTail = slot capacity t \<and> Suc t < v AtHead + unat capacity
       | PushPublish x currentTail \<Rightarrow> currentTail = slot capacity t \<and> m_buffer m currentTail = x \<and>
           2 * (t div unat capacity) + 1 \<le> v (AtSlot currentTail)
       | _ \<Rightarrow> True))"

definition consumer_ok :: "size_t \<Rightarrow> 'a memory \<Rightarrow> 'a pop_pc \<times> view \<Rightarrow> bool" where
  "consumer_ok capacity m c \<longleftrightarrow>
     (let h = latest (m_head m); v = snd c in
      knows capacity m v \<and> v AtHead = h \<and> h + read_out (fst c) \<le> v AtTail \<and>
      (case fst c of
         PopHead currentHead \<Rightarrow> currentHead = slot capacity h
       | PopFull currentHead \<Rightarrow> currentHead = slot capacity h \<and> h < v AtTail
       | PopItem currentHead item \<Rightarrow> currentHead = slot capacity h \<and> m_buffer m currentHead = item \<and>
           2 * (h div unat capacity) + 2 \<le> v (AtSlot currentHead)
       | _ \<Rightarrow> True))"

definition ends_ok :: "size_t \<Rightarrow> 'a memory \<Rightarrow> 'a push_pc \<times> view \<Rightarrow> 'a pop_pc \<times> view \<Rightarrow> bool" where
  "ends_ok capacity m p c \<longleftrightarrow> stores_ok capacity m \<and> producer_ok capacity m p \<and> consumer_ok capacity m c \<and>
     (\<forall>s. m_touched m s = uses capacity (latest (m_tail m) + written (fst p)) s +
        uses capacity (latest (m_head m) + read_out (fst c)) s)"

definition contents :: "size_t \<Rightarrow> 'a memory \<Rightarrow> 'a list" where
  "contents capacity m =
     map (\<lambda>k. m_buffer m (slot capacity k)) [latest (m_head m)..<latest (m_tail m)]"

text \<open>What one access changes for the others: histories and counters only grow.\<close>

definition grows :: "'a memory \<Rightarrow> 'a memory \<Rightarrow> bool" where
  "grows m m' \<longleftrightarrow> latest (m_head m) \<le> latest (m_head m') \<and> latest (m_tail m) \<le> latest (m_tail m') \<and>
     latest (m_lock m) \<le> latest (m_lock m') \<and> (\<forall>s. m_touched m s \<le> m_touched m' s)"

lemma knows_grows: "knows capacity m v \<Longrightarrow> grows m m' \<Longrightarrow> knows capacity m' v"
  unfolding knows_def grows_def by (meson order_trans)

text \<open>An acquire load of a value whose view carries the value's own position joins two views.\<close>

lemma acquire_sup: "v l \<le> i \<Longrightarrow> w l = i \<Longrightarrow> acquire l i w v = sup v w"
  by (auto simp: acquire_def fun_eq_iff sup_nat_def)

lemma knows_sup:
  assumes "knows capacity m v" and "knows capacity m w"
  shows "knows capacity m (sup v w)"
  using assms unfolding knows_def sup_fun_def sup_nat_def by (simp add: less_max_iff_disj) (meson le_max_iff_disj)
section \<open>Each side leaves the other alone\<close>

lemma consumer_ok_frame:
  assumes "consumer_ok capacity m c" and "grows m m'" and "latest (m_head m') = latest (m_head m)"
    and "read_out (fst c) = 1 \<Longrightarrow>
      m_buffer m' (slot capacity (latest (m_head m))) = m_buffer m (slot capacity (latest (m_head m)))"
  shows "consumer_ok capacity m' c"
  using assms knows_grows [OF _ assms(2)]
  by (cases "fst c") (auto simp: consumer_ok_def Let_def)

lemma producer_ok_frame:
  assumes "producer_ok capacity m p" and "grows m m'" and "latest (m_tail m') = latest (m_tail m)"
    and "m_buffer m' = m_buffer m"
  shows "producer_ok capacity m' p"
  using assms knows_grows [OF _ assms(2)]
  by (cases "fst p") (auto simp: producer_ok_def Let_def)

lemma stores_ok_frame:
  assumes "stores_ok capacity m" and "grows m m'" and "\<not> m_undefined m'"
    and "m_head m' = m_head m" and "m_tail m' = m_tail m" and "m_lock m' = m_lock m"
  shows "stores_ok capacity m'"
  using assms knows_grows [OF _ assms(2)] by (auto simp: stores_ok_def)

lemma grows_refl [simp]: "grows m m" by (simp add: grows_def)

lemma head_storeD:
  "stores_ok capacity m \<Longrightarrow> i < length (m_head m) \<Longrightarrow> fst (m_head m ! i) = slot capacity i"
  "stores_ok capacity m \<Longrightarrow> i < length (m_head m) \<Longrightarrow> snd (m_head m ! i) AtHead = i"
  "stores_ok capacity m \<Longrightarrow> i < length (m_head m) \<Longrightarrow> knows capacity m (snd (m_head m ! i))"
  by (simp_all add: stores_ok_def)

lemma tail_storeD:
  "stores_ok capacity m \<Longrightarrow> i < length (m_tail m) \<Longrightarrow> fst (m_tail m ! i) = slot capacity i"
  "stores_ok capacity m \<Longrightarrow> i < length (m_tail m) \<Longrightarrow> snd (m_tail m ! i) AtTail = i"
  "stores_ok capacity m \<Longrightarrow> i < length (m_tail m) \<Longrightarrow> knows capacity m (snd (m_tail m ! i))"
  by (simp_all add: stores_ok_def)

lemma read_head:
  assumes ok: "stores_ok capacity m" "knows capacity m v" and i: "readable (m_head m) (v AtHead) i"
  defines "v' \<equiv> acquire AtHead i (snd (m_head m ! i)) v"
  shows "knows capacity m v'" and "v' AtHead = i" and "v' AtTail = max (v AtTail) (snd (m_head m ! i) AtTail)"
    and "v AtHead \<le> i" and "i \<le> latest (m_head m)" and "v AtTail = latest (m_tail m) \<Longrightarrow> v' AtTail = v AtTail"
    and "v' AtLock = max (v AtLock) (snd (m_head m ! i) AtLock)"
proof -
  have r: "v AtHead \<le> i" "i < length (m_head m)" using i by (simp_all add: readable_def)
  note w = head_storeD [OF ok(1) r(2)]
  have v': "v' = sup v (snd (m_head m ! i))" unfolding v'_def by (rule acquire_sup) (use r w in simp_all)
  show "knows capacity m v'" unfolding v' by (rule knows_sup [OF ok(2) w(3)])
  show "v' AtHead = i" using r w(2) by (simp add: v' sup_nat_def)
  show "v' AtTail = max (v AtTail) (snd (m_head m ! i) AtTail)"
    "v' AtLock = max (v AtLock) (snd (m_head m ! i) AtLock)" by (simp_all add: v' sup_nat_def)
  show "v AtTail = latest (m_tail m) \<Longrightarrow> v' AtTail = v AtTail"
    using w(3) by (simp add: v' sup_nat_def knows_def max_def)
  show "v AtHead \<le> i" "i \<le> latest (m_head m)" using r by (simp_all add: latest_def)
qed

lemma read_tail:
  assumes ok: "stores_ok capacity m" "knows capacity m v" and i: "readable (m_tail m) (v AtTail) i"
  defines "v' \<equiv> acquire AtTail i (snd (m_tail m ! i)) v"
  shows "knows capacity m v'" and "v' AtTail = i" and "v AtTail \<le> i" and "i \<le> latest (m_tail m)"
    and "v AtHead = latest (m_head m) \<Longrightarrow> v' AtHead = v AtHead"
proof -
  have r: "v AtTail \<le> i" "i < length (m_tail m)" using i by (simp_all add: readable_def)
  note w = tail_storeD [OF ok(1) r(2)]
  have v': "v' = sup v (snd (m_tail m ! i))" unfolding v'_def by (rule acquire_sup) (use r w in simp_all)
  show "knows capacity m v'" unfolding v' by (rule knows_sup [OF ok(2) w(3)])
  show "v' AtTail = i" using r w(2) by (simp add: v' sup_nat_def)
  show "v AtHead = latest (m_head m) \<Longrightarrow> v' AtHead = v AtHead"
    using w(3) by (simp add: v' sup_nat_def knows_def max_def)
  show "v AtTail \<le> i" "i \<le> latest (m_tail m)" using r by (simp_all add: latest_def)
qed

text \<open>A relaxed load of one's own variable reads the newest value.\<close>

lemma read_own: "readable h (v l) i \<Longrightarrow> v l = latest h \<Longrightarrow> i = latest h \<and> v(l := i) = v"
  by (auto simp: readable_def latest_def fun_eq_iff)

section \<open>The slots\<close>

lemma ends_okD:
  assumes "ends_ok capacity m p c"
  shows "stores_ok capacity m" "producer_ok capacity m p" "consumer_ok capacity m c"
    "knows capacity m (snd p)" "knows capacity m (snd c)"
    "snd p AtTail = latest (m_tail m)" "snd c AtHead = latest (m_head m)"
    "latest (m_tail m) + written (fst p) < latest (m_head m) + unat capacity"
    "latest (m_head m) + read_out (fst c) \<le> latest (m_tail m)"
  using assms by (auto simp: ends_ok_def producer_ok_def consumer_ok_def knows_def Let_def)

lemma touched_tail:
  assumes cap: "is_capacity capacity" and ok: "ends_ok capacity m p c" and pc: "written (fst p) = 0"
    and room: "Suc (latest (m_tail m)) < snd p AtHead + unat capacity"
  defines "s \<equiv> slot capacity (latest (m_tail m))"
  shows "m_touched m s = 2 * (latest (m_tail m) div unat capacity)" and "snd p (AtSlot s) = m_touched m s"
proof -
  note D = ends_okD [OF ok] and C = capacity_bounds [OF cap]
  let ?t = "latest (m_tail m)" and ?h = "latest (m_head m)" and ?C = "unat capacity"
  have K: "snd p AtHead \<le> ?h" "snd p (AtSlot s) \<le> m_touched m s"
    "\<forall>k < snd p AtHead. 2 * (k div ?C) + 2 \<le> snd p (AtSlot (slot capacity k))"
    using D(4) by (simp_all add: knows_def)
  have r: "read_out (fst c) \<le> 1" by (cases "fst c") simp_all
  have "uses capacity ?t s = ?t div ?C" "uses capacity (?h + read_out (fst c)) s = ?t div ?C"
    unfolding s_def using D(9) K(1) room r C by (intro uses_before [OF cap]; linarith)+
  then show eq: "m_touched m s = 2 * (?t div ?C)" using ok pc by (simp add: ends_ok_def)
  have "2 * (?t div ?C) \<le> snd p (AtSlot s)"
  proof (cases "?t < ?C")
    case False
    then obtain k where k: "?t = k + ?C" by (metis le_add_diff_inverse2 not_less)
    then have "slot capacity k = s" by (simp add: s_def slot_eq_iff [OF cap])
    then show ?thesis using K(3) [rule_format, of k] room k by (simp add: div_next_round [OF cap])
  qed simp
  with K(2) eq show "snd p (AtSlot s) = m_touched m s" by simp
qed

lemma touched_head:
  assumes cap: "is_capacity capacity" and ok: "ends_ok capacity m p c" and pc: "read_out (fst c) = 0"
    and some: "latest (m_head m) < snd c AtTail"
  defines "s \<equiv> slot capacity (latest (m_head m))"
  shows "m_touched m s = 2 * (latest (m_head m) div unat capacity) + 1" and "snd c (AtSlot s) = m_touched m s"
proof -
  note D = ends_okD [OF ok]
  let ?t = "latest (m_tail m)" and ?h = "latest (m_head m)" and ?C = "unat capacity"
  have K: "snd c AtTail \<le> ?t" "snd c (AtSlot s) \<le> m_touched m s"
    "2 * (?h div ?C) + 1 \<le> snd c (AtSlot s)"
    using D(5) some by (simp_all add: knows_def s_def)
  have "uses capacity ?h s = ?h div ?C" "uses capacity (?t + written (fst p)) s = Suc (?h div ?C)"
    unfolding s_def using D(8) K(1) some by (intro uses_before [OF cap] uses_after [OF cap]; linarith)+
  then show eq: "m_touched m s = 2 * (?h div ?C) + 1" using ok pc by (simp add: ends_ok_def)
  with K show "snd c (AtSlot s) = m_touched m s" by simp
qed

lemma touch_keeps:
  assumes t: "touch v s m = (v', m')" and v: "knows capacity m v" and seen: "v (AtSlot s) = m_touched m s"
  shows "grows m m'" and "m_undefined m' = m_undefined m" and "knows capacity m' v'"
    and "m_head m' = m_head m" and "m_tail m' = m_tail m" and "m_lock m' = m_lock m"
    and "m_buffer m' = m_buffer m" and "m_touched m' = (m_touched m)(s := Suc (m_touched m s))"
    and "v' = v(AtSlot s := Suc (m_touched m s))"
proof -
  show m': "m_head m' = m_head m" "m_tail m' = m_tail m" "m_lock m' = m_lock m"
    "m_buffer m' = m_buffer m" "m_touched m' = (m_touched m)(s := Suc (m_touched m s))"
    and "m_undefined m' = m_undefined m" and v': "v' = v(AtSlot s := Suc (m_touched m s))"
    using t seen by (auto simp: touch_def)
  show "grows m m'" by (simp add: grows_def m')
  show "knows capacity m' v'"
    using v seen by (auto simp: knows_def m' v' le_Suc_eq)
qed

section \<open>The producer's accesses\<close>

text \<open>
  What an access means for the list of queued elements, and what a refusal says: the queue was
  full, or the caller has not yet seen so many pops as there is room.
\<close>

fun access_effect :: "size_t \<Rightarrow> 'a queue_event \<Rightarrow> view \<Rightarrow> 'a memory \<Rightarrow> 'a memory \<Rightarrow> bool" where
  "access_effect capacity (Accepted x) v m m' \<longleftrightarrow> contents capacity m' = contents capacity m @ [x] \<and>
     length (contents capacity m) < unat capacity - 1"
| "access_effect capacity (Taken x) v m m' \<longleftrightarrow> contents capacity m = x # contents capacity m'"
| "access_effect capacity (Refused x) v m m' \<longleftrightarrow> contents capacity m' = contents capacity m \<and>
     unat capacity - 1 \<le> length (contents capacity m) + (latest (m_head m) - v AtHead)"
| "access_effect capacity FoundEmpty v m m' \<longleftrightarrow> contents capacity m' = contents capacity m \<and>
     length (contents capacity m) \<le> latest (m_tail m) - v AtTail"
| "access_effect capacity Silent v m m' \<longleftrightarrow> contents capacity m' = contents capacity m"

lemma length_contents: "length (contents capacity m) = latest (m_tail m) - latest (m_head m)"
  by (simp add: contents_def)

text \<open>The common shape of an access: the memory is unchanged and the producer has read the head.\<close>

lemma push_head_read:
  assumes cap: "is_capacity capacity" and ok: "ends_ok capacity m (PushTail x currentTail, v) c"
    and i: "readable (m_head m) (v AtHead) i"
  defines "v' \<equiv> acquire AtHead i (snd (m_head m ! i)) v"
  shows "(currentTail + 1) AND (capacity - 1) = fst (m_head m ! i) \<longleftrightarrow>
      Suc (latest (m_tail m)) = i + unat capacity"
    and "Suc (latest (m_tail m)) \<le> i + unat capacity"
    and "Suc (latest (m_tail m)) < i + unat capacity \<Longrightarrow> ends_ok capacity m (PushRoom x currentTail, v') c"
    and "ends_ok capacity m (PushReturn b, v') c"
proof -
  note D = ends_okD [OF ok, simplified] and C = capacity_bounds [OF cap]
  note R = read_head [OF D(1,4) i, folded v'_def]
  have P: "currentTail = slot capacity (latest (m_tail m))"
    "latest (m_tail m) < v AtHead + unat capacity"
    using D(2) by (simp_all add: producer_ok_def Let_def)
  have near: "i < Suc (latest (m_tail m))" "Suc (latest (m_tail m)) \<le> i + unat capacity"
    using P(2) R(4,5) D(9) by linarith+
  then show "Suc (latest (m_tail m)) \<le> i + unat capacity" by simp
  have "i < length (m_head m)" using i by (simp add: readable_def)
  then show "(currentTail + 1) AND (capacity - 1) = fst (m_head m ! i) \<longleftrightarrow>
      Suc (latest (m_tail m)) = i + unat capacity"
    using near mod_eq_near [OF near] C head_storeD(1) [OF D(1)]
    by (auto simp: P(1) slot_Suc [OF cap] slot_eq_iff [OF cap])
  have "latest (m_tail m) < i + unat capacity" "v' AtTail = latest (m_tail m)"
    using near R(6) D(6) by simp_all
  then show "Suc (latest (m_tail m)) < i + unat capacity \<Longrightarrow> ends_ok capacity m (PushRoom x currentTail, v') c"
    and "ends_ok capacity m (PushReturn b, v') c"
    using ok R(1,2) P(1) by (simp_all add: ends_ok_def producer_ok_def Let_def)
qed

lemma push_write_keeps:
  assumes cap: "is_capacity capacity" and ok: "ends_ok capacity m (PushRoom x currentTail, v) c"
    and t: "touch v currentTail m = (v', m1)"
  defines "m' \<equiv> m1\<lparr>m_buffer := (m_buffer m1)(currentTail := x)\<rparr>"
  shows "ends_ok capacity m' (PushPublish x currentTail, v') c" and "grows m m'" and "m_lock m' = m_lock m"
    and "contents capacity m' = contents capacity m" and "v' AtLock = v AtLock"
proof -
  note D = ends_okD [OF ok, simplified]
  let ?t = "latest (m_tail m)"
  have P: "currentTail = slot capacity ?t" "Suc ?t < v AtHead + unat capacity"
    using D(2) by (simp_all add: producer_ok_def Let_def)
  note T = touched_tail [OF cap ok, simplified, OF P(2), folded P(1)]
  note K = touch_keeps [OF t D(4) [simplified] T(2)]
  have m': "m_head m' = m_head m" "m_tail m' = m_tail m" "m_lock m' = m_lock m" "m_touched m' = m_touched m1"
    "m_buffer m' = (m_buffer m)(currentTail := x)" "\<not> m_undefined m'"
    using K D(1) by (simp_all add: m'_def stores_ok_def)
  show "m_lock m' = m_lock m" and "v' AtLock = v AtLock" using m' K by simp_all
  show grows: "grows m m'" using K(1) m' by (simp add: grows_def K)
  have other: "slot capacity k \<noteq> currentTail" if "latest (m_head m) \<le> k" "k < ?t" for k
    using that D(8) mod_eq_near [of k ?t "unat capacity"] capacity_bounds [OF cap]
    by (simp add: P(1) slot_eq_iff [OF cap])
  then show "contents capacity m' = contents capacity m" by (simp add: contents_def m')
  have "knows capacity m' v'" using K(3) by (simp add: knows_def m' K)
  then have "producer_ok capacity m' (PushPublish x currentTail, v')"
    using P D(6) T(1) K(9) by (simp add: producer_ok_def Let_def m')
  moreover have "consumer_ok capacity m' c"
    using D(9) other [of "latest (m_head m)"] by (intro consumer_ok_frame [OF D(3) grows]) (auto simp: m')
  moreover have "stores_ok capacity m'" by (rule stores_ok_frame [OF D(1) grows]) (simp_all add: m')
  ultimately show "ends_ok capacity m' (PushPublish x currentTail, v') c"
    using ok by (auto simp: ends_ok_def m' K uses_Suc P(1))
qed

lemma latest_snoc [simp]: "h \<noteq> [] \<Longrightarrow> latest (h @ [x]) = Suc (latest h)"
  by (simp add: latest_def)

lemma length_latest: "h \<noteq> [] \<Longrightarrow> length h = Suc (latest h)"
  by (simp add: latest_def)

lemma push_publish_keeps:
  assumes cap: "is_capacity capacity" and ok: "ends_ok capacity m (PushPublish x currentTail, v) c"
    and st: "store_tail ((currentTail + 1) AND (capacity - 1)) v m = (v', m')"
  shows "ends_ok capacity m' (PushReturn True, v') c" and "grows m m'" and "m_lock m' = m_lock m"
    and "contents capacity m' = contents capacity m @ [x]" and "v' AtLock = v AtLock"
proof -
  note D = ends_okD [OF ok, simplified]
  let ?t = "latest (m_tail m)"
  have P: "currentTail = slot capacity ?t" "Suc ?t < v AtHead + unat capacity" "m_buffer m currentTail = x"
    "2 * (?t div unat capacity) + 1 \<le> v (AtSlot currentTail)"
    using D(2) by (auto simp: producer_ok_def Let_def)
  have ne: "m_tail m \<noteq> []" using D(1) by (simp add: stores_ok_def)
  have v': "v' = v(AtTail := Suc ?t)"
    and m': "m_tail m' = m_tail m @ [(slot capacity (Suc ?t), v')]" "m_head m' = m_head m"
      "m_lock m' = m_lock m" "m_touched m' = m_touched m" "m_buffer m' = m_buffer m" "\<not> m_undefined m'"
    using st D(1,6) ne by (auto simp: store_tail_def Let_def length_latest P(1) slot_Suc [OF cap] stores_ok_def)
  show "m_lock m' = m_lock m" and "v' AtLock = v AtLock" using m' v' by simp_all
  show grows: "grows m m'" using ne by (simp add: grows_def m')
  show "contents capacity m' = contents capacity m @ [x]"
    using D(9) P(1,3) ne by (simp add: contents_def m')
  have v'_knows: "knows capacity m' v'"
    using D(4,6) P(1,4) ne by (auto simp: knows_def m' v' less_Suc_eq)
  then have "producer_ok capacity m' (PushReturn True, v')"
    using P(2) ne by (simp add: producer_ok_def Let_def m') (simp add: v')
  moreover have "consumer_ok capacity m' c"
    by (rule consumer_ok_frame [OF D(3) grows]) (simp_all add: m')
  moreover have "stores_ok capacity m'"
    using D(1) v'_knows knows_grows [OF _ grows]
    by (auto simp: stores_ok_def m' nth_append length_latest less_Suc_eq) (simp add: v')
  ultimately show "ends_ok capacity m' (PushReturn True, v') c"
    using ok ne by (simp add: ends_ok_def m')
qed

lemma push_access_keeps:
  assumes cap: "is_capacity capacity" and ok: "ends_ok capacity m p c"
    and step: "push_access capacity p m ev p' m'"
  shows "ends_ok capacity m' p' c" and "grows m m'" and "m_lock m' = m_lock m"
    and "access_effect capacity ev (snd p) m m'"
proof -
  note D = ends_okD [OF ok]
  have "ends_ok capacity m' p' c \<and> grows m m' \<and> m_lock m' = m_lock m \<and>
      access_effect capacity ev (snd p) m m'"
    using step
  proof cases
    case (access_tail v i x)
    then have i: "i = latest (m_tail m)" "v(AtTail := latest (m_tail m)) = v"
      using D(6) read_own [of "m_tail m" v AtTail i] by auto
    have "fst (m_tail m ! i) = slot capacity i"
      using tail_storeD(1) [OF D(1)] access_tail(5) by (simp add: readable_def)
    then show ?thesis
      using access_tail i ok by (simp add: ends_ok_def producer_ok_def Let_def)
  next
    case (access_full v i currentTail x)
    note R = push_head_read [OF cap ok [unfolded access_full(1)] access_full(5)]
    show ?thesis
      using access_full R(1,4) D(8,9)
      by (auto simp: length_contents readable_def latest_def)
  next
    case (access_room v i currentTail x)
    note R = push_head_read [OF cap ok [unfolded access_room(1)] access_room(5)]
    show ?thesis using access_room R(1,2,3) by auto
  next
    case (access_write v currentTail v' m1 x)
    note W = push_write_keeps [OF cap ok [unfolded access_write(1)] access_write(5)]
    show ?thesis using access_write W by simp
  next
    case (access_publish currentTail v v' x)
    note W = push_publish_keeps [OF cap ok [unfolded access_publish(1)] access_publish(4)]
    have "length (contents capacity m) < unat capacity - 1"
      using D(8,9) access_publish by (simp add: length_contents)
    then show ?thesis using access_publish W by simp
  qed
  then show "ends_ok capacity m' p' c" and "grows m m'" and "m_lock m' = m_lock m"
    and "access_effect capacity ev (snd p) m m'" by blast+
qed

section \<open>The consumer's accesses\<close>

lemma pop_tail_read:
  assumes cap: "is_capacity capacity" and ok: "ends_ok capacity m p (PopHead currentHead, v)"
    and i: "readable (m_tail m) (v AtTail) i"
  defines "v' \<equiv> acquire AtTail i (snd (m_tail m ! i)) v"
  shows "currentHead = fst (m_tail m ! i) \<longleftrightarrow> i = latest (m_head m)"
    and "latest (m_head m) < i \<Longrightarrow> ends_ok capacity m p (PopFull currentHead, v')"
    and "ends_ok capacity m p (PopIdle, v')" and "latest (m_head m) \<le> i"
proof -
  note D = ends_okD [OF ok, simplified] and C = capacity_bounds [OF cap]
  note R = read_tail [OF D(1,5) i, folded v'_def]
  let ?h = "latest (m_head m)"
  have P: "currentHead = slot capacity ?h" "?h \<le> v AtTail"
    using D(3) by (simp_all add: consumer_ok_def Let_def)
  then show h: "?h \<le> i" using R(3) by simp
  have "i < length (m_tail m)" using i by (simp add: readable_def)
  then have "fst (m_tail m ! i) = slot capacity i" by (rule tail_storeD(1) [OF D(1)])
  moreover have "slot capacity ?h = slot capacity i \<longleftrightarrow> i = ?h"
  proof (cases "?h < i")
    case True
    then show ?thesis
      using D(8) R(4) C mod_eq_near [of ?h i "unat capacity"] by (simp add: slot_eq_iff [OF cap])
  qed (use h in simp)
  ultimately show "currentHead = fst (m_tail m ! i) \<longleftrightarrow> i = ?h" by (simp add: P(1))
  show "latest (m_head m) < i \<Longrightarrow> ends_ok capacity m p (PopFull currentHead, v')"
    and "ends_ok capacity m p (PopIdle, v')"
    using ok R(1,2) R(5) [OF D(7)] P(1) h D(7) by (simp_all add: ends_ok_def consumer_ok_def Let_def)
qed

lemma pop_read_keeps:
  assumes cap: "is_capacity capacity" and ok: "ends_ok capacity m p (PopFull currentHead, v)"
    and t: "touch v currentHead m = (v', m')"
  shows "ends_ok capacity m' p (PopItem currentHead (m_buffer m currentHead), v')" and "grows m m'"
    and "m_lock m' = m_lock m" and "contents capacity m' = contents capacity m"
proof -
  note D = ends_okD [OF ok, simplified]
  let ?h = "latest (m_head m)"
  have P: "currentHead = slot capacity ?h" "?h < v AtTail"
    using D(3) by (simp_all add: consumer_ok_def Let_def)
  note T = touched_head [OF cap ok, simplified, OF P(2), folded P(1)]
  note K = touch_keeps [OF t D(5) [simplified] T(2)]
  show "m_lock m' = m_lock m" "grows m m'" "contents capacity m' = contents capacity m"
    by (simp_all add: K contents_def)
  have "consumer_ok capacity m' (PopItem currentHead (m_buffer m currentHead), v')"
    using K(3) P D(7) T(1) K(9) by (simp add: consumer_ok_def Let_def K(4-7))
  moreover have "producer_ok capacity m' p"
    by (rule producer_ok_frame [OF D(2) K(1)]) (simp_all add: K(4-7))
  moreover have "stores_ok capacity m'"
    using D(1) by (intro stores_ok_frame [OF D(1) K(1)]) (simp_all add: K(2,4-6) stores_ok_def)
  ultimately show "ends_ok capacity m' p (PopItem currentHead (m_buffer m currentHead), v')"
    using ok by (auto simp: ends_ok_def K(4,5,8) uses_Suc P(1))
qed

lemma pop_advance_keeps:
  assumes cap: "is_capacity capacity" and ok: "ends_ok capacity m p (PopItem currentHead item, v)"
    and st: "store_head ((currentHead + 1) AND (capacity - 1)) v m = (v', m')"
  shows "ends_ok capacity m' p (PopIdle, v')" and "grows m m'" and "m_lock m' = m_lock m"
    and "contents capacity m = item # contents capacity m'"
proof -
  note D = ends_okD [OF ok, simplified]
  let ?h = "latest (m_head m)"
  have P: "currentHead = slot capacity ?h" "Suc ?h \<le> v AtTail" "m_buffer m currentHead = item"
    "2 * (?h div unat capacity) + 2 \<le> v (AtSlot currentHead)"
    using D(3) by (auto simp: consumer_ok_def Let_def)
  have ne: "m_head m \<noteq> []" using D(1) by (simp add: stores_ok_def)
  have v': "v' = v(AtHead := Suc ?h)"
    and m': "m_head m' = m_head m @ [(slot capacity (Suc ?h), v')]" "m_tail m' = m_tail m"
      "m_lock m' = m_lock m" "m_touched m' = m_touched m" "m_buffer m' = m_buffer m" "\<not> m_undefined m'"
    using st D(1,7) ne by (auto simp: store_head_def Let_def length_latest P(1) slot_Suc [OF cap] stores_ok_def)
  show "m_lock m' = m_lock m" by (rule m'(3))
  show grows: "grows m m'" using ne by (simp add: grows_def m')
  have "?h < latest (m_tail m)" using D(9) by simp
  then show "contents capacity m = item # contents capacity m'"
    using P(1,3) ne by (simp add: contents_def m' upt_conv_Cons)
  have v'_knows: "knows capacity m' v'"
    using D(5,7) P(1,4) ne by (auto simp: knows_def m' v' less_Suc_eq)
  then have "consumer_ok capacity m' (PopIdle, v')"
    using P(2) ne by (simp add: consumer_ok_def Let_def m') (simp add: v')
  moreover have "producer_ok capacity m' p"
    by (rule producer_ok_frame [OF D(2) grows]) (simp_all add: m')
  moreover have "stores_ok capacity m'"
    using D(1) v'_knows knows_grows [OF _ grows]
    by (auto simp: stores_ok_def m' nth_append length_latest less_Suc_eq) (simp add: v')
  ultimately show "ends_ok capacity m' p (PopIdle, v')"
    using ok ne by (simp add: ends_ok_def m')
qed

lemma pop_access_keeps:
  assumes cap: "is_capacity capacity" and ok: "ends_ok capacity m p c"
    and step: "pop_access capacity c m ev c' m'"
  shows "ends_ok capacity m' p c'" and "grows m m'" and "m_lock m' = m_lock m"
    and "access_effect capacity ev (snd c) m m'"
proof -
  note D = ends_okD [OF ok]
  have "ends_ok capacity m' p c' \<and> grows m m' \<and> m_lock m' = m_lock m \<and>
      access_effect capacity ev (snd c) m m'"
    using step
  proof cases
    case (access_head v i)
    then have i: "i = latest (m_head m)" "v(AtHead := latest (m_head m)) = v"
      using D(7) read_own [of "m_head m" v AtHead i] by auto
    have "fst (m_head m ! i) = slot capacity i"
      using head_storeD(1) [OF D(1)] access_head(5) by (simp add: readable_def)
    then show ?thesis
      using access_head i ok by (simp add: ends_ok_def consumer_ok_def Let_def)
  next
    case (access_empty v i currentHead)
    note R = pop_tail_read [OF cap ok [unfolded access_empty(1)] access_empty(5)]
    show ?thesis
      using access_empty R(1,3)
      by (auto simp: length_contents readable_def latest_def)
  next
    case (access_some v i currentHead)
    note R = pop_tail_read [OF cap ok [unfolded access_some(1)] access_some(5)]
    show ?thesis using access_some R(1,2,4) by auto
  next
    case (access_read v currentHead v')
    note W = pop_read_keeps [OF cap ok [unfolded access_read(1)] access_read(4)]
    show ?thesis using access_read W by simp
  next
    case (access_advance currentHead v v' item)
    note W = pop_advance_keeps [OF cap ok [unfolded access_advance(1)] access_advance(4)]
    show ?thesis using access_advance W by simp
  qed
  then show "ends_ok capacity m' p c'" and "grows m m'" and "m_lock m' = m_lock m"
    and "access_effect capacity ev (snd c) m m'" by blast+
qed

section \<open>The systems keep the invariant\<close>

definition spsc_mem_inv :: "size_t \<Rightarrow> 'a spsc_mem \<Rightarrow> bool" where
  "spsc_mem_inv capacity s \<longleftrightarrow> ends_ok capacity (sm_memory s) (sm_producer s) (sm_consumer s)"

text \<open>While nobody holds the lock, its newest value carries the view of the last holder.\<close>

definition mpsc_mem_inv :: "size_t \<Rightarrow> 'a mpsc_mem \<Rightarrow> bool" where
  "mpsc_mem_inv capacity s \<longleftrightarrow>
     (let m = mm_memory s; taken = fst (last (m_lock m)) in
      (\<forall>i. knows capacity m (snd (mm_producer s i))) \<and>
      lock_agrees taken (\<lambda>i. fst (mm_producer s i)) \<and>
      (\<forall>i. holds_lock (fst (mm_producer s i)) \<longrightarrow> ends_ok capacity m (mm_producer s i) (mm_consumer s) \<and>
         snd (mm_producer s i) AtLock = latest (m_lock m)) \<and>
      (\<not> taken \<longrightarrow> ends_ok capacity m (PushIdle, snd (last (m_lock m))) (mm_consumer s)))"

text \<open>The counter of the lock, and the steps between calls, do not matter to the two ends.\<close>

lemma knows_lock: "j \<le> latest (m_lock m) \<Longrightarrow> knows capacity m v \<Longrightarrow> knows capacity m (v(AtLock := j))"
  by (simp add: knows_def)

lemma knows_acquire_lock:
  "j \<le> latest (m_lock m) \<Longrightarrow> knows capacity m v \<Longrightarrow> knows capacity m w \<Longrightarrow>
   knows capacity m (acquire AtLock j w v)"
  unfolding acquire_def by (intro knows_sup knows_lock)

lemma ends_ok_idle:
  "ends_ok capacity m (p, v) c \<Longrightarrow> written p = 0 \<Longrightarrow> ends_ok capacity m (PushStart x, v) c"
  "ends_ok capacity m (p, v) c \<Longrightarrow> written p = 0 \<Longrightarrow> ends_ok capacity m (PushIdle, v) c"
  by (simp_all add: ends_ok_def producer_ok_def Let_def)

lemma ends_ok_lock:
  assumes "ends_ok capacity m p c" and "knows capacity m w" and "m' = m\<lparr>m_lock := m_lock m @ [(b, w)]\<rparr>"
  shows "ends_ok capacity m' p c" and "grows m m'"
proof -
  have "m_lock m \<noteq> []" using assms(1) by (simp add: ends_ok_def stores_ok_def)
  then show grows: "grows m m'" using assms(3) by (simp add: grows_def)
  note D = ends_okD [OF assms(1)]
  have "stores_ok capacity m'"
    using D(1) assms(2) knows_grows [OF _ grows] by (auto simp: stores_ok_def assms(3))
  moreover have "producer_ok capacity m' p" by (rule producer_ok_frame [OF D(2) grows]) (simp_all add: assms(3))
  moreover have "consumer_ok capacity m' c" by (rule consumer_ok_frame [OF D(3) grows]) (simp_all add: assms(3))
  ultimately show "ends_ok capacity m' p c" using assms(1) by (simp add: ends_ok_def assms(3))
qed

lemma ends_ok_view:
  assumes "ends_ok capacity m (PushIdle, w) c" and "knows capacity m v" and "w AtHead \<le> v AtHead"
    and "v AtTail = w AtTail"
  shows "ends_ok capacity m (PushIdle, v) c"
  using assms by (simp add: ends_ok_def producer_ok_def Let_def)

lemma spsc_mem_step_keeps:
  assumes cap: "is_capacity capacity" and inv: "spsc_mem_inv capacity s" and step: "spsc_mem_step capacity s ev t"
  shows "spsc_mem_inv capacity t" and "\<exists>v. access_effect capacity ev v (sm_memory s) (sm_memory t)"
proof -
  note ok = inv [unfolded spsc_mem_inv_def]
  have "spsc_mem_inv capacity t \<and> (\<exists>v. access_effect capacity ev v (sm_memory s) (sm_memory t))"
    using step
  proof cases
    case (sm_call v x)
    then show ?thesis using ok ends_ok_idle(1) [of capacity _ PushIdle v] by (simp add: spsc_mem_inv_def)
  next
    case (sm_push p m)
    then show ?thesis using push_access_keeps(1,4) [OF cap ok sm_push(2)] by (auto simp: spsc_mem_inv_def)
  next
    case (sm_return b v)
    then show ?thesis using ok ends_ok_idle(2) [of capacity _ "PushReturn b" v] by (simp add: spsc_mem_inv_def)
  next
    case (sm_pop c m)
    then show ?thesis using pop_access_keeps(1,4) [OF cap ok sm_pop(2)] by (auto simp: spsc_mem_inv_def)
  qed
  then show "spsc_mem_inv capacity t" and "\<exists>v. access_effect capacity ev v (sm_memory s) (sm_memory t)" by blast+
qed

text \<open>The view of the thread that takes effect: the caller whose program counter moves.\<close>

definition caller_view :: "'a queue_event \<Rightarrow> 'a mpsc_mem \<Rightarrow> view \<Rightarrow> bool" where
  "caller_view ev s v \<longleftrightarrow>
     (case ev of
        Refused x \<Rightarrow> \<exists>i t. mm_producer s i = (PushTail x t, v)
      | FoundEmpty \<Rightarrow> \<exists>h. mm_consumer s = (PopHead h, v)
      | _ \<Rightarrow> True)"

lemma push_access_caller:
  "push_access capacity (mm_producer s i) (mm_memory s) ev p m \<Longrightarrow> caller_view ev s (snd (mm_producer s i))"
  by (cases rule: push_access.cases, assumption) (auto simp: caller_view_def intro: exI [of _ i])

lemma pop_access_caller:
  "pop_access capacity (mm_consumer s) (mm_memory s) ev p m \<Longrightarrow> caller_view ev s (snd (mm_consumer s))"
  by (cases rule: pop_access.cases, assumption) (auto simp: caller_view_def)

lemma push_access_holds:
  "push_access capacity p m ev p' m' \<Longrightarrow> holds_lock (fst p) \<and> holds_lock (fst p')"
  by (cases rule: push_access.cases, assumption) simp_all

lemma push_access_lock_view:
  assumes "push_access capacity p m ev p' m'" and "ends_ok capacity m p c"
    and "snd p AtLock = latest (m_lock m)"
  shows "snd p' AtLock = snd p AtLock"
  using assms(1)
proof cases
  case (access_full v i currentTail x)
  show ?thesis
    using assms(2,3) head_storeD(3) [of capacity m i] read_head(7) [of capacity m v i] ends_okD [OF assms(2)] access_full
    by (simp add: readable_def knows_def)
next
  case (access_room v i currentTail x)
  show ?thesis
    using assms(2,3) head_storeD(3) [of capacity m i] read_head(7) [of capacity m v i] ends_okD [OF assms(2)] access_room
    by (simp add: readable_def knows_def)
qed (auto simp: touch_def store_tail_def Let_def)

lemma mpsc_mem_invD:
  assumes "mpsc_mem_inv capacity s"
  shows "knows capacity (mm_memory s) (snd (mm_producer s i))"
    and "lock_agrees (fst (last (m_lock (mm_memory s)))) (\<lambda>i. fst (mm_producer s i))"
    and "holds_lock (fst (mm_producer s i)) \<Longrightarrow> ends_ok capacity (mm_memory s) (mm_producer s i) (mm_consumer s)"
    and "holds_lock (fst (mm_producer s i)) \<Longrightarrow> snd (mm_producer s i) AtLock = latest (m_lock (mm_memory s))"
    and "\<not> fst (last (m_lock (mm_memory s))) \<Longrightarrow>
      ends_ok capacity (mm_memory s) (PushIdle, snd (last (m_lock (mm_memory s)))) (mm_consumer s)"
  using assms by (auto simp: mpsc_mem_inv_def Let_def)

lemma fst_upd:
  "(\<lambda>j. fst ((f(i := p)) j)) = (\<lambda>j. fst (f j))(i := fst p)"
  "(\<lambda>j. fst (if j = i then p else f j)) = (\<lambda>j. fst (f j))(i := fst p)"
  by auto

text \<open>Somebody always stands for the producers: the holder of the lock, or its last holder.\<close>

lemma mpsc_mem_inv_stores:
  assumes "mpsc_mem_inv capacity s"
  shows "\<exists>p. ends_ok capacity (mm_memory s) p (mm_consumer s)"
  using mpsc_mem_invD(2,3,5) [OF assms] unfolding lock_agrees_def by blast

lemma mpsc_push_keeps:
  assumes cap: "is_capacity capacity" and inv: "mpsc_mem_inv capacity s"
    and step: "push_access capacity (mm_producer s i) (mm_memory s) ev p m"
  shows "mpsc_mem_inv capacity (s\<lparr>mm_producer := (mm_producer s)(i := p), mm_memory := m\<rparr>)"
    and "access_effect capacity ev (snd (mm_producer s i)) (mm_memory s) m"
proof -
  note D = mpsc_mem_invD [OF inv]
  have h: "holds_lock (fst (mm_producer s i))" "holds_lock (fst p)" using push_access_holds [OF step] by simp_all
  note K = push_access_keeps [OF cap D(3) [OF h(1)] step]
  show "access_effect capacity ev (snd (mm_producer s i)) (mm_memory s) m" by (rule K(4))
  have "snd p AtLock = latest (m_lock m)"
    using push_access_lock_view [OF step D(3,4) [OF h(1)]] D(4) [OF h(1)] K(3) by simp
  moreover have "\<not> holds_lock (fst (mm_producer s j))" if "j \<noteq> i" for j
    using lock_agrees_unique [OF D(2) h(1) that] .
  moreover have "fst (last (m_lock (mm_memory s)))" using D(2) h(1) unfolding lock_agrees_def by blast
  moreover have "knows capacity m (snd p)" by (rule ends_okD(4) [OF K(1)])
  ultimately show "mpsc_mem_inv capacity (s\<lparr>mm_producer := (mm_producer s)(i := p), mm_memory := m\<rparr>)"
    using D(1,2) K(1,3) h knows_grows [OF _ K(2)]
    by (auto simp: mpsc_mem_inv_def Let_def fst_upd lock_agrees_same)
qed

lemma mpsc_pop_keeps:
  assumes cap: "is_capacity capacity" and inv: "mpsc_mem_inv capacity s"
    and step: "pop_access capacity (mm_consumer s) (mm_memory s) ev c m"
  shows "mpsc_mem_inv capacity (s\<lparr>mm_consumer := c, mm_memory := m\<rparr>)"
    and "access_effect capacity ev (snd (mm_consumer s)) (mm_memory s) m"
proof -
  note D = mpsc_mem_invD [OF inv] and K = pop_access_keeps [OF cap _ step]
  obtain p where p: "ends_ok capacity (mm_memory s) p (mm_consumer s)" using mpsc_mem_inv_stores [OF inv] by blast
  show "access_effect capacity ev (snd (mm_consumer s)) (mm_memory s) m" by (rule K(4) [OF p])
  show "mpsc_mem_inv capacity (s\<lparr>mm_consumer := c, mm_memory := m\<rparr>)"
    using D K(1) K(3) [OF p] knows_grows [OF _ K(2) [OF p]] by (simp add: mpsc_mem_inv_def Let_def)
qed

lemma mpsc_acquire_keeps:
  assumes cap: "is_capacity capacity" and inv: "mpsc_mem_inv capacity s"
    and pc: "mm_producer s i = (PushSpin x, v)" and free: "\<not> fst (last (m_lock (mm_memory s)))"
    and ex: "exchange_lock v (mm_memory s) = (v', m')"
  shows "mpsc_mem_inv capacity (s\<lparr>mm_producer := (mm_producer s)(i := (PushStart x, v')), mm_memory := m'\<rparr>)"
    and "contents capacity m' = contents capacity (mm_memory s)"
proof -
  note D = mpsc_mem_invD [OF inv]
  let ?m = "mm_memory s" and ?w = "snd (last (m_lock (mm_memory s)))"
  note ok = D(5) [OF free] and E = ends_okD [OF D(5) [OF free], simplified]
  have v': "v' = acquire AtLock (length (m_lock ?m)) ?w v" and m': "m' = ?m\<lparr>m_lock := m_lock ?m @ [(True, ?w)]\<rparr>"
    using ex by (simp_all add: exchange_lock_def Let_def)
  show "contents capacity m' = contents capacity ?m" by (simp add: contents_def m')
  note L = ends_ok_lock [OF ok E(4) m']
  have ne: "m_lock ?m \<noteq> []" using E(1) by (simp add: stores_ok_def)
  have kv: "knows capacity ?m v" using D(1) [of i] by (simp add: pc)
  have lock: "latest (m_lock m') = length (m_lock ?m)" using ne by (simp add: m' length_latest)
  have w_lock: "?w AtLock \<le> length (m_lock ?m)" using E(4) ne by (simp add: knows_def length_latest)
  have knows': "knows capacity m' v'"
    unfolding v' using kv E(4) lock knows_grows [OF _ L(2)] by (intro knows_acquire_lock) simp_all
  have "?w AtHead \<le> v' AtHead" "v' AtTail = ?w AtTail" "v' AtLock = length (m_lock ?m)"
    using kv E(6) w_lock by (simp_all add: v' acquire_def knows_def sup_nat_def max_def)
  then have "ends_ok capacity m' (PushStart x, v') (mm_consumer s)" "v' AtLock = latest (m_lock m')"
    using ends_ok_idle(1) [OF ends_ok_view [OF L(1) knows']] lock by simp_all
  moreover have "lock_agrees True ((\<lambda>j. fst (mm_producer s j))(i := PushStart x))"
    using lock_agrees_acquire [of "\<lambda>j. fst (mm_producer s j)"] D(2) free by simp
  moreover have "\<not> holds_lock (fst (mm_producer s j))" for j
    using D(2) free unfolding lock_agrees_def by blast
  ultimately show "mpsc_mem_inv capacity (s\<lparr>mm_producer := (mm_producer s)(i := (PushStart x, v')), mm_memory := m'\<rparr>)"
    using knows_grows [OF D(1) L(2)] knows' by (auto simp: mpsc_mem_inv_def Let_def fst_upd m')
qed

lemma mpsc_release_keeps:
  assumes cap: "is_capacity capacity" and inv: "mpsc_mem_inv capacity s"
    and pc: "mm_producer s i = (PushReturn b, v)" and st: "store_lock v (mm_memory s) = (v', m')"
  shows "mpsc_mem_inv capacity (s\<lparr>mm_producer := (mm_producer s)(i := (PushIdle, v')), mm_memory := m'\<rparr>)"
    and "contents capacity m' = contents capacity (mm_memory s)"
proof -
  note D = mpsc_mem_invD [OF inv]
  let ?m = "mm_memory s"
  have h: "holds_lock (fst (mm_producer s i))" by (simp add: pc)
  have ok: "ends_ok capacity ?m (PushReturn b, v) (mm_consumer s)" and seen: "v AtLock = latest (m_lock ?m)"
    using D(3,4) [OF h] by (simp_all add: pc)
  note E = ends_okD [OF ok, simplified]
  have ne: "m_lock ?m \<noteq> []" using E(1) by (simp add: stores_ok_def)
  have v': "v' = v(AtLock := length (m_lock ?m))" and m': "m' = ?m\<lparr>m_lock := m_lock ?m @ [(False, v')]\<rparr>"
    using st seen by (auto simp: store_lock_def Let_def)
  show "contents capacity m' = contents capacity ?m" by (simp add: contents_def m')
  have grows: "grows ?m m'" using ne by (simp add: grows_def m')
  have lock: "latest (m_lock m') = length (m_lock ?m)" using ne by (simp add: m' length_latest)
  have knows': "knows capacity m' v'"
    unfolding v' using lock knows_grows [OF E(4) grows] by (intro knows_lock) simp_all
  have "stores_ok capacity m'"
    using E(1) knows' knows_grows [OF _ grows] by (auto simp: stores_ok_def m')
  moreover have "consumer_ok capacity m' (mm_consumer s)"
    by (rule consumer_ok_frame [OF E(3) grows]) (simp_all add: m')
  moreover have "producer_ok capacity m' (PushIdle, v')"
    using E(2) knows' by (simp add: producer_ok_def Let_def m') (simp add: v')
  ultimately have "ends_ok capacity m' (PushIdle, v') (mm_consumer s)"
    using ok by (simp add: ends_ok_def m')
  moreover have "lock_agrees False ((\<lambda>j. fst (mm_producer s j))(i := PushIdle))"
    using lock_agrees_release [OF D(2), of i] h by simp
  moreover have "\<not> holds_lock (fst (mm_producer s j))" if "j \<noteq> i" for j
    using lock_agrees_unique [OF D(2) h that] .
  ultimately show "mpsc_mem_inv capacity (s\<lparr>mm_producer := (mm_producer s)(i := (PushIdle, v')), mm_memory := m'\<rparr>)"
    using knows_grows [OF D(1) grows] knows' by (auto simp: mpsc_mem_inv_def Let_def fst_upd m')
qed

lemma mpsc_mem_step_keeps:
  assumes cap: "is_capacity capacity" and inv: "mpsc_mem_inv capacity s" and step: "mpsc_mem_step capacity s ev t"
  shows "mpsc_mem_inv capacity t"
    and "\<exists>v. caller_view ev s v \<and> access_effect capacity ev v (mm_memory s) (mm_memory t)"
proof -
  note D = mpsc_mem_invD [OF inv]
  have same: "mpsc_mem_inv capacity (s\<lparr>mm_producer := (mm_producer s)(i := (pc, v))\<rparr>)"
    if "\<not> holds_lock (fst (mm_producer s i))" "\<not> holds_lock pc" "knows capacity (mm_memory s) v" for i pc v
    using D that by (auto simp: mpsc_mem_inv_def Let_def fst_upd lock_agrees_same)
  have "mpsc_mem_inv capacity t \<and>
      (\<exists>v. caller_view ev s v \<and> access_effect capacity ev v (mm_memory s) (mm_memory t))"
    using step
  proof cases
    case (mm_call i v x)
    then show ?thesis using same [of i "PushSpin x" v] D(1) [of i] by (simp add: caller_view_def)
  next
    case (mm_spin i x v j w)
    obtain p where "ends_ok capacity (mm_memory s) p (mm_consumer s)" using mpsc_mem_inv_stores [OF inv] by blast
    then have "stores_ok capacity (mm_memory s)" by (rule ends_okD)
    moreover have "j < length (m_lock (mm_memory s))" using mm_spin(4) by (simp add: readable_def)
    ultimately have "knows capacity (mm_memory s) w" "j \<le> latest (m_lock (mm_memory s))"
      using mm_spin(5) nth_mem [of j "m_lock (mm_memory s)"] by (auto simp: stores_ok_def latest_def)
    then have "knows capacity (mm_memory s) (acquire AtLock j w v)"
      using D(1) [of i] mm_spin(3) by (intro knows_acquire_lock) simp_all
    then show ?thesis using mm_spin same [of i "PushSpin x"] by (simp add: caller_view_def)
  next
    case (mm_acquire i x v v' m')
    then show ?thesis using mpsc_acquire_keeps [OF cap inv mm_acquire(3-5)] by (simp add: caller_view_def)
  next
    case (mm_push i p m)
    then show ?thesis using mpsc_push_keeps [OF cap inv mm_push(2)] push_access_caller [OF mm_push(2)] by auto
  next
    case (mm_release i b v v' m')
    then show ?thesis using mpsc_release_keeps [OF cap inv mm_release(3,4)] by (simp add: caller_view_def)
  next
    case (mm_pop c m)
    then show ?thesis using mpsc_pop_keeps [OF cap inv mm_pop(2)] pop_access_caller [OF mm_pop(2)] by auto
  qed
  then show "mpsc_mem_inv capacity t"
    and "\<exists>v. caller_view ev s v \<and> access_effect capacity ev v (mm_memory s) (mm_memory t)" by blast+
qed

lemma memory_start_ends:
  assumes "is_capacity capacity"
  shows "ends_ok capacity (memory_start d) (PushIdle, nothing_seen) (PopIdle, nothing_seen)"
    and "contents capacity (memory_start d) = []"
proof -
  have "knows capacity (memory_start d) nothing_seen" by (simp add: knows_def nothing_seen_def memory_start_def)
  then show "ends_ok capacity (memory_start d) (PushIdle, nothing_seen) (PopIdle, nothing_seen)"
    using capacity_bounds [OF assms]
    by (simp add: ends_ok_def stores_ok_def producer_ok_def consumer_ok_def Let_def)
      (simp add: memory_start_def nothing_seen_def latest_def slot_def)
  show "contents capacity (memory_start d) = []" by (simp add: contents_def memory_start_def latest_def)
qed

lemma spsc_mem_start_inv: "is_capacity capacity \<Longrightarrow> spsc_mem_inv capacity (spsc_mem_start d)"
  by (simp add: spsc_mem_inv_def spsc_mem_start_def memory_start_ends)

lemma mpsc_mem_start_inv:
  assumes "is_capacity capacity"
  shows "mpsc_mem_inv capacity (mpsc_mem_start d)"
proof -
  have "knows capacity (memory_start d) nothing_seen" using ends_okD(4) [OF memory_start_ends(1) [OF assms]] by simp
  moreover have "last (m_lock (memory_start d)) = (False, nothing_seen)" by (simp add: memory_start_def)
  ultimately show ?thesis
    using memory_start_ends(1) [OF assms]
    by (simp add: mpsc_mem_inv_def mpsc_mem_start_def lock_agrees_def)
qed

lemma accepted_append: "accepted_items (evs @ evs') = accepted_items evs @ accepted_items evs'"
  by (induction evs rule: accepted_items.induct) simp_all

lemma taken_append: "taken_items (evs @ evs') = taken_items evs @ taken_items evs'"
  by (induction evs rule: taken_items.induct) simp_all

lemma access_effect_items:
  "access_effect capacity ev v m m' \<Longrightarrow> contents capacity m @ accepted_items [ev] = taken_items [ev] @ contents capacity m'"
  by (cases ev) simp_all

lemma items_extend:
  assumes "xs @ accepted_items evs = taken_items evs @ contents capacity m"
    and "\<exists>v. access_effect capacity ev v m m'"
  shows "xs @ accepted_items (evs @ [ev]) = taken_items (evs @ [ev]) @ contents capacity m'"
proof -
  have "contents capacity m @ accepted_items [ev] = taken_items [ev] @ contents capacity m'"
    using assms(2) access_effect_items by blast
  then show ?thesis using assms(1) by (simp add: accepted_append taken_append flip: append_assoc) simp
qed

lemma mpsc_mem_run_keeps:
  assumes "mpsc_mem_run capacity s evs t" and "is_capacity capacity" and "mpsc_mem_inv capacity s"
  shows "mpsc_mem_inv capacity t \<and>
    contents capacity (mm_memory s) @ accepted_items evs = taken_items evs @ contents capacity (mm_memory t)"
  using assms
proof (induction rule: mpsc_mem_run.induct)
  case (mm_run_snoc s evs t ev u)
  then have IH: "mpsc_mem_inv capacity t"
    "contents capacity (mm_memory s) @ accepted_items evs = taken_items evs @ contents capacity (mm_memory t)"
    by simp_all
  note K = mpsc_mem_step_keeps [OF mm_run_snoc.prems(1) IH(1) mm_run_snoc.hyps(2)]
  then show ?case
    using items_extend [OF IH(2)] by blast
qed simp

lemma spsc_mem_run_keeps:
  assumes "spsc_mem_run capacity s evs t" and "is_capacity capacity" and "spsc_mem_inv capacity s"
  shows "spsc_mem_inv capacity t \<and>
    contents capacity (sm_memory s) @ accepted_items evs = taken_items evs @ contents capacity (sm_memory t)"
  using assms
proof (induction rule: spsc_mem_run.induct)
  case (sm_run_snoc s evs t ev u)
  then have IH: "spsc_mem_inv capacity t"
    "contents capacity (sm_memory s) @ accepted_items evs = taken_items evs @ contents capacity (sm_memory t)"
    by simp_all
  note K = spsc_mem_step_keeps [OF sm_run_snoc.prems(1) IH(1) sm_run_snoc.hyps(2)]
  then show ?case
    using items_extend [OF IH(2)] by blast
qed simp

lemma ends_ok_bounds:
  assumes "ends_ok capacity m p c"
  shows "\<not> m_undefined m" and "length (contents capacity m) < unat capacity"
  using ends_okD [OF assms] by (auto simp: stores_ok_def length_contents)

section \<open>The orderings suffice\<close>

text \<open>
  Property C13. Under the acquire, release and relaxed orderings of the code, whatever old values
  the loads return and however the threads interleave, no two accesses to a slot race, no two
  producers are in the critical section together, the queue never holds more than its capacity
  less one, and what has been taken followed by what is queued is what has been accepted, in order.
\<close>

theorem weak_memory_queue_is_fifo:
  assumes "is_capacity capacity" and "mpsc_mem_run capacity (mpsc_mem_start d) evs s"
  shows "\<not> m_undefined (mm_memory s) \<and>
    accepted_items evs = taken_items evs @ contents capacity (mm_memory s) \<and>
    length (contents capacity (mm_memory s)) \<le> unat capacity - 1 \<and>
    (\<forall>i j. holds_lock (fst (mm_producer s i)) \<and> holds_lock (fst (mm_producer s j)) \<longrightarrow> i = j)"
proof -
  from mpsc_mem_run_keeps [OF assms(2,1) mpsc_mem_start_inv [OF assms(1)]]
  have inv: "mpsc_mem_inv capacity s"
    and items: "accepted_items evs = taken_items evs @ contents capacity (mm_memory s)"
    by (simp_all add: mpsc_mem_start_def memory_start_ends(2) [OF assms(1)])
  obtain p where "ends_ok capacity (mm_memory s) p (mm_consumer s)" using mpsc_mem_inv_stores [OF inv] by blast
  note bounds = ends_ok_bounds [OF this]
  moreover have "\<forall>i j. holds_lock (fst (mm_producer s i)) \<and> holds_lock (fst (mm_producer s j)) \<longrightarrow> i = j"
    using mpsc_mem_invD(2) [OF inv] unfolding lock_agrees_def by blast
  ultimately show ?thesis using items by auto
qed

text \<open>
  An example: producer 0 has pushed 7 and still holds the lock, and the consumer is about to load
  the tail.
\<close>

lemma example_mem_run:
  "\<exists>s. mpsc_mem_run 4 (mpsc_mem_start (0 :: nat))
      [Silent, Silent, Silent, Silent, Silent, Accepted 7, Silent] s \<and>
     fst (mm_producer s 0) = PushReturn True \<and> mm_consumer s = (PopHead 0, nothing_seen) \<and>
     m_tail (mm_memory s) ! 0 = (0, nothing_seen) \<and> length (m_tail (mm_memory s)) = 2 \<and>
     contents 4 (mm_memory s) = [7]"
proof -
  let ?start = "mpsc_mem_start (0 :: nat)" and ?z = "(PushIdle, nothing_seen) :: nat push_pc \<times> view"
  let ?prod = "\<lambda>p. (\<lambda>_. ?z)(0 := p)" and ?c = "(PopIdle, nothing_seen) :: nat pop_pc \<times> view"
  let ?va = "nothing_seen(AtLock := 1)" and ?ma = "memory_start (0 :: nat)"
  let ?mb = "?ma\<lparr>m_lock := [(False, nothing_seen), (True, nothing_seen)]\<rparr>"
  let ?vb = "?va(AtSlot 0 := 1)"
  let ?mc = "?mb\<lparr>m_touched := (\<lambda>_. 0)(0 := 1), m_buffer := (\<lambda>_. 0)(0 := 7)\<rparr>"
  let ?vc = "?vb(AtTail := 1)"
  let ?md = "?mc\<lparr>m_tail := [(0, nothing_seen), (1, ?vc)]\<rparr>"
  let ?s = "\<lambda>m p c. \<lparr>mm_memory = m, mm_producer = ?prod p, mm_consumer = c\<rparr> :: nat mpsc_mem"
  have same: "acquire AtHead 0 nothing_seen ?va = ?va" "?va(AtTail := 0) = ?va"
    "acquire AtLock 1 nothing_seen nothing_seen = ?va" "nothing_seen(AtHead := 0) = nothing_seen"
    by (auto simp: acquire_def nothing_seen_def sup_nat_def fun_eq_iff)
  have push: "mpsc_mem_run 4 ?start evs (?s m p c) \<Longrightarrow> push_access 4 p m ev p' m' \<Longrightarrow>
      mpsc_mem_run 4 ?start (evs @ [ev]) (?s m' p' c)" for evs m p c ev m' p'
    using mm_run_snoc [OF _ mm_push [of 4 "?s m p c" 0 ev p' m']] by simp
  have pop: "mpsc_mem_run 4 ?start evs (?s m p c) \<Longrightarrow> pop_access 4 c m ev c' m' \<Longrightarrow>
      mpsc_mem_run 4 ?start (evs @ [ev]) (?s m' p c')" for evs m p c ev m' c'
    using mm_run_snoc [OF _ mm_pop [of 4 "?s m p c" ev c' m']] by simp
  have "mpsc_mem_run 4 ?start ([] @ [Silent]) (?s ?ma (PushSpin 7, nothing_seen) ?c)"
    using mm_run_snoc [OF mm_run_nil mm_call [of ?start 0 nothing_seen 4 7]] by (simp add: mpsc_mem_start_def)
  moreover have "mpsc_mem_step 4 (?s ?ma (PushSpin 7, nothing_seen) ?c) Silent (?s ?mb (PushStart 7, ?va) ?c)"
    using mm_acquire [of "?s ?ma (PushSpin 7, nothing_seen) ?c" 0 7 nothing_seen ?va ?mb 4] same(3)
    by (simp add: exchange_lock_def memory_start_def)
  ultimately have run: "mpsc_mem_run 4 ?start (([] @ [Silent]) @ [Silent]) (?s ?mb (PushStart 7, ?va) ?c)"
    by (rule mm_run_snoc)
  have a: "push_access 4 (PushStart 7, ?va) ?mb Silent (PushTail 7 0, ?va) ?mb"
    using access_tail [of ?mb ?va 0 4 7] same(2) by (simp add: memory_start_def nothing_seen_def readable_def)
  have b: "push_access 4 (PushTail 7 0, ?va) ?mb Silent (PushRoom 7 0, ?va) ?mb"
    using access_room [of ?mb ?va 0 0 4 7] same(1) by (simp add: memory_start_def nothing_seen_def readable_def)
  have c: "push_access 4 (PushRoom 7 0, ?va) ?mb Silent (PushPublish 7 0, ?vb) ?mc"
    using access_write [of ?va 0 ?mb _ _ 4 7] by (simp add: memory_start_def nothing_seen_def touch_def)
  have d: "push_access 4 (PushPublish 7 0, ?vb) ?mc (Accepted 7) (PushReturn True, ?vc) ?md"
    using access_publish [of 0 4 ?vb ?mc _ _ 7]
    by (simp add: memory_start_def nothing_seen_def store_tail_def latest_def Let_def)
  have e: "pop_access 4 ?c ?md Silent (PopHead 0, nothing_seen) ?md"
    using access_head [of ?md nothing_seen 0 4] same(4)
    by (simp add: memory_start_def nothing_seen_def readable_def)
  from pop [OF push [OF push [OF push [OF push [OF run a] b] c] d] e]
  have "mpsc_mem_run 4 ?start [Silent, Silent, Silent, Silent, Silent, Accepted 7, Silent]
      (?s ?md (PushReturn True, ?vc) (PopHead 0, nothing_seen))"
    by simp
  then show ?thesis
    by (intro exI [of _ "?s ?md (PushReturn True, ?vc) (PopHead 0, nothing_seen)"])
      (simp add: contents_def latest_def memory_start_def slot_def)
qed

theorem weak_memory_queue_is_fifo_witness:
  "\<exists>s. mpsc_mem_run 4 (mpsc_mem_start (0 :: nat))
      [Silent, Silent, Silent, Silent, Silent, Accepted 7, Silent] s \<and>
     \<not> m_undefined (mm_memory s) \<and> holds_lock (fst (mm_producer s 0)) \<and> \<not> holds_lock (fst (mm_producer s 1))"
proof -
  have cap: "is_capacity (4 :: size_t)" unfolding is_capacity_def by (rule exI [of _ 2]) simp
  obtain s where run: "mpsc_mem_run 4 (mpsc_mem_start (0 :: nat))
      [Silent, Silent, Silent, Silent, Silent, Accepted 7, Silent] s" "fst (mm_producer s 0) = PushReturn True"
    using example_mem_run by blast
  note fifo = weak_memory_queue_is_fifo [OF cap run(1)]
  moreover from fifo run(2) have "\<not> holds_lock (fst (mm_producer s 1))"
    using holds_lock_simps(7) [of True] by (metis zero_neq_one)
  ultimately show ?thesis using run by (intro exI [of _ s]) simp
qed

text \<open>The same without a lock, for one producer.\<close>

theorem weak_memory_spsc_is_fifo:
  assumes "is_capacity capacity" and "spsc_mem_run capacity (spsc_mem_start d) evs s"
  shows "\<not> m_undefined (sm_memory s)" and "length (contents capacity (sm_memory s)) \<le> unat capacity - 1"
    and "accepted_items evs = taken_items evs @ contents capacity (sm_memory s)"
proof -
  from spsc_mem_run_keeps [OF assms(2,1) spsc_mem_start_inv [OF assms(1)]]
  have "ends_ok capacity (sm_memory s) (sm_producer s) (sm_consumer s)"
    and items: "accepted_items evs = taken_items evs @ contents capacity (sm_memory s)"
    by (simp_all add: spsc_mem_start_def spsc_mem_inv_def memory_start_ends(2) [OF assms(1)])
  then show "\<not> m_undefined (sm_memory s)" "length (contents capacity (sm_memory s)) \<le> unat capacity - 1"
    using ends_ok_bounds [of capacity "sm_memory s" "sm_producer s" "sm_consumer s"] by simp_all
  show "accepted_items evs = taken_items evs @ contents capacity (sm_memory s)" by (rule items)
qed

text \<open>
  Property C25. A push may be refused although there is room, and a pop may find nothing although
  something is queued, but only for want of news: the queue is short of its bound by no more
  elements than pops that the refused producer has not yet seen, and it holds no more elements than
  pushes that the consumer has not yet seen. A caller that has seen everything gets the truth.
\<close>

theorem refusals_tell_what_was_seen:
  assumes "is_capacity capacity" and "mpsc_mem_run capacity (mpsc_mem_start d) evs s"
    and "mpsc_mem_step capacity s ev t"
  shows "case ev of
      Refused x \<Rightarrow> \<exists>i tl v. mm_producer s i = (PushTail x tl, v) \<and>
        unat capacity - 1 - length (contents capacity (mm_memory s)) \<le> latest (m_head (mm_memory s)) - v AtHead
    | FoundEmpty \<Rightarrow> \<exists>hd v. mm_consumer s = (PopHead hd, v) \<and>
        length (contents capacity (mm_memory s)) \<le> latest (m_tail (mm_memory s)) - v AtTail
    | _ \<Rightarrow> True"
proof -
  have "mpsc_mem_inv capacity s"
    using mpsc_mem_run_keeps [OF assms(2,1) mpsc_mem_start_inv [OF assms(1)]] by blast
  from mpsc_mem_step_keeps(2) [OF assms(1) this assms(3)] obtain v where
    "caller_view ev s v" "access_effect capacity ev v (mm_memory s) (mm_memory t)" by blast
  then show ?thesis
    by (auto simp: caller_view_def le_diff_conv add.commute split: queue_event.splits)
qed

text \<open>The consumer of the example loads the old tail and finds nothing, one element short.\<close>

theorem refusals_tell_what_was_seen_witness:
  "\<exists>s t v. mpsc_mem_step 4 s FoundEmpty t \<and> mm_consumer s = (PopHead 0, v) \<and>
     length (contents 4 (mm_memory s)) = 1 \<and> 1 \<le> latest (m_tail (mm_memory (s :: nat mpsc_mem))) - v AtTail"
proof -
  have cap: "is_capacity (4 :: size_t)" unfolding is_capacity_def by (rule exI [of _ 2]) simp
  obtain s where run: "mpsc_mem_run 4 (mpsc_mem_start (0 :: nat))
      [Silent, Silent, Silent, Silent, Silent, Accepted 7, Silent] s"
    and s: "mm_consumer s = (PopHead 0, nothing_seen)" "m_tail (mm_memory s) ! 0 = (0, nothing_seen)"
      "length (m_tail (mm_memory s)) = 2" "contents 4 (mm_memory s) = [7]"
    using example_mem_run by blast
  have "readable (m_tail (mm_memory s)) (nothing_seen AtTail) 0" using s by (simp add: readable_def nothing_seen_def)
  then have "pop_access 4 (mm_consumer s) (mm_memory s) FoundEmpty
      (PopIdle, acquire AtTail 0 (snd (m_tail (mm_memory s) ! 0)) nothing_seen) (mm_memory s)"
    unfolding s(1) by (intro access_empty) (simp_all add: s)
  then obtain t where step: "mpsc_mem_step 4 s FoundEmpty t" using mm_pop by blast
  from refusals_tell_what_was_seen [OF cap run step] step s show ?thesis by auto
qed

end
