(* ===== verification/Spec2Isabelle.thy ===== *)
theory Spec2Isabelle
  imports Book_Levels Orderbook_Print Exchange_Fills Delivery_Properties Queue_Ordering
begin

text \<open>
  A verification library for the exchange matching engine in \<^verbatim>\<open>include/\<close> and
  \<^verbatim>\<open>src/\<close> and the example client in \<^verbatim>\<open>cpp_client/\<close>.

  \<^bold>\<open>The program.\<close> Clients send requests over a ZMQ ROUTER socket. The server thread
  (\<^verbatim>\<open>ZmqServer\<close>) gives each client identity a session (\<^verbatim>\<open>SessionManager\<close>), casts the bytes
  to a packed struct of \<^verbatim>\<open>Protocol.h\<close> and pushes it on the inbound queue, which has several
  producers: the server and the optional \<^verbatim>\<open>DummyGenerator\<close>. The matching thread
  (\<^verbatim>\<open>MatchingEngine\<close>) pops the requests one by one, validates them, works on the
  \<^verbatim>\<open>Orderbook\<close>, and pushes responses on the outbound queue and market data on the feed queue.
  The server thread drains the outbound queue to the clients; the feed thread (\<^verbatim>\<open>FeedHandler\<close>)
  drains the feed queue to UDP multicast. \<^verbatim>\<open>Exchange\<close> builds the components, starts them and
  stops them in turn when a signal asks for it. The components share nothing but the three queues
  and their running flags, so the model of a component is a sequential one over its own record and
  the queues it uses; what their threads do together is modelled in \<open>Exchange_System\<close>.

  \<^bold>\<open>The theories.\<close>
  \<^item> \<open>Exchange_Prelude\<close>: the integer types of \<^verbatim>\<open>Usings.h\<close> at their width, fact collections,
    lemmas on words, lists and maps.
  \<^item> \<open>Order_Object\<close>: the enumerations of \<^verbatim>\<open>define.h\<close> and the class \<^verbatim>\<open>Order\<close>. A shared
    pointer is an address; the objects live in a store, so that the book, the engine and the level
    lists see each other's writes.
  \<^item> \<open>Price_Levels\<close>: \<^verbatim>\<open>BidBook\<close> and \<^verbatim>\<open>AskBook\<close>, the ordered maps, as lists of pairs in
    iteration order. Locale \<open>price_order\<close> for the comparators, interpreted for both.
  \<^item> \<open>Orderbook_Model\<close>: \<^verbatim>\<open>src/Orderbook.cpp\<close>, function by function. The record
    \<open>Orderbook\<close> has the members of the class and the store.
  \<^item> \<open>Book_Spec\<close>: the price-time priority specification over two queues of entries with
    natural-number quantities. \<open>Orderbook_Matching\<close>: the nested loops of \<^verbatim>\<open>addToBook\<close> are one
    loop over the contra side. \<open>Orderbook_Invariant\<close>: \<open>book_inv\<close> (levels sorted and non-empty,
    resting orders with a positive quantity at their level's price, index and levels in agreement,
    sides uncrossed), the abstraction \<open>book_abs\<close>, and that matching and booking refine the
    specification. \<open>Orderbook_Operations\<close>: the same for \<open>AddOrder\<close>, \<open>CancelOrder\<close>,
    \<open>ModifyOrder\<close>, and the best prices. \<open>Orderbook_Ownership\<close>: what they leave alone.
  \<^item> \<open>Book_Interface\<close>: locale \<open>price_time_book\<close>, the contract between a book and its callers,
    with its consequences proved once (conservation, priority, exhaustion), interpreted for
    \<open>Orderbook\<close>; the reachable books. \<open>Book_Properties\<close>: the properties of the class.
    \<open>Book_Levels\<close>: the per-level counts and totals of \<^verbatim>\<open>price_to_leveldata_\<close> against the
    multiset of resting orders, through matching, booking and every public operation.
    \<open>Orderbook_Print\<close>: the rows of \<^verbatim>\<open>PrintOrderbook\<close>, with the totals of the resting orders.
  \<^item> \<open>Ring_Queue\<close>: \<^verbatim>\<open>LockFreeQueue.h\<close> with a push or a pop as one operation. Locale
    \<open>bounded_queue\<close> is the contract of a bounded first-in first-out list; it is interpreted for the
    inbound, outbound and feed queues. \<open>Queue_Steps\<close>: the same calls as sequences of single
    accesses to head, tail, slots and lock, with every interleaving of the producers and the
    consumer; the calls take effect one at a time, as the whole operations of \<open>Ring_Queue\<close> do.
    \<open>Queue_Memory\<close>, \<open>Queue_Ordering\<close>: the calls under the memory orderings that the code names,
    with histories of stores and views instead of one shared state; the code has no data race and
    the queue is still first-in first-out, but a refusal is only as fresh as its caller's view.
  \<^item> \<open>Protocol_Msgs\<close>: the structs of \<^verbatim>\<open>Protocol.h\<close>, one record each. \<open>Protocol_Wire\<close>: their
    packed little-endian bytes, and reading them back.
  \<^item> \<open>Matching_Engine\<close>: \<^verbatim>\<open>src/MatchingEngine.cpp\<close>, function by function.
    \<open>Engine_Messages\<close>, \<open>Engine_Invariant\<close>, \<open>Engine_Handlers\<close>, \<open>Engine_Effects\<close>: what a handler
    says to clients and feed, the invariant \<open>engine_inv\<close>, that every handler keeps it, the effect
    of each handler on every branch, the reachable engines. \<open>Engine_Loop\<close>: the matching loop.
    \<open>Engine_Properties\<close>: the properties. \<open>Engine_Actions\<close>: a handler as what it does before
    its first push (\<open>begin_message\<close>) and the list of its pushes, each with the private code beside
    it (\<open>do_action\<close>); run without interruption they are the handler. \<open>Action_Effects\<close>: what one
    push says, and the invariant of the engine between two of them.
  \<^item> \<open>Session_Manager\<close>, \<open>Zmq_Server\<close>, \<open>Feed_Handler\<close>: the classes of these names (the last one
    with \<^verbatim>\<open>UdpMulticast\<close>), each with its invariant and properties.
  \<^item> \<open>Std_Text\<close>: what the sources use of \<^verbatim>\<open>istringstream\<close> and \<^verbatim>\<open>atoi\<close>. \<open>Client\<close>:
    \<^verbatim>\<open>cpp_client/\<close>, from the command line over the requests it builds to the responses and market
    data it prints. \<open>Engine_Framing\<close>: everything the engine queues is well framed, and the client
    decodes it to the engine's fields.
  \<^item> \<open>Dummy_Generator\<close>: the class of that name, with the bounds of its price walk and its rate.
  \<^item> \<open>Exchange_Setup\<close>: \<^verbatim>\<open>main\<close>'s arguments, the construction of \<^verbatim>\<open>Exchange\<close>, and
    \<open>exchange_start\<close> with its failure paths. \<open>Exchange_System\<close>: each running thread as a step
    relation, from one place in its loop to the next: \<open>server_step\<close> (\<^verbatim>\<open>ZmqServer::eventLoop\<close>),
    \<open>engine_step\<close> (\<^verbatim>\<open>MatchingEngine::matchingLoop\<close>), \<open>feed_step\<close>
    (\<^verbatim>\<open>FeedHandler::feedLoop\<close>), \<open>dummy_step\<close> (\<^verbatim>\<open>DummyGenerator::generatorLoop\<close>),
    \<open>main_step\<close> (\<^verbatim>\<open>Exchange::waitForShutdown\<close> and \<^verbatim>\<open>Exchange::stop\<close>); \<open>exchange_step\<close> lets
    one of them move, or a signal come, which \<open>signalHandler\<close> handles. No step makes more than one
    call on a queue, so that the other threads move between the pushes of a handler too; the invariant \<open>exchange_inv\<close>
    (components consistent, flags and thread positions fitting the main thread's progress, everything
    sent well framed), kept by every step; a rank that some step lowers once a shutdown is requested.
    \<open>Exchange_Properties\<close>: the properties of the whole. \<open>Engine_Sessions\<close>, \<open>Exchange_Delivery\<close>: the
    history of an execution (what was accepted, answered, sent and published, and whether the engine
    ever found a queue full; for everything sent and published also whether the calls that sent it
    succeeded), the invariant that ties it to the queues, the socket and the datagrams.
    \<open>Exchange_Trading\<close>: executions put together from rounds of one thread, and one in which two
    clients trade. \<open>Delivery_Properties\<close>: the delivery of responses and market data, with the
    responses whose sending fails, and the responses that a stop loses.
  \<^item> \<open>Market_Spec\<close>: the exchange as its clients see it, an executable sequential market over two
    queues of entries, an owner table and counters. \<open>Market_Refinement\<close>: each request makes the
    engine do and say what the market does and says. \<open>Exchange_Market\<close>: so does the exchange with
    all its threads, over the requests in the order in which they were accepted; what it queues is in
    order part of what the market says, and all of it as long as no queue was full. \<open>Exchange_Fills\<close>:
    an order is never filled beyond what was asked for, over a whole execution.
  \<^item> This theory: the way of a command typed at the client to the engine's queue.

  \<^bold>\<open>Correspondence.\<close> Definitions carry the names of the functions they model; record fields
  those of the members, without the trailing underscore and with a prefix where two classes
  share a name. A definition that has no function of its own is a part of one (the body of a loop,
  a lambda, a branch) and says so. Machine integers are words: \<open>Price\<close> is a signed 32-bit word
  compared with \<^term>\<open>sint\<close>, the others are unsigned and wrap around. Enumerations that the code
  casts from a byte (\<open>BuySell_cast\<close>, \<open>OrderType_cast\<close>) give \<open>None\<close> for a byte that is no
  enumerator. Every early return and every reject is a branch of the model.

  \<^bold>\<open>Loops.\<close> No definition takes fuel. Loops over lists are structural; the loops that drain a
  queue, and the spin on the lock of the multi-producer queue, are \<open>partial_function (option)\<close>,
  where \<open>None\<close> is not returning. That they return is proved: \<open>drain_inbound_total\<close>,
  \<open>matchingLoop_total\<close>, \<open>processOutbound_delivers\<close>, \<open>feed_drain_publishes_all\<close>,
  \<open>mpsc_push_returns_iff_unlocked\<close>. \<open>matchingLoop\<close> and \<open>feedLoop\<close> take, for each round of the
  loop while running, what the producers pushed in it; after the last round the running flag is
  false. In \<open>Exchange_System\<close> the same loops are steps between the places at which a thread can be.
  A queue holds one element less than its capacity, 65535 for the inbound and the outbound
  queue and 16383 for the feed queue; a push on a full queue loses its message, which is the \<open>take\<close> in the
  statements about message streams. Order ids and trade ids are 64-bit counters: the properties of the engine assume
  that fewer than \<open>2 ^ 64 - 1\<close> orders were accepted (\<open>ids_left\<close>, \<open>id_budget\<close>,
  \<open>shutdown_budget\<close>); the properties of sessions assume the like of the 32-bit session counter
  (\<open>sessions_left\<close>), and \<open>exchange_reachable\<close> goes on only while both last.

  \<^bold>\<open>Parameters.\<close> What is not code of the repository is an argument or a field of the model:
  the clocks (any sequence of readings), what ZMQ's \<^verbatim>\<open>recv\<close> returned for each frame,
  how many of the three \<^verbatim>\<open>send\<close>s of a response return before one throws \<^verbatim>\<open>zmq::error_t\<close>,
  what \<^verbatim>\<open>sendto\<close>, \<^verbatim>\<open>inet_pton\<close>, \<^verbatim>\<open>socket\<close>, \<^verbatim>\<open>setsockopt\<close> and \<^verbatim>\<open>bind\<close> returned, the
  iteration order of an unordered container, the random numbers (\<open>draws_ok\<close>: within the bounds of
  their distribution) and the rounding of doubles (\<open>rounding_ok\<close>: monotone, exact on small integers
  and halves). The allocator hands out addresses never used before. Sends are collected in order:
  \<open>zs_wire\<close> are the messages sent whole and \<open>zs_failed\<close> those cut short, with the number of frames
  that ZMQ took; \<open>datagrams\<close> are all that \<^verbatim>\<open>sendto\<close> was called with and \<open>sent_whole\<close> those
  that it took whole; \<open>cl_sent\<close> is what the client sent. Undefined behaviour of C++ (signed overflow, a
  conversion out of range, \<^verbatim>\<open>atoi\<close> out of range) is \<open>None\<close> or \<open>Undefined\<close>.

  \<^bold>\<open>Not modelled.\<close> Output to the console other than the client's lines and the rows of
  \<^verbatim>\<open>PrintOrderbook\<close> (log lines, usage texts), memory exhaustion, sleeping, the inside of the ZMQ
  library (an exception that it throws on receiving is the rule \<open>error\<close> of \<open>server_step\<close>, one that it
  throws on sending fails the response; what a peer gets of the frames of a message cut short is
  not said), what the operating system does to call the signal handler (a signal may come at any
  time). In \<open>exchange_step\<close> a call
  on a queue is one step, which \<open>Queue_Steps\<close> justifies for sequentially consistent accesses; under
  the weaker orderings that the code names \<open>Queue_Ordering\<close> shows the same but for refusals: a push
  can be refused, or a pop find nothing, because its caller has not yet seen the other side's last
  move. A pop that finds nothing is retried; a refused push loses its message, which \<open>exchange_step\<close>
  has for a full queue only. Destructors do what \<open>stop\<close> does and find it done. \<^verbatim>\<open>addOrderToSession\<close>,
  \<^verbatim>\<open>handleClientDisconnect\<close> and the publishers of \<^verbatim>\<open>FeedHandler\<close> are modelled, but nothing
  in the program calls them; \<^verbatim>\<open>MatchingEngine::getBestBidAsk\<close>, which nothing calls either, only
  forwards to \<open>GetBestBidAsk\<close>.
\<close>

section \<open>From the wire to the engine\<close>

text \<open>
  A well-framed request that a connected client sends as the bytes of its struct reaches the engine
  as exactly that request under the client's session: if the inbound queue has room it is appended
  to what the engine has yet to process, behind everything already there, and the engine is
  otherwise unchanged.
\<close>

theorem request_bytes_reach_engine:
  assumes "engine_reachable e" and "length (pending e) < 65535"
    and "zs_identityToSession zs identity = Some sid"
    and "mh_type (request_header body) = request_type body"
    and "unat (mh_length (request_header body)) \<le> length (put_request body)"
  shows "\<exists>q. parseAndRouteMessage identity (put_request body) zs (inboundQueue e) = Some (True, q) \<and>
      pending (e\<lparr>inboundQueue := q\<rparr>) = pending e @ [\<lparr>im_sessionId = sid, im_body = body\<rparr>] \<and>
      engine_inv (e\<lparr>inboundQueue := q\<rparr>)"
proof -
  let ?msg = "\<lparr>im_sessionId = sid, im_body = body\<rparr>"
  note inv = reachable_engine_inv [OF assms(1)]
  have q: "mpsc_inv INBOUND_QUEUE_SIZE (inboundQueue e)"
    using engine_invD(4) [OF inv] by (simp add: queues_ok_def)
  have "length (rb_list INBOUND_QUEUE_SIZE (inboundQueue e)) < unat INBOUND_QUEUE_SIZE - 1"
    using assms(2) by (simp add: pending_def INBOUND_QUEUE_SIZE_def)
  from inbound.push_room [OF q this, of ?msg] obtain q' where
    push: "the (mpsc_push INBOUND_QUEUE_SIZE ?msg (inboundQueue e)) = (True, q')"
    and q': "mpsc_inv INBOUND_QUEUE_SIZE q'"
    and list: "rb_list INBOUND_QUEUE_SIZE q' = rb_list INBOUND_QUEUE_SIZE (inboundQueue e) @ [?msg]"
    by blast
  have "\<not> producerLock (inboundQueue e)" using q by (simp add: mpsc_inv_def)
  then have "mpsc_push INBOUND_QUEUE_SIZE ?msg (inboundQueue e) = Some (True, q')"
    using push by (simp add: mpsc_push_spsc)
  with parse_put_request [OF assms(3-5)] have
    "parseAndRouteMessage identity (put_request body) zs (inboundQueue e) = Some (True, q')"
    by (simp add: routeToInbound_def)
  with list queue_fields_irrelevant(1) [OF inv q'] show ?thesis
    by (simp add: pending_def)
qed

theorem request_bytes_reach_engine_witness:
  "\<exists>q. parseAndRouteMessage [65] (put_request (CancelOrderBody
       \<lparr>cor_header = new_MessageHeader CANCEL_ORDER_REQUEST 27 0, cor_clientOrderId = 5, cor_orderId = 1\<rparr>))
     (fst (connectClient [65] new_ZmqServer new_SessionManager)) (inboundQueue example_engine) =
     Some (True, q)"
proof -
  let ?body = "CancelOrderBody
    \<lparr>cor_header = new_MessageHeader CANCEL_ORDER_REQUEST 27 0, cor_clientOrderId = 5, cor_orderId = 1\<rparr>"
  have "zs_identityToSession (fst (connectClient [65] new_ZmqServer new_SessionManager)) [65] = Some 1"
    by (simp add: connectClient_def new_ZmqServer_def createSession_def new_SessionManager_def Let_def)
  moreover have "length (pending example_engine) < 65535"
    by (simp add: pending_def example_engine_def new_engine_def rb_count_def mpsc_new_def)
  moreover have "mh_type (request_header ?body) = request_type ?body"
    "unat (mh_length (request_header ?body)) \<le> length (put_request ?body)"
    by (simp_all add: new_MessageHeader_def sizeof_defs)
  ultimately show ?thesis using request_bytes_reach_engine [OF example_engine_reachable] by blast
qed

text \<open>What the client builds from a line is well framed.\<close>

definition framed_request :: "InboundBody \<Rightarrow> bool" where
  "framed_request body \<longleftrightarrow> mh_type (request_header body) = request_type body \<and>
     unat (mh_length (request_header body)) = length (put_request body)"

lemma built_requests_framed:
  "framed_request (NewOrderBody (new_NewOrderRequest now cid side t price qty))"
  "framed_request (CancelOrderBody (new_CancelOrderRequest now cid oid))"
  "framed_request (ModifyOrderBody (new_ModifyOrderRequest now cid oid price qty))"
  by (simp_all add: framed_request_def new_NewOrderRequest_def new_CancelOrderRequest_def
      new_ModifyOrderRequest_def new_MessageHeader_def) (simp_all add: sizeof_defs)

lemma client_command_framed:
  assumes "client_command now line = SendRequest body"
  shows "framed_request body"
  using assms built_requests_framed
  by (auto simp: client_command_def or_usage_def parse_new_def parse_cancel_def parse_modify_def
      and_then_def split: option.splits prod.splits if_splits)

text \<open>
  Property C31. A command typed at the client travels unchanged: the one message that the client
  sends for it is the empty delimiter and the bytes that the server, for a connected identity,
  routes to the engine as exactly the request that the command names, under the client's session
  and behind everything already queued.
\<close>

theorem client_command_reaches_engine:
  assumes "engine_reachable e" and "length (pending e) < 65535"
    and "zs_identityToSession zs identity = Some sid"
    and "client_command (cl_clock c 0) line = SendRequest body"
  shows "\<exists>msg q. cl_sent (client_loop [line] c) = cl_sent c @ [[[], msg]] \<and>
      parseAndRouteMessage identity msg zs (inboundQueue e) = Some (True, q) \<and>
      pending (e\<lparr>inboundQueue := q\<rparr>) = pending e @ [\<lparr>im_sessionId = sid, im_body = body\<rparr>] \<and>
      engine_inv (e\<lparr>inboundQueue := q\<rparr>)"
proof -
  have "cl_sent (await_response d) = cl_sent d" for d
    by (auto simp: await_response_def print_line_def zmqRecvPayload_def Let_def
        split: option.splits prod.splits list.splits if_splits)
  then have "cl_sent (client_loop [line] c) = cl_sent c @ [[[], put_request body]]"
    using assms(4) by (simp add: zmqSendStruct_def)
  with request_bytes_reach_engine [OF assms(1-3), of body] client_command_framed [OF assms(4)]
  show ?thesis by (auto simp: framed_request_def)
qed

theorem client_command_reaches_engine_witness:
  "\<exists>msg q. cl_sent (client_loop [''new 5 buy limit -100 10'']
        \<lparr>cl_clock = (\<lambda>_. 0), cl_incoming = [], cl_sent = [], cl_output = []\<rparr>) = [[[], msg]] \<and>
     parseAndRouteMessage [65] msg (fst (connectClient [65] new_ZmqServer new_SessionManager))
       (inboundQueue example_engine) = Some (True, q) \<and>
     pending (example_engine\<lparr>inboundQueue := q\<rparr>) = [\<lparr>im_sessionId = 1, im_body = NewOrderBody
       (new_NewOrderRequest 0 5 1 1 (-100) 10)\<rparr>]"
proof -
  have zs: "zs_identityToSession (fst (connectClient [65] new_ZmqServer new_SessionManager)) [65] = Some 1"
    by (simp add: connectClient_def new_ZmqServer_def createSession_def new_SessionManager_def Let_def)
  have none: "pending example_engine = []"
    by (simp add: pending_def example_engine_def new_engine_def rb_list_def rb_count_def mpsc_new_def)
  then have room: "length (pending example_engine) < 65535" by simp
  have cmd: "client_command (cl_clock \<lparr>cl_clock = (\<lambda>_. 0), cl_incoming = [], cl_sent = [], cl_output = []\<rparr> 0)
      ''new 5 buy limit -100 10'' = SendRequest (NewOrderBody (new_NewOrderRequest 0 5 1 1 (-100) 10))"
    by (simp add: client_command_def parse_new_def and_then_def or_usage_def scan_word_def
        scan_unsigned_def scan_int32_def scan_number_def is_space_def is_digit_def decimal_value_def
        digit_value_def signed_value_def fits_int32_def parseSide_def parseOrderType_def)
  from client_command_reaches_engine [OF example_engine_reachable room zs cmd] none show ?thesis
    by (auto simp del: client_loop.simps)
qed

end
